(* ===== verification/Prelude.thy ===== *)
theory Prelude
  imports Main "HOL-Library.Word" "HOL-Library.AList" "HOL-Library.List_Lexorder"
    "HOL-Library.Char_ord"
begin

text \<open>
  Shared vocabulary of the development: machine integers and byte buffers, the \<open>?\<close> operator of
  Rust on results and on state-threading results, little-endian bytes, Rust strings as UTF-8 byte
  sequences with the standard library's validation, decimal printing, hash maps as association
  lists with distinct keys, and ordered maps (\<open>BTreeMap\<close>) as key-sorted association lists.
\<close>

unbundle bit_operations_syntax

named_theorems codec_simps \<open>encoder and decoder steps, evaluated by simp\<close>
named_theorems result_simps \<open>inversion of the ? operator\<close>

section \<open>Types\<close>

type_synonym u8 = "8 word"
type_synonym u16 = "16 word"
type_synonym u32 = "32 word"
type_synonym u64 = "64 word"
type_synonym bytes = "u8 list"

section \<open>Results\<close>

text \<open>
  \<open>Result<T, E>\<close> is \<open>'e + 'a\<close> with \<open>Inl\<close> for \<open>Err\<close>. \<open>try_res r f\<close> is \<open>f(r?)\<close>: the error
  returns early. Code that threads \<open>&mut self\<close> is a function of the state; the state after an
  early return is the state at that point.
\<close>

definition try_res :: "'e + 'a \<Rightarrow> ('a \<Rightarrow> 'e + 'b) \<Rightarrow> 'e + 'b" where
  "try_res r f = (case r of Inl e \<Rightarrow> Inl e | Inr x \<Rightarrow> f x)"

definition map_err :: "('e \<Rightarrow> 'f) \<Rightarrow> 'e + 'a \<Rightarrow> 'f + 'a" where
  "map_err g r = (case r of Inl e \<Rightarrow> Inl (g e) | Inr x \<Rightarrow> Inr x)"

type_synonym ('s, 'e, 'a) st = "'s \<Rightarrow> ('e + 'a) \<times> 's"

definition try_st :: "('s, 'e, 'a) st \<Rightarrow> ('a \<Rightarrow> ('s, 'e, 'b) st) \<Rightarrow> ('s, 'e, 'b) st" where
  "try_st m f s = (case m s of (Inl e, s') \<Rightarrow> (Inl e, s') | (Inr x, s') \<Rightarrow> f x s')"

definition lift_st :: "'e + 'a \<Rightarrow> ('s, 'e, 'a) st" where
  "lift_st r s = (r, s)"

lemma try_res_simps [simp, codec_simps]:
  "try_res (Inl e) f = Inl e"
  "try_res (Inr x) f = f x"
  by (simp_all add: try_res_def)

lemma map_err_simps [simp, codec_simps]:
  "map_err g (Inl e) = Inl (g e)"
  "map_err g (Inr x) = Inr x"
  by (simp_all add: map_err_def)

lemma map_err_eq_Inr [simp]: "map_err g r = Inr x \<longleftrightarrow> r = Inr x"
  by (cases r) simp_all

lemma map_err_eq_Inl: "map_err g r = Inl e \<longleftrightarrow> (\<exists>e'. r = Inl e' \<and> e = g e')"
  by (cases r) auto

lemma try_res_eq_Inr [result_simps]:
  "try_res r f = Inr y \<longleftrightarrow> (\<exists>x. r = Inr x \<and> f x = Inr y)"
  by (cases r) simp_all

lemma try_res_eq_Inl [result_simps]:
  "try_res r f = Inl e \<longleftrightarrow> r = Inl e \<or> (\<exists>x. r = Inr x \<and> f x = Inl e)"
  by (cases r) simp_all

lemma try_res_assoc: "try_res (try_res r f) g = try_res r (\<lambda>x. try_res (f x) g)"
  by (cases r) simp_all

lemma try_res_cong [fundef_cong]:
  "r = r' \<Longrightarrow> (\<And>x. r' = Inr x \<Longrightarrow> f x = f' x) \<Longrightarrow> try_res r f = try_res r' f'"
  by (cases r') simp_all

lemma try_st_Inr: "m s = (Inr x, s') \<Longrightarrow> try_st m f s = f x s'"
  by (simp add: try_st_def)

lemma try_st_Inl: "m s = (Inl e, s') \<Longrightarrow> try_st m f s = (Inl e, s')"
  by (simp add: try_st_def)

lemma lift_st_apply [simp]: "lift_st r s = (r, s)"
  by (simp add: lift_st_def)

lemma try_st_lift [simp]:
  "try_st (lift_st (Inr x)) f s = f x s"
  "try_st (lift_st (Inl e)) f s = (Inl e, s)"
  by (simp_all add: try_st_def)

lemma try_st_eq_Inr [result_simps]:
  "try_st m f s = (Inr y, s'') \<longleftrightarrow> (\<exists>x s'. m s = (Inr x, s') \<and> f x s' = (Inr y, s''))"
  by (auto simp: try_st_def split: prod.splits sum.splits)

lemma try_st_eq_Inl [result_simps]:
  "try_st m f s = (Inl e, s'') \<longleftrightarrow>
     m s = (Inl e, s'') \<or> (\<exists>x s'. m s = (Inr x, s') \<and> f x s' = (Inl e, s''))"
  by (auto simp: try_st_def split: prod.splits sum.splits)

lemma try_st_cases [consumes 1, case_names err ok]:
  assumes "try_st m f s = (r, s'')"
  obtains e where "m s = (Inl e, s'')" "r = Inl e"
  | x s' where "m s = (Inr x, s')" "f x s' = (r, s'')"
  using assms by (auto simp: try_st_def split: prod.splits sum.splits)

lemma try_st_cong [fundef_cong]:
  assumes "m s = m' s'" and "s = s'" and "\<And>x t. m' s' = (Inr x, t) \<Longrightarrow> f x t = f' x t"
  shows "try_st m f s = try_st m' f' s'"
  using assms by (auto simp: try_st_def split: prod.splits sum.splits)

section \<open>Little-endian bytes\<close>

primrec le_nat :: "nat \<Rightarrow> nat \<Rightarrow> bytes" where
  "le_nat 0 x = []"
| "le_nat (Suc n) x = of_nat (x mod 256) # le_nat n (x div 256)"

primrec of_le_nat :: "bytes \<Rightarrow> nat" where
  "of_le_nat [] = 0"
| "of_le_nat (b # bs) = unat b + 256 * of_le_nat bs"

lemma unat_u8_less [simp]: "unat (b :: u8) < 256"
  using unsigned_less [where ?w = b] by simp

lemma length_le_nat [simp]: "length (le_nat n x) = n"
  by (induction n arbitrary: x) simp_all

lemma unat_byte_of_nat: "unat (of_nat (x mod 256) :: u8) = x mod 256"
  by (simp add: unat_of_nat)

lemma of_le_nat_le_nat: "of_le_nat (le_nat n x) = x mod 256 ^ n"
proof (induction n arbitrary: x)
  case 0
  then show ?case by simp
next
  case (Suc n)
  have "x mod 256 ^ Suc n = 256 * (x div 256 mod 256 ^ n) + x mod 256"
    by (simp add: mod_mult2_eq)
  then show ?case
    by (simp add: Suc unat_byte_of_nat)
qed

lemma of_le_nat_bound: "of_le_nat bs < 256 ^ length bs"
proof (induction bs)
  case Nil
  then show ?case by simp
next
  case (Cons b bs)
  have "256 * (of_le_nat bs + 1) \<le> 256 * 256 ^ length bs"
    using Cons by (intro mult_le_mono2) simp
  then show ?case
    using unat_u8_less [of b] by (simp del: unat_u8_less)
qed

lemma le_nat_of_le_nat: "le_nat (length bs) (of_le_nat bs) = bs"
proof (induction bs)
  case Nil
  then show ?case by simp
next
  case (Cons b bs)
  have "unat b < 256"
    by (rule unat_u8_less)
  then have "(unat b + 256 * of_le_nat bs) div 256 = of_le_nat bs"
    and "(unat b + 256 * of_le_nat bs) mod 256 = unat b"
    by simp_all
  with Cons show ?case by simp
qed

lemma le_nat_inj: "x < 256 ^ n \<Longrightarrow> y < 256 ^ n \<Longrightarrow> le_nat n x = le_nat n y \<longleftrightarrow> x = y"
  by (metis of_le_nat_le_nat mod_less)

section \<open>Rust strings\<close>

text \<open>
  A Rust \<open>String\<close> is a sequence of bytes that is valid UTF-8; the model keeps the bytes as the
  characters of a HOL string and states validity as a predicate. \<open>utf8_scan\<close> is the standard
  library's validation loop: \<open>None\<close> when the rest is valid, otherwise the index of the first bad
  sequence with its length, which is missing when the input stops inside a sequence.
\<close>

definition byte_of_char :: "char \<Rightarrow> u8" where
  "byte_of_char c = of_nat (of_char c)"

definition char_of_byte :: "u8 \<Rightarrow> char" where
  "char_of_byte b = char_of (unat b)"

definition as_bytes_str :: "string \<Rightarrow> bytes" where
  "as_bytes_str s = map byte_of_char s"

definition utf8_cont :: "u8 \<Rightarrow> bool" where
  "utf8_cont b \<longleftrightarrow> 0x80 \<le> b \<and> b \<le> 0xBF"

definition utf8_second3 :: "u8 \<Rightarrow> u8 \<Rightarrow> bool" where
  "utf8_second3 b c \<longleftrightarrow>
     (b = 0xE0 \<and> 0xA0 \<le> c \<and> c \<le> 0xBF) \<or> (0xE1 \<le> b \<and> b \<le> 0xEC \<and> utf8_cont c)
     \<or> (b = 0xED \<and> 0x80 \<le> c \<and> c \<le> 0x9F) \<or> (0xEE \<le> b \<and> b \<le> 0xEF \<and> utf8_cont c)"

definition utf8_second4 :: "u8 \<Rightarrow> u8 \<Rightarrow> bool" where
  "utf8_second4 b c \<longleftrightarrow>
     (b = 0xF0 \<and> 0x90 \<le> c \<and> c \<le> 0xBF) \<or> (0xF1 \<le> b \<and> b \<le> 0xF3 \<and> utf8_cont c)
     \<or> (b = 0xF4 \<and> 0x80 \<le> c \<and> c \<le> 0x8F)"

fun utf8_scan :: "nat \<Rightarrow> bytes \<Rightarrow> (nat \<times> nat option) option" where
  "utf8_scan i [] = None"
| "utf8_scan i (b # bs) =
     (if b < 0x80 then utf8_scan (i + 1) bs
      else if 0xC2 \<le> b \<and> b \<le> 0xDF then
        (case bs of [] \<Rightarrow> Some (i, None)
         | c1 # r \<Rightarrow> if utf8_cont c1 then utf8_scan (i + 2) r else Some (i, Some 1))
      else if 0xE0 \<le> b \<and> b \<le> 0xEF then
        (case bs of [] \<Rightarrow> Some (i, None)
         | [c1] \<Rightarrow> if utf8_second3 b c1 then Some (i, None) else Some (i, Some 1)
         | c1 # c2 # r \<Rightarrow>
             if \<not> utf8_second3 b c1 then Some (i, Some 1)
             else if \<not> utf8_cont c2 then Some (i, Some 2)
             else utf8_scan (i + 3) r)
      else if 0xF0 \<le> b \<and> b \<le> 0xF4 then
        (case bs of [] \<Rightarrow> Some (i, None)
         | [c1] \<Rightarrow> if utf8_second4 b c1 then Some (i, None) else Some (i, Some 1)
         | [c1, c2] \<Rightarrow>
             if \<not> utf8_second4 b c1 then Some (i, Some 1)
             else if utf8_cont c2 then Some (i, None) else Some (i, Some 2)
         | c1 # c2 # c3 # r \<Rightarrow>
             if \<not> utf8_second4 b c1 then Some (i, Some 1)
             else if \<not> utf8_cont c2 then Some (i, Some 2)
             else if \<not> utf8_cont c3 then Some (i, Some 3)
             else utf8_scan (i + 4) r)
      else Some (i, Some 1))"

definition valid_str :: "string \<Rightarrow> bool" where
  "valid_str s \<longleftrightarrow> utf8_scan 0 (as_bytes_str s) = None"

fun show_nat :: "nat \<Rightarrow> string" where
  "show_nat n =
     (if n < 10 then [char_of (48 + n)] else show_nat (n div 10) @ [char_of (48 + n mod 10)])"

declare show_nat.simps [simp del]

definition show_utf8_error :: "nat \<times> nat option \<Rightarrow> string" where
  "show_utf8_error e =
     (case e of
        (i, Some n) \<Rightarrow> ''invalid utf-8 sequence of '' @ show_nat n @ '' bytes from index '' @ show_nat i
      | (i, None) \<Rightarrow> ''incomplete utf-8 byte sequence from index '' @ show_nat i)"

definition from_utf8 :: "bytes \<Rightarrow> string + string" where
  "from_utf8 bs =
     (case utf8_scan 0 bs of
        Some e \<Rightarrow> Inl (show_utf8_error e)
      | None \<Rightarrow> Inr (map char_of_byte bs))"

lemma byte_of_char_of_byte [simp]: "byte_of_char (char_of_byte b) = b"
  by (simp add: byte_of_char_def char_of_byte_def of_char_of)

lemma char_of_byte_of_char [simp]: "char_of_byte (byte_of_char c) = c"
  by (simp add: byte_of_char_def char_of_byte_def unat_of_nat)

lemma byte_of_char_inj [simp]: "byte_of_char c = byte_of_char d \<longleftrightarrow> c = d"
  by (metis char_of_byte_of_char)

lemma as_bytes_str_simps [simp, codec_simps]:
  "as_bytes_str [] = []"
  "as_bytes_str (c # s) = byte_of_char c # as_bytes_str s"
  "as_bytes_str (s @ t) = as_bytes_str s @ as_bytes_str t"
  by (simp_all add: as_bytes_str_def)

lemma length_as_bytes_str [simp]: "length (as_bytes_str s) = length s"
  by (simp add: as_bytes_str_def)

lemma map_char_of_byte_as_bytes [simp]: "map char_of_byte (as_bytes_str s) = s"
  by (simp add: as_bytes_str_def comp_def)

lemma as_bytes_str_map [simp]: "as_bytes_str (map char_of_byte bs) = bs"
  by (simp add: as_bytes_str_def comp_def)

lemma as_bytes_str_inj [simp]: "as_bytes_str s = as_bytes_str t \<longleftrightarrow> s = t"
  by (metis map_char_of_byte_as_bytes)

lemma from_utf8_as_bytes [simp, codec_simps]: "valid_str s \<Longrightarrow> from_utf8 (as_bytes_str s) = Inr s"
  by (simp add: from_utf8_def valid_str_def)

lemma from_utf8_Inr: "from_utf8 bs = Inr s \<Longrightarrow> valid_str s \<and> bs = as_bytes_str s"
  by (auto simp: from_utf8_def valid_str_def split: option.splits)

lemma utf8_scan_ascii: "\<forall>b \<in> set bs. b < 0x80 \<Longrightarrow> utf8_scan i bs = None"
  by (induction bs arbitrary: i) simp_all

definition ascii_str :: "string \<Rightarrow> bool" where
  "ascii_str s \<longleftrightarrow> (\<forall>b \<in> set (as_bytes_str s). b < 0x80)"

lemma valid_str_ascii: "ascii_str s \<Longrightarrow> valid_str s"
  unfolding ascii_str_def valid_str_def by (rule utf8_scan_ascii)

section \<open>Hash maps and ordered maps\<close>

text \<open>
  A \<open>HashMap\<close> is an association list with distinct keys: \<open>map_of\<close> is \<open>get\<close>, \<open>AList.update\<close> is
  \<open>insert\<close>, \<open>AList.delete\<close> is \<open>remove\<close>, \<open>length\<close> is \<open>len\<close>. The order of the list stands for
  Rust's unspecified iteration order. A \<open>BTreeMap\<close> keeps its keys strictly sorted.
\<close>

definition wf_map :: "('k \<times> 'v) list \<Rightarrow> bool" where
  "wf_map m \<longleftrightarrow> distinct (map fst m)"

lemma wf_map_Nil [simp]: "wf_map []"
  by (simp add: wf_map_def)

lemma wf_map_update [simp]: "wf_map m \<Longrightarrow> wf_map (AList.update k v m)"
  by (simp add: wf_map_def distinct_update)

lemma wf_map_delete [simp]: "wf_map m \<Longrightarrow> wf_map (AList.delete k m)"
  by (simp add: wf_map_def distinct_delete)

lemma map_of_update [simp]: "map_of (AList.update k v m) = (map_of m)(k \<mapsto> v)"
  by (simp add: update_conv')

lemma map_of_delete [simp]: "map_of (AList.delete k m) = (map_of m)(k := None)"
  by (simp add: delete_conv')

lemma update_fresh: "map_of m k = None \<Longrightarrow> AList.update k v m = m @ [(k, v)]"
  by (induction m) (auto split: if_splits)

lemma length_update_fresh: "map_of m k = None \<Longrightarrow> length (AList.update k v m) = Suc (length m)"
  by (simp add: update_fresh)

lemma length_delete: "wf_map m \<Longrightarrow> map_of m k = Some v \<Longrightarrow> Suc (length (AList.delete k m)) = length m"
  by (induction m) (auto simp: wf_map_def delete_idem image_iff split: if_splits)

fun bt_insert :: "'k::linorder \<Rightarrow> 'v \<Rightarrow> ('k \<times> 'v) list \<Rightarrow> ('k \<times> 'v) list" where
  "bt_insert k v [] = [(k, v)]"
| "bt_insert k v ((k', v') # m) =
     (if k = k' then (k, v) # m
      else if k < k' then (k, v) # (k', v') # m
      else (k', v') # bt_insert k v m)"

definition sorted_map :: "('k::linorder \<times> 'v) list \<Rightarrow> bool" where
  "sorted_map m \<longleftrightarrow> sorted_wrt (<) (map fst m)"

lemma map_of_bt_insert [simp]: "map_of (bt_insert k v m) = (map_of m)(k \<mapsto> v)"
  by (induction m) (auto simp: fun_eq_iff)

lemma set_fst_bt_insert: "set (map fst (bt_insert k v m)) = insert k (set (map fst m))"
  by (simp only: set_map flip: dom_map_of_conv_image_fst) simp

lemma sorted_map_bt_insert [simp]: "sorted_map m \<Longrightarrow> sorted_map (bt_insert k v m)"
proof (induction m)
  case Nil
  then show ?case by (simp add: sorted_map_def)
next
  case (Cons p m)
  obtain k' v' where p: "p = (k', v')" by (cases p)
  show ?case
  proof (cases "k' < k")
    case True
    with Cons p show ?thesis
      by (auto simp: sorted_map_def set_fst_bt_insert simp del: set_map)
  next
    case False
    with Cons.prems p show ?thesis
      by (auto simp: sorted_map_def)
  qed
qed

lemma bt_insert_last: "\<forall>k' \<in> fst ` set m. k' < k \<Longrightarrow> bt_insert k v m = m @ [(k, v)]"
  by (induction m) (auto dest: less_asym)

lemma sorted_map_Nil [simp]: "sorted_map []"
  by (simp add: sorted_map_def)

lemma sorted_map_distinct: "sorted_map m \<Longrightarrow> distinct (map fst m)"
  by (simp add: sorted_map_def strict_sorted_iff)

end
