(* ===== verification/Hashes.thy ===== *)
theory Hashes
  imports Prelude
begin

text \<open>
  Content hashes and errors (\<open>epochs-core/src/hash.rs\<close>, \<open>error.rs\<close>, \<open>branch.rs\<close>). A hash is
  an array of 32 bytes, as a subtype of byte lists. BLAKE3 is an external crate: its two entry
  points are arguments of \<open>of_bytes\<close>, and the rest of the development takes the resulting hash
  function as an argument. The theory shows that the hexadecimal printer and parser are inverse.
\<close>

section \<open>The hash type\<close>

typedef hash = "{bs :: bytes. length bs = 32}"
  morphisms as_bytes Abs_hash
  by (rule exI [of _ "replicate 32 0"]) simp

definition from_bytes :: "bytes \<Rightarrow> hash" where
  "from_bytes bs = Abs_hash (take 32 (bs @ replicate 32 0))"

definition ZERO :: hash where
  "ZERO = from_bytes (replicate 32 0)"

type_synonym hasher = "bytes \<Rightarrow> hash"

lemma length_as_bytes [simp]: "length (as_bytes h) = 32"
  using as_bytes [of h] by simp

lemma as_bytes_from_bytes_padded: "as_bytes (from_bytes bs) = take 32 (bs @ replicate 32 0)"
  by (simp add: from_bytes_def Abs_hash_inverse)

lemma as_bytes_from_bytes [simp]: "length bs = 32 \<Longrightarrow> as_bytes (from_bytes bs) = bs"
  by (simp add: as_bytes_from_bytes_padded)

lemma from_bytes_as_bytes [simp]: "from_bytes (as_bytes h) = h"
  by (simp add: from_bytes_def as_bytes_inverse)

lemma hash_eq_iff: "g = h \<longleftrightarrow> as_bytes g = as_bytes h"
  by (simp add: as_bytes_inject)

lemma from_bytes_eq_iff [simp]:
  "length bs = 32 \<Longrightarrow> length cs = 32 \<Longrightarrow> from_bytes bs = from_bytes cs \<longleftrightarrow> bs = cs"
  by (simp add: hash_eq_iff)

lemma as_bytes_ZERO [simp]: "as_bytes ZERO = replicate 32 0"
  by (simp add: ZERO_def)

lemma hash_abstype [code abstype]: "Abs_hash (as_bytes h) = h"
  by (rule as_bytes_inverse)

lemma from_bytes_code [code abstract]: "as_bytes (from_bytes bs) = take 32 (bs @ replicate 32 0)"
  by (rule as_bytes_from_bytes_padded)

instantiation hash :: equal
begin
definition equal_hash :: "hash \<Rightarrow> hash \<Rightarrow> bool" where
  "equal_hash g h \<longleftrightarrow> as_bytes g = as_bytes h"
instance by standard (simp add: equal_hash_def hash_eq_iff)
end

text \<open>The derived \<open>Ord\<close> instance compares the byte arrays lexicographically.\<close>

instantiation hash :: linorder
begin
definition less_eq_hash :: "hash \<Rightarrow> hash \<Rightarrow> bool" where
  "less_eq_hash g h \<longleftrightarrow> as_bytes g \<le> as_bytes h"
definition less_hash :: "hash \<Rightarrow> hash \<Rightarrow> bool" where
  "less_hash g h \<longleftrightarrow> as_bytes g < as_bytes h"
instance by standard (auto simp: less_eq_hash_def less_hash_def hash_eq_iff)
end

section \<open>Errors and branches\<close>

datatype StorageError =
    HashMismatch (expected: hash) (computed: hash)
  | NotFound hash
  | CrcMismatch
  | Corrupt string

datatype EpochsError =
    CommitNotFound hash
  | BranchNotFound string
  | BranchExists string
  | InvalidTarget string
  | Storage StorageError
  | Codec string
  | InvalidCommit string
  | Io string

text \<open>
  Besides returning an error, a Rust function can panic (an index out of range) or recurse without
  end; the last is the exhaustion of the fuel argument of a model's recursion.
\<close>

datatype failure = Err EpochsError | Panic | OutOfFuel

type_synonym 'a res = "failure + 'a"
type_synonym ('s, 'a) op = "('s, failure, 'a) st"

record Branch =
  branch_name :: string
  branch_target :: hash

section \<open>Hashing and hexadecimal text\<close>

definition PARALLEL_THRESHOLD :: nat where
  "PARALLEL_THRESHOLD = 16 * 1024"

definition of_bytes :: "hasher \<Rightarrow> hasher \<Rightarrow> hasher" where
  "of_bytes blake3 blake3_rayon bs =
     (if PARALLEL_THRESHOLD \<le> length bs then blake3_rayon bs else blake3 bs)"

definition hex_digit :: "nat \<Rightarrow> char" where
  "hex_digit n = char_of (if n < 10 then 48 + n else 87 + n)"

definition hex_pair :: "u8 \<Rightarrow> string" where
  "hex_pair b = [hex_digit (unat b div 16), hex_digit (unat b mod 16)]"

definition to_string :: "hash \<Rightarrow> string" where
  "to_string h = concat (map hex_pair (as_bytes h))"

definition hex_value :: "char \<Rightarrow> nat option" where
  "hex_value c =
     (let n = of_char c in
      if 48 \<le> n \<and> n \<le> 57 then Some (n - 48)
      else if 97 \<le> n \<and> n \<le> 102 then Some (n - 87)
      else if 65 \<le> n \<and> n \<le> 70 then Some (n - 55)
      else None)"

text \<open>\<open>u8::from_str_radix(_, 16)\<close> of the standard library, which also takes a leading plus sign.\<close>

fun radix16_digits :: "nat \<Rightarrow> string \<Rightarrow> string + nat" where
  "radix16_digits acc [] = Inr acc"
| "radix16_digits acc (c # cs) =
     (case hex_value c of
        None \<Rightarrow> Inl ''invalid digit found in string''
      | Some d \<Rightarrow>
          if acc * 16 + d > 255 then Inl ''number too large to fit in target type''
          else radix16_digits (acc * 16 + d) cs)"

definition u8_from_str_radix16 :: "string \<Rightarrow> string + u8" where
  "u8_from_str_radix16 s =
     map_sum id of_nat
       (if s = [] then Inl ''cannot parse integer from empty string''
        else if s = ''+'' \<or> s = ''-'' then Inl ''invalid digit found in string''
        else if hd s = CHR ''+'' then radix16_digits 0 (tl s)
        else radix16_digits 0 s)"

definition hex_chunk :: "bytes \<Rightarrow> u8 res" where
  "hex_chunk chunk =
     try_res (map_err (\<lambda>e. Err (InvalidTarget (''invalid hex encoding: '' @ e))) (from_utf8 chunk))
       (\<lambda>hex_pair. map_err (\<lambda>e. Err (InvalidTarget (''invalid hex digit: '' @ e)))
          (u8_from_str_radix16 hex_pair))"

fun hex_chunks :: "bytes \<Rightarrow> bytes res" where
  "hex_chunks [] = Inr []"
| "hex_chunks [a] = try_res (hex_chunk [a]) (\<lambda>b. Inr [b])"
| "hex_chunks (a # b # rest) =
     try_res (hex_chunk [a, b]) (\<lambda>x. try_res (hex_chunks rest) (\<lambda>xs. Inr (x # xs)))"

definition from_hex :: "string \<Rightarrow> hash res" where
  "from_hex s =
     (if length s \<noteq> 64
      then Inl (Err (InvalidTarget (''hash must be 64 hex characters, got '' @ show_nat (length s))))
      else try_res (hex_chunks (as_bytes_str s)) (\<lambda>bs. Inr (from_bytes bs)))"

section \<open>Display\<close>

definition show_storage_error :: "StorageError \<Rightarrow> string" where
  "show_storage_error e =
     (case e of
        HashMismatch x c \<Rightarrow> ''hash mismatch: expected '' @ to_string x @ '', computed '' @ to_string c
      | NotFound h \<Rightarrow> ''object not found: '' @ to_string h
      | CrcMismatch \<Rightarrow> ''crc mismatch''
      | Corrupt msg \<Rightarrow> ''corrupt record: '' @ msg)"

definition show_error :: "EpochsError \<Rightarrow> string" where
  "show_error e =
     (case e of
        CommitNotFound h \<Rightarrow> ''commit not found: '' @ to_string h
      | BranchNotFound name \<Rightarrow> ''branch not found: '' @ name
      | BranchExists name \<Rightarrow> ''branch already exists: '' @ name
      | InvalidTarget t \<Rightarrow> ''invalid checkout target: '' @ t
      | Storage s \<Rightarrow> ''storage error: '' @ show_storage_error s
      | Codec msg \<Rightarrow> ''codec error: '' @ msg
      | InvalidCommit msg \<Rightarrow> ''invalid commit: '' @ msg
      | Io msg \<Rightarrow> ''io error: '' @ msg)"

section \<open>Lemmas\<close>

lemma u8_div_mod_16: "unat (b :: u8) div 16 < 16" "unat b mod 16 < 16" "unat b div 16 * 16 + unat b mod 16 = unat b"
proof -
  show "unat b div 16 < 16"
    using unat_u8_less [of b] by (simp add: less_mult_imp_div_less del: unat_u8_less)
qed simp_all

lemma hex_value_hex_digit: "n < 16 \<Longrightarrow> hex_value (hex_digit n) = Some n"
  by (auto simp: hex_value_def hex_digit_def Let_def)

lemma hex_digit_ascii: "n < 16 \<Longrightarrow> byte_of_char (hex_digit n) < 0x80"
  by (auto simp: byte_of_char_def hex_digit_def word_less_nat_alt unat_of_nat)

lemma hex_digit_not_plus: "n < 16 \<Longrightarrow> hex_digit n \<noteq> CHR ''+''"
  using hex_value_hex_digit [of n] by (auto simp: hex_value_def)

lemma hex_chunk_hex_pair: "hex_chunk (as_bytes_str (hex_pair b)) = Inr b"
proof -
  have "ascii_str (hex_pair b)"
    using u8_div_mod_16 [of b] by (simp add: ascii_str_def hex_pair_def hex_digit_ascii)
  then have "from_utf8 (as_bytes_str (hex_pair b)) = Inr (hex_pair b)"
    by (simp add: valid_str_ascii)
  moreover have "u8_from_str_radix16 (hex_pair b) = Inr b"
    using u8_div_mod_16 [of b] unat_u8_less [of b]
    by (simp add: u8_from_str_radix16_def hex_pair_def hex_digit_not_plus hex_value_hex_digit del: unat_u8_less)
  ultimately show ?thesis
    by (simp add: hex_chunk_def)
qed

lemma hex_chunks_hex: "hex_chunks (as_bytes_str (concat (map hex_pair bs))) = Inr bs"
proof (induction bs)
  case Nil
  then show ?case by simp
next
  case (Cons b bs)
  then show ?case
    using hex_chunk_hex_pair [of b] by (simp add: hex_pair_def)
qed

lemma length_to_string [simp]: "length (to_string h) = 64"
  by (simp add: to_string_def length_concat comp_def hex_pair_def sum_list_triv)

lemma from_hex_to_string [simp]: "from_hex (to_string h) = Inr h"
proof -
  have "hex_chunks (as_bytes_str (to_string h)) = Inr (as_bytes h)"
    unfolding to_string_def by (rule hex_chunks_hex)
  then show ?thesis
    by (simp add: from_hex_def)
qed

lemma to_string_inj [simp]: "to_string g = to_string h \<longleftrightarrow> g = h"
  by (metis from_hex_to_string sum.inject(2))

section \<open>A concrete hash function\<close>

text \<open>
  The first 32 bytes of the input, padded with zeros. It instantiates the hash parameter where a
  statement about an arbitrary hash function is evaluated on a concrete input.
\<close>

definition pad_hash :: hasher where
  "pad_hash p = from_bytes (take 32 (p @ replicate 32 0))"

section \<open>Properties\<close>

text \<open>
  Printing a hash in hexadecimal and parsing it back gives the hash, so two hashes with the same
  text are equal.
\<close>

theorem hex_roundtrip: "from_hex (to_string h) = Inr h \<and> (to_string g = to_string h \<longleftrightarrow> g = h)"
  by simp

text \<open>
  The parser takes more than the documented lowercase hexadecimal: every pair may be a plus sign
  and one digit, and upper-case digits are read like lower-case ones.
\<close>

theorem from_hex_lenient:
  "from_hex (concat (replicate 32 ''+f'')) = Inr (from_bytes (replicate 32 15))
   \<and> from_hex (concat (replicate 32 ''AB'')) = from_hex (concat (replicate 32 ''ab''))"
  by code_simp

end
