(* ===== verification/Rust_Str.thy ===== *)
theory Rust_Str
  imports Hashes
begin

text \<open>
  The functions on \<open>str\<close> that the repository layer and the query language use: trimming, prefixes,
  splitting at a character and comparison without regard to ASCII case. Strings are UTF-8 byte
  sequences, so the white space that \<open>trim\<close> removes is a list of byte sequences.
\<close>

section \<open>Prefixes and splitting\<close>

definition strip_prefix :: "string \<Rightarrow> string \<Rightarrow> string option" where
  "strip_prefix s pre = (if take (length pre) s = pre then Some (drop (length pre) s) else None)"

fun split_at :: "char \<Rightarrow> string \<Rightarrow> string list" where
  "split_at c [] = [[]]"
| "split_at c (x # xs) =
     (if x = c then [] # split_at c xs
      else case split_at c xs of [] \<Rightarrow> [[x]] | p # ps \<Rightarrow> (x # p) # ps)"

definition join_with :: "string \<Rightarrow> string list \<Rightarrow> string" where
  "join_with sep parts = concat (case parts of [] \<Rightarrow> [] | p # ps \<Rightarrow> p # map ((@) sep) ps)"

lemma strip_prefix_append [simp]: "strip_prefix (pre @ s) pre = Some s"
  by (simp add: strip_prefix_def)

lemma split_at_neq_Nil [simp]: "split_at c s \<noteq> []"
  by (induction s) (auto split: list.splits)

lemma split_at_plain: "c \<notin> set s \<Longrightarrow> split_at c s = [s]"
  by (induction s) auto

lemma split_at_Cons_sep: "c \<notin> set l \<Longrightarrow> split_at c (l @ c # s) = l # split_at c s"
  by (induction l) auto

lemma split_at_parts: "p \<in> set (split_at c s) \<Longrightarrow> c \<notin> set p"
  by (induction s arbitrary: p) (auto split: if_splits list.splits)

lemma join_split: "join_with [c] (split_at c s) = s"
  by (induction s) (auto simp: join_with_def split: list.splits)

lemma split_at_inj: "split_at c s = split_at c t \<longleftrightarrow> s = t"
  by (metis join_split)

section \<open>Trimming\<close>

definition ws_encodings :: "string list" where
  "ws_encodings =
    [[CHR 0x09], [CHR 0x0A], [CHR 0x0B], [CHR 0x0C], [CHR 0x0D], [CHR 0x20], [CHR 0xC2, CHR 0x85],
     [CHR 0xC2, CHR 0xA0], [CHR 0xE1, CHR 0x9A, CHR 0x80], [CHR 0xE2, CHR 0x80, CHR 0x80],
     [CHR 0xE2, CHR 0x80, CHR 0x81], [CHR 0xE2, CHR 0x80, CHR 0x82], [CHR 0xE2, CHR 0x80, CHR 0x83],
     [CHR 0xE2, CHR 0x80, CHR 0x84], [CHR 0xE2, CHR 0x80, CHR 0x85], [CHR 0xE2, CHR 0x80, CHR 0x86],
     [CHR 0xE2, CHR 0x80, CHR 0x87], [CHR 0xE2, CHR 0x80, CHR 0x88], [CHR 0xE2, CHR 0x80, CHR 0x89],
     [CHR 0xE2, CHR 0x80, CHR 0x8A], [CHR 0xE2, CHR 0x80, CHR 0xA8], [CHR 0xE2, CHR 0x80, CHR 0xA9],
     [CHR 0xE2, CHR 0x80, CHR 0xAF], [CHR 0xE2, CHR 0x81, CHR 0x9F], [CHR 0xE3, CHR 0x80, CHR 0x80]]"

definition starts_with_any :: "string list \<Rightarrow> string \<Rightarrow> string option" where
  "starts_with_any ws s = find (\<lambda>w. w \<noteq> [] \<and> take (length w) s = w) ws"

lemma starts_with_any_length: "starts_with_any ws s = Some w \<Longrightarrow> w \<noteq> [] \<and> s \<noteq> []"
  by (auto simp: starts_with_any_def find_Some_iff)

function trim_with :: "string list \<Rightarrow> string \<Rightarrow> string" where
  "trim_with ws s =
     (case starts_with_any ws s of None \<Rightarrow> s | Some w \<Rightarrow> trim_with ws (drop (length w) s))"
  by pat_completeness auto
termination
  by (relation "measure (\<lambda>(ws, s). length s)") (auto dest: starts_with_any_length)

declare trim_with.simps [simp del]

definition trim_start :: "string \<Rightarrow> string" where
  "trim_start s = trim_with ws_encodings s"

definition trim_end :: "string \<Rightarrow> string" where
  "trim_end s = rev (trim_with (map rev ws_encodings) (rev s))"

definition trim :: "string \<Rightarrow> string" where
  "trim s = trim_end (trim_start s)"

lemma starts_with_any_None:
  "starts_with_any ws s = None \<longleftrightarrow> (\<forall>w \<in> set ws. w \<noteq> [] \<longrightarrow> take (length w) s \<noteq> w)"
  by (auto simp: starts_with_any_def find_None_iff)

lemma trim_with_id: "starts_with_any ws s = None \<Longrightarrow> trim_with ws s = s"
  by (simp add: trim_with.simps)

lemma trim_with_fixed:
  assumes "trim_with ws s = s"
  shows "starts_with_any ws s = None"
proof (rule ccontr)
  have shorter: "length (trim_with ws t) \<le> length t" for t
  proof (induction ws t rule: trim_with.induct)
    case (1 ws s)
    then show ?case
      by (subst trim_with.simps) (auto split: option.split intro: le_trans)
  qed
  assume "starts_with_any ws s \<noteq> None"
  then obtain w where w: "starts_with_any ws s = Some w" by blast
  then have "length (trim_with ws s) \<le> length (drop (length w) s)"
    using shorter [of "drop (length w) s"] by (simp add: trim_with.simps [of ws s])
  with starts_with_any_length [OF w] assms show False
    by (cases s; cases w) auto
qed

text \<open>Text that begins with a printable ASCII character is not trimmed at that end.\<close>

definition printable :: "char \<Rightarrow> bool" where
  "printable c \<longleftrightarrow> 33 \<le> (of_char c :: nat) \<and> (of_char c :: nat) \<le> 126"

lemma ws_no_printable: "w \<in> set ws_encodings \<Longrightarrow> c \<in> set w \<Longrightarrow> \<not> printable c"
  by (auto simp: ws_encodings_def printable_def)

lemma starts_printable:
  assumes "printable c" "\<And>w. w \<in> set ws \<Longrightarrow> (\<forall>c \<in> set w. \<not> printable c)" "starts_with_any ws b = None"
  shows "starts_with_any ws (b @ c # s) = None"
  unfolding starts_with_any_None
proof (intro ballI impI notI)
  fix w
  assume w: "w \<in> set ws" "w \<noteq> []" "take (length w) (b @ c # s) = w"
  show False
  proof (cases "length w \<le> length b")
    case True
    with w assms(3) show False by (simp add: starts_with_any_None)
  next
    case False
    then have "c \<in> set (take (length w) (b @ c # s))"
      by (cases "length w - length b") auto
    with w assms(1,2) show False by auto
  qed
qed

lemma starts_none_Nil: "starts_with_any ws [] = None"
  by (auto simp: starts_with_any_None)

lemma trim_start_printable: "printable c \<Longrightarrow> trim_start (c # s) = c # s"
  unfolding trim_start_def
  by (rule trim_with_id) (use starts_printable [of c ws_encodings "[]" s] ws_no_printable in
      \<open>auto simp: starts_none_Nil\<close>)

lemma trim_end_printable:
  assumes "printable c" "trim_end b = b"
  shows "trim_end (s @ c # b) = s @ c # b"
proof -
  have "trim_with (map rev ws_encodings) (rev b) = rev b"
    using assms(2) by (simp add: trim_end_def rev_swap)
  then have "starts_with_any (map rev ws_encodings) (rev b) = None"
    by (rule trim_with_fixed)
  then have "starts_with_any (map rev ws_encodings) (rev b @ c # rev s) = None"
    by (intro starts_printable assms(1)) (auto dest: ws_no_printable)
  then show ?thesis
    by (simp add: trim_end_def trim_with_id)
qed

lemma trim_end_newline: "trim_end (s @ [CHR 0x0A]) = trim_end s"
proof -
  have "starts_with_any (map rev ws_encodings) (CHR 0x0A # rev s) = Some [CHR 0x0A]"
    by (simp add: starts_with_any_def ws_encodings_def)
  then show ?thesis
    by (simp add: trim_end_def trim_with.simps [of _ "CHR 0x0A # rev s"])
qed

text \<open>A line written as \<open>c s\<close> and a newline is read back by \<open>trim\<close>.\<close>

lemma trim_line:
  assumes "printable c" "trim_end (c # s) = c # s"
  shows "trim (c # s @ [CHR 0x0A]) = c # s"
  using trim_start_printable [OF assms(1)] trim_end_newline [of "c # s"] assms(2) by (simp add: trim_def)

lemma trim_printable_line:
  assumes "s \<noteq> []" "\<forall>c \<in> set s. printable c"
  shows "trim (s @ [CHR 0x0A]) = s"
proof (cases s)
  case (Cons c cs)
  have "trim_end [] = []"
    by (simp add: trim_end_def trim_with_id starts_none_Nil)
  then have "trim_end s = s"
    using trim_end_printable [of "last s" "[]" "butlast s"] assms by (simp add: append_butlast_last_id)
  with trim_line [of c cs] Cons assms(2) show ?thesis by simp
qed (use assms in simp)

section \<open>ASCII case\<close>

definition to_ascii_lower :: "char \<Rightarrow> char" where
  "to_ascii_lower c =
     (if 65 \<le> (of_char c :: nat) \<and> (of_char c :: nat) \<le> 90 then char_of ((of_char c :: nat) + 32) else c)"

definition eq_ignore_ascii_case :: "string \<Rightarrow> string \<Rightarrow> bool" where
  "eq_ignore_ascii_case s t \<longleftrightarrow> map to_ascii_lower s = map to_ascii_lower t"

section \<open>Valid strings\<close>

text \<open>Scanning goes character by character.\<close>

lemma utf8_scan_step:
  assumes "utf8_scan i (b # bs) = None"
  shows "\<exists>cs rest. bs = cs @ rest
    \<and> (\<forall>j ys. utf8_scan j (b # cs @ ys) = utf8_scan (j + Suc (length cs)) ys)"
proof -
  note st = assms [unfolded utf8_scan.simps(2)] and step = utf8_scan.simps(2) [of _ b]
  consider "b < 0x80" | "\<not> b < 0x80" "0xC2 \<le> b \<and> b \<le> 0xDF"
    | "\<not> b < 0x80" "\<not> (0xC2 \<le> b \<and> b \<le> 0xDF)" "0xE0 \<le> b \<and> b \<le> 0xEF"
    | "\<not> b < 0x80" "\<not> (0xC2 \<le> b \<and> b \<le> 0xDF)" "\<not> (0xE0 \<le> b \<and> b \<le> 0xEF)"
    by blast
  then show ?thesis
  proof cases
    case 1
    show ?thesis
      by (rule exI [of _ "[]"], rule exI [of _ bs]) (simp add: step 1 del: utf8_scan.simps)
  next
    case 2
    then obtain c1 r1 where bs: "bs = c1 # r1" "utf8_cont c1"
      using st by (cases bs) (auto simp del: utf8_scan.simps split: if_splits)
    show ?thesis
      by (rule exI [of _ "[c1]"], rule exI [of _ r1]) (simp add: bs step 2 del: utf8_scan.simps)
  next
    case 3
    then obtain c1 c2 r where bs: "bs = c1 # c2 # r" "utf8_second3 b c1" "utf8_cont c2"
      using st by (auto simp del: utf8_scan.simps split: if_splits list.splits)
    show ?thesis
      by (rule exI [of _ "[c1, c2]"], rule exI [of _ r]) (simp add: bs step 3 eval_nat_numeral del: utf8_scan.simps)
  next
    case 4
    then obtain c1 c2 c3 r where bs: "bs = c1 # c2 # c3 # r" "utf8_second4 b c1" "utf8_cont c2" "utf8_cont c3"
      and b: "0xF0 \<le> b \<and> b \<le> 0xF4"
      using st by (auto simp del: utf8_scan.simps split: if_splits list.splits)
    show ?thesis
      by (rule exI [of _ "[c1, c2, c3]"], rule exI [of _ r]) (simp add: bs b step 4 eval_nat_numeral del: utf8_scan.simps)
  qed
qed

lemma utf8_scan_append:
  "utf8_scan i xs = None \<Longrightarrow> utf8_scan j (xs @ ys) = utf8_scan (j + length xs) ys"
proof (induction "length xs" arbitrary: xs i j rule: less_induct)
  case less
  show ?case
  proof (cases xs)
    case (Cons b bs)
    then obtain cs rest where st: "bs = cs @ rest"
      "\<And>j ys. utf8_scan j (b # cs @ ys) = utf8_scan (j + Suc (length cs)) ys"
      using utf8_scan_step less.prems by blast
    have "utf8_scan (i + Suc (length cs)) rest = None"
      using less.prems unfolding Cons st(1) st(2) .
    then have "utf8_scan (j + Suc (length cs)) (rest @ ys) = utf8_scan (j + Suc (length cs) + length rest) ys"
      using Cons st(1) by (intro less.hyps) simp_all
    then show ?thesis
      unfolding Cons st(1) append_Cons append_assoc st(2) by (simp add: ac_simps del: utf8_scan.simps)
  qed simp
qed

lemma valid_str_append: "valid_str s \<Longrightarrow> valid_str t \<Longrightarrow> valid_str (s @ t)"
  unfolding valid_str_def as_bytes_str_simps
  using utf8_scan_append [of 0 "as_bytes_str s" 0 "as_bytes_str t"]
    utf8_scan_append [of 0 "as_bytes_str t" "length (as_bytes_str s)" "[]"] by simp

end
