(* ===== verification/Fs.thy ===== *)
theory Fs
  imports Hashes
begin

text \<open>
  The part of the file system and of the standard library's buffered writer that the storage layer
  uses. A file system maps absolute paths, as lists of components, to files and directories and has a
  wall clock in milliseconds since 1970; a path is followed lexically, without links. Operations fail as on Linux when a path is
  missing or of the wrong kind; a full or failing device is not modelled here. An open file is its path:
  files are never renamed while open. Next to its contents the file system records what each file held
  when it was last synchronised, which is what a loss of power leaves.
\<close>

section \<open>File systems\<close>

type_synonym path = "string list"

datatype node = File bytes | Dir

record Fs =
  fs_nodes :: "(path \<times> node) list"
  fs_clock :: u64
  fs_synced :: "(path \<times> bytes) list"

definition ENOENT :: failure where
  "ENOENT = Err (Io ''No such file or directory (os error 2)'')"

definition ENOTDIR :: failure where
  "ENOTDIR = Err (Io ''Not a directory (os error 20)'')"

definition EISDIR :: failure where
  "EISDIR = Err (Io ''Is a directory (os error 21)'')"

definition EEXIST :: failure where
  "EEXIST = Err (Io ''File exists (os error 17)'')"

definition UnexpectedEof :: failure where
  "UnexpectedEof = Err (Io ''failed to fill whole buffer'')"

definition fs_get :: "Fs \<Rightarrow> path \<Rightarrow> node option" where
  "fs_get fs p = (if p = [] then Some Dir else map_of (fs_nodes fs) p)"

definition fs_set :: "path \<Rightarrow> node \<Rightarrow> Fs \<Rightarrow> Fs" where
  "fs_set p n fs = fs\<lparr>fs_nodes := AList.update p n (fs_nodes fs)\<rparr>"

definition fs_exists :: "Fs \<Rightarrow> path \<Rightarrow> bool" where
  "fs_exists fs p \<longleftrightarrow> fs_get fs p \<noteq> None"

text \<open>Looking up a missing path reports whether a component on the way is a file.\<close>

definition fs_missing :: "Fs \<Rightarrow> path \<Rightarrow> failure" where
  "fs_missing fs p =
     (if \<exists>n < length p. \<exists>b. fs_get fs (take n p) = Some (File b) then ENOTDIR else ENOENT)"

definition fs_read :: "path \<Rightarrow> Fs \<Rightarrow> bytes res" where
  "fs_read p fs =
     (case fs_get fs p of
        Some (File b) \<Rightarrow> Inr b
      | Some Dir \<Rightarrow> Inl EISDIR
      | None \<Rightarrow> Inl (fs_missing fs p))"

text \<open>\<open>fs::write\<close>: create or truncate.\<close>

definition fs_write :: "path \<Rightarrow> bytes \<Rightarrow> (Fs, unit) op" where
  "fs_write p b fs =
     (case fs_get fs p of
        Some (File _) \<Rightarrow> (Inr (), fs_set p (File b) fs)
      | Some Dir \<Rightarrow> (Inl EISDIR, fs)
      | None \<Rightarrow>
          if fs_get fs (butlast p) = Some Dir then (Inr (), fs_set p (File b) fs)
          else (Inl (fs_missing fs p), fs))"

text \<open>\<open>OpenOptions::new().read(true).append(true).create(true).open(path)\<close>.\<close>

definition fs_open_append :: "path \<Rightarrow> (Fs, unit) op" where
  "fs_open_append p fs =
     (case fs_get fs p of
        Some (File _) \<Rightarrow> (Inr (), fs)
      | Some Dir \<Rightarrow> (Inl EISDIR, fs)
      | None \<Rightarrow>
          if fs_get fs (butlast p) = Some Dir then (Inr (), fs_set p (File []) fs)
          else (Inl (fs_missing fs p), fs))"

text \<open>Appending through an open file.\<close>

definition fs_append :: "path \<Rightarrow> bytes \<Rightarrow> Fs \<Rightarrow> Fs" where
  "fs_append p b fs =
     (case fs_get fs p of
        Some (File c) \<Rightarrow> fs_set p (File (c @ b)) fs
      | _ \<Rightarrow> fs)"

text \<open>\<open>File::sync_data\<close> on an open file: what the file holds now is on stable storage.\<close>

definition fs_sync :: "path \<Rightarrow> Fs \<Rightarrow> Fs" where
  "fs_sync p fs =
     (case fs_get fs p of
        Some (File b) \<Rightarrow> fs\<lparr>fs_synced := AList.update p b (fs_synced fs)\<rparr>
      | _ \<Rightarrow> fs)"

definition fs_remove_file :: "path \<Rightarrow> (Fs, unit) op" where
  "fs_remove_file p fs =
     (case fs_get fs p of
        Some (File _) \<Rightarrow> (Inr (), fs\<lparr>fs_nodes := AList.delete p (fs_nodes fs)\<rparr>)
      | Some Dir \<Rightarrow> (Inl EISDIR, fs)
      | None \<Rightarrow> (Inl (fs_missing fs p), fs))"

text \<open>\<open>create_dir_all\<close>: every prefix of the path in turn.\<close>

fun create_dirs :: "path \<Rightarrow> path \<Rightarrow> (Fs, unit) op" where
  "create_dirs pre [] fs = (Inr (), fs)"
| "create_dirs pre (c # cs) fs =
     (let p = pre @ [c] in
      case fs_get fs p of
        Some Dir \<Rightarrow> create_dirs p cs fs
      | Some (File _) \<Rightarrow> (Inl (if cs = [] then EEXIST else ENOTDIR), fs)
      | None \<Rightarrow> create_dirs p cs (fs_set p Dir fs))"

definition create_dir_all :: "path \<Rightarrow> (Fs, unit) op" where
  "create_dir_all p = create_dirs [] p"

text \<open>The entries of a directory: the last components of the paths directly below it.\<close>

definition fs_read_dir :: "path \<Rightarrow> Fs \<Rightarrow> (string \<times> node) list" where
  "fs_read_dir d fs =
     map (\<lambda>(p, n). (last p, n)) (filter (\<lambda>(p, n). p \<noteq> [] \<and> butlast p = d) (fs_nodes fs))"

text \<open>
  What a loss of power may leave. Directories survive. A file that was never synchronised can be gone
  or hold anything. A file that was synchronised survives and has not grown; if it has only been
  appended to since, all that it held then is still there, and what follows may be lost or damaged.
  (The program synchronises only files it appends to and never removes.)
\<close>

definition power_loss :: "Fs \<Rightarrow> Fs \<Rightarrow> bool" where
  "power_loss fs fs' \<longleftrightarrow>
     (\<forall>p. case fs_get fs p of
        None \<Rightarrow> fs_get fs' p = None
      | Some Dir \<Rightarrow> fs_get fs' p = Some Dir
      | Some (File b) \<Rightarrow>
          (case map_of (fs_synced fs) p of
             None \<Rightarrow> fs_get fs' p \<noteq> Some Dir
           | Some d \<Rightarrow> \<exists>b'. fs_get fs' p = Some (File b') \<and> length b' \<le> length b
               \<and> (take (length d) b = d \<longrightarrow> take (length d) b' = d)))"

section \<open>Buffered writers\<close>

record BufWriter =
  bw_path :: path
  bw_cap :: nat
  bw_buf :: bytes

definition bw_with_capacity :: "nat \<Rightarrow> path \<Rightarrow> BufWriter" where
  "bw_with_capacity cap p = \<lparr>bw_path = p, bw_cap = cap, bw_buf = []\<rparr>"

definition bw_flush :: "BufWriter \<times> Fs \<Rightarrow> BufWriter \<times> Fs" where
  "bw_flush = (\<lambda>(w, fs). (w\<lparr>bw_buf := []\<rparr>, fs_append (bw_path w) (bw_buf w) fs))"

text \<open>
  \<open>write_all\<close> buffers what fits, empties the buffer when the data do not fit into the rest of it, and
  passes data of the buffer's size or more straight to the file.
\<close>

definition bw_write_all :: "bytes \<Rightarrow> BufWriter \<times> Fs \<Rightarrow> BufWriter \<times> Fs" where
  "bw_write_all b ws =
     (let spare = bw_cap (fst ws) - length (bw_buf (fst ws)) in
      if length b < spare then ((fst ws)\<lparr>bw_buf := bw_buf (fst ws) @ b\<rparr>, snd ws)
      else
        (let (w, fs) = (if length b > spare then bw_flush ws else ws) in
         if length b \<ge> bw_cap w then (w, fs_append (bw_path w) b fs)
         else (w\<lparr>bw_buf := bw_buf w @ b\<rparr>, fs)))"

section \<open>Files after operations\<close>

definition fs_ok :: "Fs \<Rightarrow> bool" where
  "fs_ok fs \<longleftrightarrow> wf_map (fs_nodes fs)"

lemma fs_ok_set [simp]: "fs_ok fs \<Longrightarrow> fs_ok (fs_set p n fs)"
  by (simp add: fs_ok_def fs_set_def wf_map_def distinct_update)

lemma fs_get_set: "p \<noteq> [] \<Longrightarrow> fs_get (fs_set p n fs) q = (if q = p then Some n else fs_get fs q)"
  by (auto simp: fs_get_def fs_set_def map_of_update)

lemma fs_clock_set [simp]: "fs_clock (fs_set p n fs) = fs_clock fs"
  by (simp add: fs_set_def)

lemma fs_ok_append [simp]: "fs_ok fs \<Longrightarrow> fs_ok (fs_append p b fs)"
  by (simp add: fs_append_def split: option.splits node.splits)

lemma fs_get_append:
  "fs_get (fs_append p b fs) q =
     (case fs_get fs q of Some (File c) \<Rightarrow> Some (File (if q = p then c @ b else c)) | n \<Rightarrow> n)"
proof (cases "p = []")
  case True
  then show ?thesis
    by (auto simp: fs_append_def fs_get_def split: option.splits node.splits)
next
  case False
  then show ?thesis
    by (auto simp: fs_append_def fs_get_set split: option.splits node.splits)
qed

lemma fs_sync_simps [simp]:
  "fs_nodes (fs_sync p fs) = fs_nodes fs" "fs_clock (fs_sync p fs) = fs_clock fs"
  "fs_get (fs_sync p fs) q = fs_get fs q" "fs_exists (fs_sync p fs) q = fs_exists fs q"
  by (simp_all add: fs_sync_def fs_get_def fs_exists_def split: option.split node.split)

lemma fs_synced_simps [simp]:
  "fs_synced (fs_set p n fs) = fs_synced fs" "fs_synced (fs_append p b fs) = fs_synced fs"
  by (simp_all add: fs_set_def fs_append_def split: option.split node.split)

lemma fs_append_Nil: "fs_get fs p = Some (File c) \<Longrightarrow> fs_get (fs_append p [] fs) q = fs_get fs q"
  by (auto simp: fs_get_append split: option.splits node.splits)

section \<open>What a buffered file holds\<close>

definition bw_view :: "BufWriter \<times> Fs \<Rightarrow> bytes option" where
  "bw_view ws =
     (case fs_get (snd ws) (bw_path (fst ws)) of
        Some (File c) \<Rightarrow> Some (c @ bw_buf (fst ws))
      | _ \<Rightarrow> None)"

lemma bw_flush_simps [simp]:
  "bw_path (fst (bw_flush ws)) = bw_path (fst ws)" "bw_cap (fst (bw_flush ws)) = bw_cap (fst ws)"
  "bw_buf (fst (bw_flush ws)) = []" "fs_clock (snd (bw_flush ws)) = fs_clock (snd ws)"
  by (simp_all add: bw_flush_def fs_append_def split: prod.splits option.splits node.splits)

lemma bw_write_all_simps [simp]:
  "bw_path (fst (bw_write_all b ws)) = bw_path (fst ws)" "bw_cap (fst (bw_write_all b ws)) = bw_cap (fst ws)"
  by (simp_all add: bw_write_all_def bw_flush_def Let_def split: prod.splits)

lemma bw_flush_view [simp]: "bw_view (bw_flush ws) = bw_view ws"
  by (auto simp: bw_view_def bw_flush_def fs_get_append split: option.splits node.splits prod.splits)

lemma bw_write_all_view: "bw_view ws = Some v \<Longrightarrow> bw_view (bw_write_all b ws) = Some (v @ b)"
  by (cases ws; cases "bw_buf (fst ws)"; cases "bw_cap (fst ws)")
    (auto simp: bw_write_all_def bw_view_def bw_flush_def fs_get_append Let_def
      split: option.splits node.splits)

lemma bw_other_file:
  assumes "q \<noteq> bw_path (fst ws)"
  shows "fs_get (snd (bw_flush ws)) q = fs_get (snd ws) q"
    and "fs_get (snd (bw_write_all b ws)) q = fs_get (snd ws) q"
  using assms
  by (cases ws; auto simp: bw_write_all_def bw_flush_def fs_get_append Let_def
      split: option.splits node.splits)+

lemma bw_fs_ok:
  assumes "fs_ok (snd ws)"
  shows "fs_ok (snd (bw_flush ws))" "fs_ok (snd (bw_write_all b ws))"
  using assms by (cases ws; auto simp: bw_write_all_def bw_flush_def Let_def)+

text \<open>A write smaller than the free part of the buffer does not reach the file.\<close>

lemma bw_write_all_buffered:
  "length b < bw_cap (fst ws) - length (bw_buf (fst ws)) \<Longrightarrow> snd (bw_write_all b ws) = snd ws"
  by (simp add: bw_write_all_def)

lemma bw_write_all_file:
  assumes "fs_get (snd ws) (bw_path (fst ws)) = Some (File c)" "bw_write_all b ws = (w', fs')"
  shows "\<exists>x. fs_get fs' (bw_path (fst ws)) = Some (File (c @ x)) \<and> x @ bw_buf w' = bw_buf (fst ws) @ b"
  using assms
  by (cases ws; cases "bw_buf (fst ws)"; cases "bw_cap (fst ws)")
    (auto simp: bw_write_all_def bw_flush_def fs_get_append Let_def split: if_splits)

lemma bw_write_all_exists:
  "bw_write_all b ws = (w', fs') \<Longrightarrow> fs_exists fs' q = fs_exists (snd ws) q"
  "bw_write_all b ws = (w', fs') \<Longrightarrow> fs_get (snd ws) q = Some Dir \<Longrightarrow> fs_get fs' q = Some Dir"
  by (cases ws; auto simp: bw_write_all_def bw_flush_def fs_exists_def fs_get_append Let_def
      split: if_splits option.splits node.splits)+

lemma bw_synced [simp]:
  "fs_synced (snd (bw_flush ws)) = fs_synced (snd ws)" "fs_synced (snd (bw_write_all b ws)) = fs_synced (snd ws)"
  by (cases ws; simp add: bw_write_all_def bw_flush_def Let_def)+

section \<open>Synchronised files\<close>

definition file_synced :: "Fs \<Rightarrow> path \<Rightarrow> bool" where
  "file_synced fs p \<longleftrightarrow> (\<exists>b. fs_get fs p = Some (File b) \<and> map_of (fs_synced fs) p = Some b)"

lemma file_synced_cong:
  "fs_get fs' p = fs_get fs p \<Longrightarrow> fs_synced fs' = fs_synced fs \<Longrightarrow> file_synced fs' p \<longleftrightarrow> file_synced fs p"
  by (simp add: file_synced_def)

lemma file_synced_sync: "fs_get fs p = Some (File b) \<Longrightarrow> file_synced (fs_sync p fs) p"
  by (simp add: file_synced_def fs_sync_def fs_get_def map_of_update split: if_splits)

lemma file_synced_sync_other: "file_synced fs q \<Longrightarrow> file_synced (fs_sync p fs) q"
  by (auto simp: file_synced_def fs_sync_def fs_get_def map_of_update split: option.split node.split if_splits)

text \<open>A synchronised file survives the loss of power as it is.\<close>

lemma power_loss_synced:
  assumes "power_loss fs fs'" "file_synced fs p"
  shows "fs_get fs' p = fs_get fs p"
proof -
  from assms(2) obtain b where b: "fs_get fs p = Some (File b)" "map_of (fs_synced fs) p = Some b"
    by (auto simp: file_synced_def)
  from assms(1) [unfolded power_loss_def, rule_format, of p] b
  obtain b' where "fs_get fs' p = Some (File b')" "length b' \<le> length b" "take (length b) b' = b"
    by auto
  with b show ?thesis by simp
qed

lemma power_loss_Dir: "power_loss fs fs' \<Longrightarrow> fs_get fs p = Some Dir \<Longrightarrow> fs_get fs' p = Some Dir"
  unfolding power_loss_def by (auto dest: spec [of _ p])

lemma power_loss_exists: "power_loss fs fs' \<Longrightarrow> fs_exists fs' p \<Longrightarrow> fs_exists fs p"
  unfolding power_loss_def fs_exists_def by (auto dest: spec [of _ p] split: option.splits node.splits)

text \<open>A file that was never synchronised can vanish.\<close>

lemma power_loss_delete:
  assumes "fs_get fs p = Some (File b)" "map_of (fs_synced fs) p = None"
  shows "power_loss fs (fs\<lparr>fs_nodes := AList.delete p (fs_nodes fs)\<rparr>)"
proof -
  have "fs_get (fs\<lparr>fs_nodes := AList.delete p (fs_nodes fs)\<rparr>) q = (if q = p then None else fs_get fs q)" for q
    using assms(1) by (auto simp: fs_get_def map_of_delete split: if_splits)
  with assms show ?thesis
    by (auto simp: power_loss_def split: option.split node.split)
qed

lemma power_loss_refl [simp]: "power_loss fs fs"
  by (auto simp: power_loss_def split: option.split node.split)

end
