(* ===== verification/Cache.thy ===== *)
theory Cache
  imports Prelude
begin

text \<open>
  The bounded map of \<open>epochs-core/src/cache.rs\<close>: a hash map with an insertion-order queue. The
  theory refines it to a list of entries in insertion order, and states what the stores rely on
  as the locale \<open>cache\<close>: an entry that is found is one that was put, so a fact that holds of every
  entry put holds of every entry found.
\<close>

section \<open>The code\<close>

record ('k, 'v) LruMap =
  lru_map :: "('k \<times> 'v) list"
  lru_order :: "'k list"
  lru_cap :: nat

definition lru_new :: "nat \<Rightarrow> ('k, 'v) LruMap" where
  "lru_new cap = \<lparr>lru_map = [], lru_order = [], lru_cap = max cap 1\<rparr>"

definition lru_get :: "('k, 'v) LruMap \<Rightarrow> 'k \<Rightarrow> 'v option" where
  "lru_get c key = map_of (lru_map c) key"

text \<open>The eviction loop: pop the queue and remove the popped key while the map is full.\<close>

fun lru_evict :: "nat \<Rightarrow> ('k \<times> 'v) list \<Rightarrow> 'k list \<Rightarrow> ('k \<times> 'v) list \<times> 'k list" where
  "lru_evict cap m [] = (m, [])"
| "lru_evict cap m (old # order) =
     (if cap \<le> length m then lru_evict cap (AList.delete old m) order else (m, old # order))"

definition lru_insert :: "'k \<Rightarrow> 'v \<Rightarrow> ('k, 'v) LruMap \<Rightarrow> ('k, 'v) LruMap" where
  "lru_insert key value c =
     (if map_of (lru_map c) key \<noteq> None
      then c\<lparr>lru_map := AList.update key value (lru_map c)\<rparr>
      else
        let (m, order) = lru_evict (lru_cap c) (lru_map c) (lru_order c)
        in c\<lparr>lru_map := AList.update key value m, lru_order := order @ [key]\<rparr>)"

definition lru_len :: "('k, 'v) LruMap \<Rightarrow> nat" where
  "lru_len c = length (lru_map c)"

definition lru_is_empty :: "('k, 'v) LruMap \<Rightarrow> bool" where
  "lru_is_empty c \<longleftrightarrow> lru_map c = []"

definition lru_clear :: "('k, 'v) LruMap \<Rightarrow> ('k, 'v) LruMap" where
  "lru_clear c = c\<lparr>lru_map := [], lru_order := []\<rparr>"

section \<open>Invariant and abstract view\<close>

definition lru_ok :: "('k, 'v) LruMap \<Rightarrow> bool" where
  "lru_ok c \<longleftrightarrow>
     wf_map (lru_map c) \<and> distinct (lru_order c) \<and> set (lru_order c) = fst ` set (lru_map c)
     \<and> length (lru_map c) \<le> lru_cap c \<and> 1 \<le> lru_cap c"

definition lru_abs :: "('k, 'v) LruMap \<Rightarrow> ('k \<times> 'v) list" where
  "lru_abs c = map (\<lambda>k. (k, the (map_of (lru_map c) k))) (lru_order c)"

text \<open>The specification: entries in insertion order, at most \<open>cap\<close> of them.\<close>

definition spec_insert :: "nat \<Rightarrow> 'k \<Rightarrow> 'v \<Rightarrow> ('k \<times> 'v) list \<Rightarrow> ('k \<times> 'v) list" where
  "spec_insert cap k v es =
     (if k \<in> fst ` set es then map (\<lambda>(k', v'). (k', if k' = k then v else v')) es
      else drop (length es + 1 - cap) es @ [(k, v)])"

lemma lru_ok_new: "lru_ok (lru_new cap)"
  by (simp add: lru_ok_def lru_new_def)

lemma lru_ok_clear: "lru_ok c \<Longrightarrow> lru_ok (lru_clear c)"
  by (simp add: lru_ok_def lru_clear_def)

lemma lru_ok_length: "lru_ok c \<Longrightarrow> length (lru_order c) = length (lru_map c)"
  unfolding lru_ok_def wf_map_def
  by (metis distinct_card length_map list.set_map)

lemma delete_key_absent: "map_of m k = None \<Longrightarrow> AList.delete k m = m"
  by (simp add: delete_idem map_of_eq_None_iff)

lemma lru_evict_spec:
  assumes "wf_map m" "distinct order" "set order = fst ` set m" "length order = length m" "1 \<le> cap"
  shows "\<exists>dropped. order = dropped @ snd (lru_evict cap m order)
     \<and> length dropped = length m + 1 - cap
     \<and> wf_map (fst (lru_evict cap m order))
     \<and> set (snd (lru_evict cap m order)) = fst ` set (fst (lru_evict cap m order))
     \<and> length (fst (lru_evict cap m order)) = length m - length dropped
     \<and> map_of (fst (lru_evict cap m order)) = (\<lambda>k. if k \<in> set dropped then None else map_of m k)"
  using assms
proof (induction cap m order rule: lru_evict.induct)
  case (1 cap m)
  then show ?case by (intro exI [of _ "[]"]) simp
next
  case (2 cap m old order)
  show ?case
  proof (cases "cap \<le> length m")
    case False
    then show ?thesis
      using 2 by (intro exI [of _ "[]"]) (auto simp: fun_eq_iff)
  next
    case True
    let ?m = "AList.delete old m"
    have "old \<in> fst ` set m"
      using 2 by (metis list.set_intros(1))
    then obtain v where "map_of m old = Some v"
      by (metis domD dom_map_of_conv_image_fst)
    then have len: "Suc (length ?m) = length m"
      using 2 by (simp add: length_delete)
    have "fst ` set ?m = fst ` set m - {old}"
      by (metis delete_keys dom_map_of_conv_image_fst list.set_map map_of_delete dom_fun_upd)
    then have "set order = fst ` set ?m"
      using 2 by (metis Diff_insert_absorb distinct.simps(2) list.simps(15))
    with True 2 len obtain dropped where
      "order = dropped @ snd (lru_evict cap ?m order)"
      "length dropped = length ?m + 1 - cap"
      "wf_map (fst (lru_evict cap ?m order))"
      "set (snd (lru_evict cap ?m order)) = fst ` set (fst (lru_evict cap ?m order))"
      "length (fst (lru_evict cap ?m order)) = length ?m - length dropped"
      "map_of (fst (lru_evict cap ?m order)) = (\<lambda>k. if k \<in> set dropped then None else map_of ?m k)"
      by auto
    then show ?thesis
      using True len by (intro exI [of _ "old # dropped"]) (auto simp: fun_eq_iff)
  qed
qed

text \<open>What one insertion does, on each of its two branches.\<close>

lemma lru_insert_hit:
  assumes "lru_ok c" "map_of (lru_map c) k \<noteq> None"
  shows "lru_ok (lru_insert k v c)" "lru_map (lru_insert k v c) = AList.update k v (lru_map c)"
    "lru_order (lru_insert k v c) = lru_order c" "lru_cap (lru_insert k v c) = lru_cap c"
proof -
  have k: "k \<in> fst ` set (lru_map c)"
    using assms(2) by (simp add: map_of_eq_None_iff)
  then have "fst ` set (AList.update k v (lru_map c)) = fst ` set (lru_map c)"
    by (simp add: image_set update_keys del: set_map)
  moreover have "length (AList.update k v (lru_map c)) = length (lru_map c)"
    using k by (metis update_keys length_map list.set_map)
  ultimately show "lru_ok (lru_insert k v c)"
    using assms by (auto simp: lru_insert_def lru_ok_def)
qed (use assms in \<open>auto simp: lru_insert_def\<close>)

lemma lru_insert_miss:
  assumes "lru_ok c" "map_of (lru_map c) k = None"
  obtains dropped kept where "lru_order c = dropped @ kept"
    "length dropped = length (lru_order c) + 1 - lru_cap c"
    "lru_order (lru_insert k v c) = kept @ [k]"
    "map_of (lru_map (lru_insert k v c)) =
       (\<lambda>x. if x \<in> set dropped then None else map_of (lru_map c) x)(k \<mapsto> v)"
    "lru_cap (lru_insert k v c) = lru_cap c" "lru_ok (lru_insert k v c)"
proof -
  define ev where "ev = lru_evict (lru_cap c) (lru_map c) (lru_order c)"
  have len: "length (lru_order c) = length (lru_map c)"
    using assms(1) by (rule lru_ok_length)
  obtain dropped where d: "lru_order c = dropped @ snd ev"
    "length dropped = length (lru_map c) + 1 - lru_cap c" "wf_map (fst ev)"
    "set (snd ev) = fst ` set (fst ev)" "length (fst ev) = length (lru_map c) - length dropped"
    "map_of (fst ev) = (\<lambda>x. if x \<in> set dropped then None else map_of (lru_map c) x)"
    using lru_evict_spec [of "lru_map c" "lru_order c" "lru_cap c"] assms(1) len
    unfolding ev_def lru_ok_def by metis
  have ins: "lru_insert k v c = c\<lparr>lru_map := AList.update k v (fst ev), lru_order := snd ev @ [k]\<rparr>"
    using assms(2) by (simp add: lru_insert_def ev_def split: prod.splits)
  have k: "k \<notin> fst ` set (lru_map c)"
    using assms(2) by (simp add: map_of_eq_None_iff)
  then have k_ord: "k \<notin> set (lru_order c)"
    using assms(1) by (simp add: lru_ok_def)
  have none: "map_of (fst ev) k = None"
    using d(6) assms(2) by simp
  have "fst ` set (AList.update k v (fst ev)) = insert k (fst ` set (fst ev))"
    using none by (simp add: update_fresh)
  moreover have "length (AList.update k v (fst ev)) \<le> lru_cap c"
    using none d(2,5) assms(1) by (auto simp: length_update_fresh lru_ok_def)
  ultimately have "lru_ok (lru_insert k v c)"
    using d(1,3,4) k_ord assms(1) by (auto simp: lru_ok_def ins)
  with d ins len show thesis
    by (intro that [OF d(1)]) simp_all
qed

lemma lru_ok_insert: "lru_ok c \<Longrightarrow> lru_ok (lru_insert k v c)"
proof (cases "map_of (lru_map c) k = None")
  case True
  assume "lru_ok c"
  then show ?thesis
    using True by (rule lru_insert_miss)
qed (rule lru_insert_hit)

lemma lru_get_insert_same:
  assumes "lru_ok c"
  shows "lru_get (lru_insert k v c) k = Some v"
proof (cases "map_of (lru_map c) k = None")
  case True
  show ?thesis
    by (rule lru_insert_miss [OF assms True, of v]) (simp add: lru_get_def)
next
  case False
  with assms show ?thesis
    by (simp add: lru_get_def lru_insert_hit)
qed

lemma lru_get_insert_other:
  assumes "lru_ok c" "lru_get (lru_insert k v c) k' = Some v'" "k' \<noteq> k"
  shows "lru_get c k' = Some v'"
proof (cases "map_of (lru_map c) k = None")
  case True
  show ?thesis
    by (rule lru_insert_miss [OF assms(1) True, of v])
      (use assms(2,3) in \<open>auto simp: lru_get_def split: if_splits\<close>)
next
  case False
  with assms show ?thesis
    by (auto simp: lru_get_def lru_insert_hit)
qed

lemma lru_get_new [simp]: "lru_get (lru_new cap) k = None"
  by (simp add: lru_get_def lru_new_def)

lemma lru_abs_insert:
  assumes "lru_ok c"
  shows "lru_abs (lru_insert k v c) = spec_insert (lru_cap c) k v (lru_abs c)"
proof -
  have "fst ` set (lru_abs c) = set (lru_order c)"
    by (simp add: lru_abs_def image_image)
  then have keys: "fst ` set (lru_abs c) = fst ` set (lru_map c)"
    using assms by (simp add: lru_ok_def)
  show ?thesis
  proof (cases "map_of (lru_map c) k = None")
    case False
    then have "k \<in> fst ` set (lru_abs c)"
      using keys by (simp add: map_of_eq_None_iff)
    then have "spec_insert (lru_cap c) k v (lru_abs c) =
        map (\<lambda>x. (x, if x = k then v else the (map_of (lru_map c) x))) (lru_order c)"
      by (simp add: spec_insert_def) (simp add: lru_abs_def)
    also have "\<dots> = lru_abs (lru_insert k v c)"
      using False assms by (simp add: lru_abs_def lru_insert_hit)
    finally show ?thesis by simp
  next
    case True
    then have k: "k \<notin> fst ` set (lru_abs c)"
      using keys by (simp add: map_of_eq_None_iff)
    obtain dropped kept where d: "lru_order c = dropped @ kept"
      "length dropped = length (lru_order c) + 1 - lru_cap c"
      "lru_order (lru_insert k v c) = kept @ [k]"
      "map_of (lru_map (lru_insert k v c)) =
         (\<lambda>x. if x \<in> set dropped then None else map_of (lru_map c) x)(k \<mapsto> v)"
      by (rule lru_insert_miss [OF assms True])
    have dist: "distinct (dropped @ kept)" "k \<notin> set kept"
      using assms d(1) True by (auto simp: lru_ok_def map_of_eq_None_iff)
    have "length (lru_abs c) + 1 - lru_cap c = length dropped"
      by (simp only: lru_abs_def length_map d(2))
    then have "drop (length (lru_abs c) + 1 - lru_cap c) (lru_abs c) =
        map (\<lambda>x. (x, the (map_of (lru_map c) x))) kept"
      by (simp only: lru_abs_def d(1)) simp
    moreover have "\<forall>x \<in> set kept. x \<notin> set dropped \<and> x \<noteq> k"
      using dist by auto
    then have "lru_abs (lru_insert k v c) =
        map (\<lambda>x. (x, the (map_of (lru_map c) x))) kept @ [(k, v)]"
      unfolding lru_abs_def d(3,4) by simp
    ultimately show ?thesis
      using k by (simp only: spec_insert_def if_False)
  qed
qed

section \<open>The contract the stores rely on\<close>

locale cache =
  fixes get :: "'c \<Rightarrow> 'k \<Rightarrow> 'v option"
    and ins :: "'k \<Rightarrow> 'v \<Rightarrow> 'c \<Rightarrow> 'c"
    and invar :: "'c \<Rightarrow> bool"
  assumes get_ins_same: "invar c \<Longrightarrow> get (ins k v c) k = Some v"
    and get_ins_other: "invar c \<Longrightarrow> get (ins k v c) k' = Some v' \<Longrightarrow> k' \<noteq> k \<Longrightarrow> get c k' = Some v'"
    and invar_ins: "invar c \<Longrightarrow> invar (ins k v c)"
begin

lemma coherent_ins:
  assumes "invar c" "\<And>k' v'. get c k' = Some v' \<Longrightarrow> P k' v'" "P k v"
    and "get (ins k v c) k' = Some v'"
  shows "P k' v'"
  using assms by (metis get_ins_other get_ins_same option.inject)

lemma coherent_fold:
  assumes "invar c" "\<And>k' v'. get c k' = Some v' \<Longrightarrow> P k' v'" "\<forall>(k, v) \<in> set kvs. P k v"
    and "get (fold (\<lambda>(k, v). ins k v) kvs c) k' = Some v'"
  shows "P k' v'"
  using assms
proof (induction kvs arbitrary: c)
  case Nil
  then show ?case by simp
next
  case (Cons p kvs)
  obtain k v where p: "p = (k, v)" by (cases p)
  from Cons.prems p have "P k v" "\<forall>(k, v) \<in> set kvs. P k v"
    and fold: "get (fold (\<lambda>(k, v). ins k v) kvs (ins k v c)) k' = Some v'"
    by auto
  moreover have "P x y" if "get (ins k v c) x = Some y" for x y
    using Cons.prems(1,2) \<open>P k v\<close> that by (rule coherent_ins)
  ultimately show ?case
    using Cons.IH invar_ins [OF Cons.prems(1)] by blast
qed

end

interpretation lru: cache lru_get lru_insert lru_ok
  by unfold_locales (auto intro: lru_get_insert_same lru_get_insert_other lru_ok_insert)

section \<open>Properties\<close>

text \<open>
  C40: the map with an eviction queue implements a bounded insertion-ordered list: updating a present
  key keeps its place, a new key goes to the end, and the oldest entries go when the capacity is
  exceeded. (A lookup does not move an entry: the order is insertion order.)
\<close>

theorem lru_refines_list:
  assumes "lru_ok c"
  shows "lru_ok (lru_insert k v c)
    \<and> lru_abs (lru_insert k v c) = spec_insert (lru_cap c) k v (lru_abs c)
    \<and> lru_get (lru_insert k v c) k = Some v"
  using lru_ok_insert [OF assms] lru_abs_insert [OF assms] lru_get_insert_same [OF assms] by simp

theorem lru_refines_list_witness:
  "let c = lru_new 2 :: (nat, bool) LruMap in
     lru_ok (lru_insert 1 True c) \<and> lru_abs (lru_insert 1 True c) = spec_insert (lru_cap c) 1 True (lru_abs c)
     \<and> lru_get (lru_insert 1 True c) 1 = Some True"
  unfolding Let_def by (rule lru_refines_list [OF lru_ok_new])

end
