(* ===== verification/Codec.thy ===== *)
theory Codec
  imports Hashes
begin

text \<open>
  The little-endian binary codec (\<open>epochs-core/src/codec\<close>): the append-only encoder, the decoder
  cursor and the thread-local encoder pool. The contract between a writer and its reader is the
  locale \<open>codec\<close>; it gives the round trip of counted sequences once, and every fixed-width field
  of the format interprets it.
\<close>

section \<open>Encoder\<close>

record ByteEncoder =
  enc_buf :: bytes

definition enc_new :: ByteEncoder where
  "enc_new = \<lparr>enc_buf = []\<rparr>"

text \<open>The capacity hint of \<open>with_capacity\<close> has no effect on the contents.\<close>

definition enc_with_capacity :: "nat \<Rightarrow> ByteEncoder" where
  "enc_with_capacity cap = \<lparr>enc_buf = []\<rparr>"

definition enc_clear :: "ByteEncoder \<Rightarrow> ByteEncoder" where
  "enc_clear e = e\<lparr>enc_buf := []\<rparr>"

definition write_bytes :: "bytes \<Rightarrow> ByteEncoder \<Rightarrow> ByteEncoder" where
  "write_bytes bs e = e\<lparr>enc_buf := enc_buf e @ bs\<rparr>"

definition write_u8 :: "u8 \<Rightarrow> ByteEncoder \<Rightarrow> ByteEncoder" where
  "write_u8 v e = e\<lparr>enc_buf := enc_buf e @ [v]\<rparr>"

definition write_u16 :: "u16 \<Rightarrow> ByteEncoder \<Rightarrow> ByteEncoder" where
  "write_u16 v e = e\<lparr>enc_buf := enc_buf e @ le_nat 2 (unat v)\<rparr>"

definition write_u32 :: "u32 \<Rightarrow> ByteEncoder \<Rightarrow> ByteEncoder" where
  "write_u32 v e = e\<lparr>enc_buf := enc_buf e @ le_nat 4 (unat v)\<rparr>"

definition write_u48 :: "u64 \<Rightarrow> ByteEncoder \<Rightarrow> ByteEncoder" where
  "write_u48 v e = e\<lparr>enc_buf := enc_buf e @ take 6 (le_nat 8 (unat v))\<rparr>"

definition write_u64 :: "u64 \<Rightarrow> ByteEncoder \<Rightarrow> ByteEncoder" where
  "write_u64 v e = e\<lparr>enc_buf := enc_buf e @ le_nat 8 (unat v)\<rparr>"

definition write_hash :: "hash \<Rightarrow> ByteEncoder \<Rightarrow> ByteEncoder" where
  "write_hash h e = e\<lparr>enc_buf := enc_buf e @ as_bytes h\<rparr>"

section \<open>Encoder pool\<close>

text \<open>
  The thread-local pool is an explicit stack of encoders. \<open>encode_with\<close> takes an encoder, runs the
  writer, moves the bytes out and returns the encoder; a pool of length \<open>POOL_CAP\<close> drops it.
\<close>

type_synonym encoder_pool = "ByteEncoder list"

definition POOL_CAP :: nat where
  "POOL_CAP = 32"

definition ENC_BUF_HINT :: nat where
  "ENC_BUF_HINT = 256"

definition take_encoder :: "encoder_pool \<Rightarrow> ByteEncoder \<times> encoder_pool" where
  "take_encoder pool =
     (case pool of
        [] \<Rightarrow> (enc_clear (enc_with_capacity ENC_BUF_HINT), [])
      | e # rest \<Rightarrow> (enc_clear e, rest))"

definition put_encoder :: "ByteEncoder \<Rightarrow> encoder_pool \<Rightarrow> encoder_pool" where
  "put_encoder e pool = (if length pool < POOL_CAP then enc_clear e # pool else pool)"

definition encode_with :: "(ByteEncoder \<Rightarrow> ByteEncoder) \<Rightarrow> encoder_pool \<Rightarrow> bytes \<times> encoder_pool" where
  "encode_with f pool =
     (let (e, pool) = take_encoder pool; e = f e; out = enc_buf e
      in (out, put_encoder (e\<lparr>enc_buf := []\<rparr>) pool))"

text \<open>A sequence of writes, in program order, and the bytes a writer leaves in an empty encoder.\<close>

definition writes :: "(ByteEncoder \<Rightarrow> ByteEncoder) list \<Rightarrow> ByteEncoder \<Rightarrow> ByteEncoder" where
  "writes ws e = fold (\<lambda>w e. w e) ws e"

definition encoded :: "(ByteEncoder \<Rightarrow> ByteEncoder) \<Rightarrow> bytes" where
  "encoded f = enc_buf (f enc_new)"

section \<open>Decoder\<close>

record ByteDecoder =
  dec_buf :: bytes
  dec_pos :: nat

definition dec_new :: "bytes \<Rightarrow> ByteDecoder" where
  "dec_new bs = \<lparr>dec_buf = bs, dec_pos = 0\<rparr>"

definition position :: "ByteDecoder \<Rightarrow> nat" where
  "position d = dec_pos d"

definition remaining :: "ByteDecoder \<Rightarrow> nat" where
  "remaining d = length (dec_buf d) - dec_pos d"

definition read_slice :: "nat \<Rightarrow> ByteDecoder \<Rightarrow> (bytes \<times> ByteDecoder) res" where
  "read_slice len d =
     (if dec_pos d + len > length (dec_buf d)
      then Inl (Err (Codec (''unexpected EOF: need '' @ show_nat len @ '' bytes, have ''
                 @ show_nat (length (dec_buf d) - dec_pos d))))
      else Inr (take len (drop (dec_pos d) (dec_buf d)), d\<lparr>dec_pos := dec_pos d + len\<rparr>))"

definition read_u8 :: "ByteDecoder \<Rightarrow> (u8 \<times> ByteDecoder) res" where
  "read_u8 d = try_res (read_slice 1 d) (\<lambda>(s, d). Inr (s ! 0, d))"

definition read_u16 :: "ByteDecoder \<Rightarrow> (u16 \<times> ByteDecoder) res" where
  "read_u16 d = try_res (read_slice 2 d) (\<lambda>(s, d). Inr (of_nat (of_le_nat s), d))"

definition read_u32 :: "ByteDecoder \<Rightarrow> (u32 \<times> ByteDecoder) res" where
  "read_u32 d = try_res (read_slice 4 d) (\<lambda>(s, d). Inr (of_nat (of_le_nat s), d))"

definition read_u48 :: "ByteDecoder \<Rightarrow> (u64 \<times> ByteDecoder) res" where
  "read_u48 d = try_res (read_slice 6 d) (\<lambda>(s, d). Inr (of_nat (of_le_nat (s @ [0, 0])), d))"

definition read_u64 :: "ByteDecoder \<Rightarrow> (u64 \<times> ByteDecoder) res" where
  "read_u64 d = try_res (read_slice 8 d) (\<lambda>(s, d). Inr (of_nat (of_le_nat s), d))"

definition read_hash :: "ByteDecoder \<Rightarrow> (hash \<times> ByteDecoder) res" where
  "read_hash d = try_res (read_slice 32 d) (\<lambda>(s, d). Inr (from_bytes s, d))"

definition read_rest :: "ByteDecoder \<Rightarrow> (bytes \<times> ByteDecoder) res" where
  "read_rest d =
     (if dec_pos d > length (dec_buf d) then Inl Panic
      else Inr (drop (dec_pos d) (dec_buf d), d\<lparr>dec_pos := length (dec_buf d)\<rparr>))"

text \<open>The loop \<open>for _ in 0..n { out.push(read()?) }\<close>.\<close>

fun read_many :: "(ByteDecoder \<Rightarrow> ('a \<times> ByteDecoder) res) \<Rightarrow> nat \<Rightarrow> ByteDecoder
    \<Rightarrow> ('a list \<times> ByteDecoder) res" where
  "read_many rd 0 d = Inr ([], d)"
| "read_many rd (Suc n) d =
     try_res (rd d) (\<lambda>(x, d). try_res (read_many rd n d) (\<lambda>(xs, d). Inr (x # xs, d)))"

section \<open>What the decoder sees\<close>

text \<open>\<open>at d bs\<close>: the decoder is inside its buffer and the unread bytes are \<open>bs\<close>.\<close>

definition dec_at :: "ByteDecoder \<Rightarrow> bytes \<Rightarrow> bool" where
  "dec_at d bs \<longleftrightarrow> dec_pos d \<le> length (dec_buf d) \<and> drop (dec_pos d) (dec_buf d) = bs"

definition advance :: "nat \<Rightarrow> ByteDecoder \<Rightarrow> ByteDecoder" where
  "advance n d = d\<lparr>dec_pos := dec_pos d + n\<rparr>"

lemma dec_at_new [simp]: "dec_at (dec_new bs) bs"
  by (simp add: dec_at_def dec_new_def)

lemma dec_at_new_iff: "dec_at (dec_new bs) cs \<longleftrightarrow> bs = cs"
  by (simp add: dec_at_def dec_new_def)

lemma dec_at_advance: "dec_at d (xs @ ys) \<Longrightarrow> length xs = n \<Longrightarrow> dec_at (advance n d) ys"
proof -
  assume d: "dec_at d (xs @ ys)" and n: "length xs = n"
  then have "drop n (drop (dec_pos d) (dec_buf d)) = ys"
    by (simp add: dec_at_def)
  moreover have "dec_pos d + n \<le> length (dec_buf d)"
    using d n unfolding dec_at_def
    by (metis length_append length_drop le_add1 le_diff_conv2 add.commute)
  ultimately show ?thesis
    by (simp add: dec_at_def advance_def add.commute)
qed

lemma dec_at_length: "dec_at d bs \<Longrightarrow> length (dec_buf d) = dec_pos d + length bs"
  by (auto simp: dec_at_def)

lemma dec_at_remaining: "dec_at d bs \<Longrightarrow> remaining d = length bs"
  by (auto simp: dec_at_def remaining_def)

lemma dec_at_unique: "dec_at d bs \<Longrightarrow> dec_at d cs \<Longrightarrow> bs = cs"
  by (simp add: dec_at_def)

lemma read_slice_at:
  assumes "dec_at d bs"
  shows "read_slice n d =
    (if length bs < n
     then Inl (Err (Codec (''unexpected EOF: need '' @ show_nat n @ '' bytes, have ''
            @ show_nat (length bs))))
     else Inr (take n bs, advance n d))"
proof -
  have "length (dec_buf d) = dec_pos d + length bs"
    using assms by (rule dec_at_length)
  then have "dec_pos d + n > length (dec_buf d) \<longleftrightarrow> length bs < n"
    and "length (dec_buf d) - dec_pos d = length bs"
    by linarith+
  moreover have "drop (dec_pos d) (dec_buf d) = bs"
    using assms by (simp add: dec_at_def)
  ultimately show ?thesis
    by (simp only: read_slice_def advance_def)
qed

lemma read_slice_ok:
  "dec_at d (xs @ ys) \<Longrightarrow> length xs = n \<Longrightarrow> read_slice n d = Inr (xs, advance n d)"
  by (simp add: read_slice_at)

lemma read_slice_Inr:
  "dec_at d bs \<Longrightarrow>
     read_slice n d = Inr (s, d') \<longleftrightarrow> n \<le> length bs \<and> s = take n bs \<and> d' = advance n d"
  by (auto simp: read_slice_at)

lemma dec_at_take: "dec_at d bs \<Longrightarrow> n \<le> length bs \<Longrightarrow> dec_at (advance n d) (drop n bs)"
  by (rule dec_at_advance [where xs = "take n bs"]) simp_all

lemma read_rest_ok: "dec_at d bs \<Longrightarrow> \<exists>d'. read_rest d = Inr (bs, d') \<and> dec_at d' []"
  by (auto simp: read_rest_def dec_at_def)

section \<open>The codec contract\<close>

text \<open>
  \<open>wr\<close> lists the bytes of a value, \<open>rd\<close> reads it back; \<open>ok\<close> names the values that fit the field.
\<close>

locale codec =
  fixes wr :: "'a \<Rightarrow> bytes"
    and rd :: "ByteDecoder \<Rightarrow> ('a \<times> ByteDecoder) res"
    and ok :: "'a \<Rightarrow> bool"
  assumes rd_wr: "ok x \<Longrightarrow> dec_at d (wr x @ rest) \<Longrightarrow> rd d = Inr (x, advance (length (wr x)) d)"
    and rd_sound: "dec_at d bs \<Longrightarrow> rd d = Inr (x, d') \<Longrightarrow>
      ok x \<and> (\<exists>rest. bs = wr x @ rest \<and> d' = advance (length (wr x)) d)"
    and rd_err: "dec_at d bs \<Longrightarrow> rd d = Inl e \<Longrightarrow> \<exists>m. e = Err (Codec m)"
begin

lemma rd_wr_at:
  "ok x \<Longrightarrow> dec_at d (wr x @ rest) \<Longrightarrow> \<exists>d'. rd d = Inr (x, d') \<and> dec_at d' rest"
  by (auto simp: rd_wr dec_at_advance)

lemma rd_sound_at:
  "dec_at d bs \<Longrightarrow> rd d = Inr (x, d') \<Longrightarrow> \<exists>rest. ok x \<and> bs = wr x @ rest \<and> dec_at d' rest"
  using rd_sound dec_at_advance by blast

lemma wr_inj: "ok x \<Longrightarrow> ok y \<Longrightarrow> wr x @ r = wr y @ s \<Longrightarrow> x = y \<and> r = s"
proof -
  assume x: "ok x" and y: "ok y" and eq: "wr x @ r = wr y @ s"
  have "rd (dec_new (wr x @ r)) = Inr (x, advance (length (wr x)) (dec_new (wr x @ r)))"
    using x by (rule rd_wr [where rest = r]) simp
  moreover have "rd (dec_new (wr x @ r)) = Inr (y, advance (length (wr y)) (dec_new (wr x @ r)))"
    using y by (rule rd_wr [where rest = s]) (simp add: eq)
  ultimately have "x = y"
    by simp
  with eq show ?thesis by simp
qed

lemma read_many_wr:
  "\<forall>x \<in> set xs. ok x \<Longrightarrow> dec_at d (concat (map wr xs) @ rest) \<Longrightarrow>
     \<exists>d'. read_many rd (length xs) d = Inr (xs, d') \<and> dec_at d' rest"
proof (induction xs arbitrary: d)
  case Nil
  then show ?case by simp
next
  case (Cons x xs)
  from Cons.prems obtain d1 where 1: "rd d = Inr (x, d1)" "dec_at d1 (concat (map wr xs) @ rest)"
    using rd_wr_at [of x d "concat (map wr xs) @ rest"] by auto
  from Cons.prems Cons.IH [OF _ 1(2)] obtain d2 where
    "read_many rd (length xs) d1 = Inr (xs, d2)" "dec_at d2 rest"
    by auto
  with 1 show ?case by simp
qed

lemma read_many_sound:
  "dec_at d bs \<Longrightarrow> read_many rd n d = Inr (xs, d') \<Longrightarrow>
     length xs = n \<and> (\<forall>x \<in> set xs. ok x) \<and>
     (\<exists>rest. bs = concat (map wr xs) @ rest \<and> dec_at d' rest)"
proof (induction n arbitrary: d bs xs)
  case 0
  then show ?case by auto
next
  case (Suc n)
  from Suc.prems(2) obtain x d1 ys where 1: "rd d = Inr (x, d1)"
    and 2: "read_many rd n d1 = Inr (ys, d')" and xs: "xs = x # ys"
    by (auto simp: result_simps split: prod.splits)
  from rd_sound_at [OF Suc.prems(1) 1] obtain r1 where r1: "ok x" "bs = wr x @ r1" "dec_at d1 r1"
    by blast
  from Suc.IH [OF r1(3) 2] r1 xs show ?case by auto
qed

lemma read_many_err:
  "dec_at d bs \<Longrightarrow> read_many rd n d = Inl e \<Longrightarrow> \<exists>m. e = Err (Codec m)"
proof (induction n arbitrary: d bs)
  case 0
  then show ?case by simp
next
  case (Suc n)
  from Suc.prems(2) consider "rd d = Inl e"
    | x d1 where "rd d = Inr (x, d1)" "read_many rd n d1 = Inl e"
    by (auto simp: result_simps split: prod.splits)
  then show ?case
  proof cases
    case 1
    with Suc.prems(1) show ?thesis by (rule rd_err)
  next
    case (2 x d1)
    with Suc.IH rd_sound_at [OF Suc.prems(1) 2(1)] show ?thesis by blast
  qed
qed

end

section \<open>The field codecs\<close>

lemma word_le_roundtrip:
  "LENGTH('a::len) \<le> 8 * n \<Longrightarrow> (of_nat (of_le_nat (le_nat n (unat w))) :: 'a word) = w"
proof -
  assume "LENGTH('a) \<le> 8 * n"
  then have "(2::nat) ^ LENGTH('a) \<le> 2 ^ (8 * n)"
    by (intro power_increasing) simp_all
  then have "unat w < 2 ^ (8 * n)"
    by (rule order_less_le_trans [OF unsigned_less])
  then have "unat w < 256 ^ n"
    by (simp add: power_mult)
  then show ?thesis
    by (simp add: of_le_nat_le_nat)
qed

lemma le_word_roundtrip:
  "length bs = n \<Longrightarrow> 8 * n \<le> LENGTH('a::len) \<Longrightarrow>
     le_nat n (unat (of_nat (of_le_nat bs) :: 'a word)) = bs"
proof -
  assume bs: "length bs = n" and "8 * n \<le> LENGTH('a)"
  then have "(2::nat) ^ (8 * n) \<le> 2 ^ LENGTH('a)"
    by (intro power_increasing) simp_all
  with bs have "of_le_nat bs < 2 ^ LENGTH('a)"
    using of_le_nat_bound [of bs] by (simp add: power_mult)
  then show ?thesis
    using bs le_nat_of_le_nat [of bs] by (simp add: unat_of_nat)
qed

text \<open>
  A fixed-width field: a slice of \<open>n\<close> bytes followed by a total conversion is a codec as soon as
  the conversions are inverse on such slices.
\<close>

lemma codec_fixed:
  assumes rd: "\<And>d. rd d = try_res (read_slice n d) (\<lambda>(s, d). Inr (f s, d))"
    and len: "\<And>x. length (wr x) = n"
    and f_wr: "\<And>x. ok x \<Longrightarrow> f (wr x) = x"
    and wr_f: "\<And>bs. length bs = n \<Longrightarrow> ok (f bs) \<and> wr (f bs) = bs"
  shows "codec wr rd ok"
proof
  fix x d rest
  assume "ok x" "dec_at d (wr x @ rest)"
  then show "rd d = Inr (x, advance (length (wr x)) d)"
    by (simp add: rd read_slice_ok len f_wr)
next
  fix d bs x d'
  assume at: "dec_at d bs" and "rd d = Inr (x, d')"
  then have n: "n \<le> length bs" and x: "x = f (take n bs)" and d': "d' = advance n d"
    by (auto simp: rd result_simps read_slice_Inr)
  then have "ok x" "bs = wr x @ drop n bs"
    using wr_f [of "take n bs"] by simp_all
  then show "ok x \<and> (\<exists>rest. bs = wr x @ rest \<and> d' = advance (length (wr x)) d)"
    using d' len by auto
next
  fix d bs e
  assume "dec_at d bs" "rd d = Inl e"
  then show "\<exists>m. e = Err (Codec m)"
    by (auto simp: rd result_simps read_slice_def split: if_splits)
qed

interpretation u8c: codec "\<lambda>v :: u8. [v]" read_u8 "\<lambda>_. True"
  by (rule codec_fixed [where n = 1 and f = "\<lambda>s. s ! 0"])
    (auto simp: read_u8_def length_Suc_conv)

interpretation u16c: codec "\<lambda>v :: u16. le_nat 2 (unat v)" read_u16 "\<lambda>_. True"
  by (rule codec_fixed [where n = 2 and f = "\<lambda>s. of_nat (of_le_nat s)"])
    (simp_all add: read_u16_def word_le_roundtrip le_word_roundtrip)

interpretation u32c: codec "\<lambda>v :: u32. le_nat 4 (unat v)" read_u32 "\<lambda>_. True"
  by (rule codec_fixed [where n = 4 and f = "\<lambda>s. of_nat (of_le_nat s)"])
    (simp_all add: read_u32_def word_le_roundtrip le_word_roundtrip)

interpretation u64c: codec "\<lambda>v :: u64. le_nat 8 (unat v)" read_u64 "\<lambda>_. True"
  by (rule codec_fixed [where n = 8 and f = "\<lambda>s. of_nat (of_le_nat s)"])
    (simp_all add: read_u64_def word_le_roundtrip le_word_roundtrip)

interpretation hashc: codec as_bytes read_hash "\<lambda>_. True"
  by (rule codec_fixed [where n = 32 and f = from_bytes]) (simp_all add: read_hash_def)

text \<open>The six-byte offset field loses the two high bytes of a larger value.\<close>

definition le_u48 :: "u64 \<Rightarrow> bytes" where
  "le_u48 v = take 6 (le_nat 8 (unat v))"

lemma take_le_nat: "m \<le> n \<Longrightarrow> take m (le_nat n x) = le_nat m x"
proof (induction m arbitrary: n x)
  case 0
  then show ?case by simp
next
  case (Suc m)
  then obtain k where "n = Suc k" by (cases n) auto
  with Suc show ?case by simp
qed

lemma le_u48_eq: "le_u48 v = le_nat 6 (unat v)"
  by (simp add: le_u48_def take_le_nat)

lemma of_le_nat_append_zeros: "of_le_nat (bs @ [0, 0]) = of_le_nat bs"
  by (induction bs) simp_all

interpretation u48c: codec le_u48 read_u48 "\<lambda>v. unat v < 2 ^ 48"
proof (rule codec_fixed [where n = 6 and f = "\<lambda>s. of_nat (of_le_nat (s @ [0, 0]))"])
  fix d show "read_u48 d = try_res (read_slice 6 d) (\<lambda>(s, d). Inr (of_nat (of_le_nat (s @ [0, 0])), d))"
    by (simp add: read_u48_def)
next
  fix v show "length (le_u48 v) = 6"
    by (simp add: le_u48_eq)
next
  fix v :: u64 assume "unat v < 2 ^ 48"
  then show "of_nat (of_le_nat (le_u48 v @ [0, 0])) = v"
    by (simp add: of_le_nat_append_zeros le_u48_eq of_le_nat_le_nat)
next
  fix bs :: bytes assume bs: "length bs = 6"
  then have "of_le_nat bs < 2 ^ 48"
    using of_le_nat_bound [of bs] by simp
  then have "unat (of_nat (of_le_nat bs) :: u64) = of_le_nat bs"
    by (simp add: unat_of_nat)
  with \<open>of_le_nat bs < 2 ^ 48\<close> bs show "unat (of_nat (of_le_nat (bs @ [0, 0])) :: u64) < 2 ^ 48
      \<and> le_u48 (of_nat (of_le_nat (bs @ [0, 0]))) = bs"
    using le_nat_of_le_nat [of bs] by (simp add: of_le_nat_append_zeros le_u48_eq)
qed

section \<open>Encoded bytes\<close>

lemma enc_buf_writes [simp, codec_simps]:
  "enc_buf (write_u8 a e) = enc_buf e @ [a]"
  "enc_buf (write_u16 b e) = enc_buf e @ le_nat 2 (unat b)"
  "enc_buf (write_u32 c e) = enc_buf e @ le_nat 4 (unat c)"
  "enc_buf (write_u48 v e) = enc_buf e @ le_u48 v"
  "enc_buf (write_u64 v e) = enc_buf e @ le_nat 8 (unat v)"
  "enc_buf (write_hash h e) = enc_buf e @ as_bytes h"
  "enc_buf (write_bytes bs e) = enc_buf e @ bs"
  "enc_buf enc_new = []"
  by (simp_all add: write_u8_def write_u16_def write_u32_def write_u48_def write_u64_def
      write_hash_def write_bytes_def enc_new_def le_u48_def)

lemma writes_simps [simp, codec_simps]:
  "writes [] e = e"
  "writes (w # ws) e = writes ws (w e)"
  "writes (ws @ ws') e = writes ws' (writes ws e)"
  by (simp_all add: writes_def)

lemma enc_buf_writes_hashes [simp, codec_simps]:
  "enc_buf (writes (map write_hash hs) e) = enc_buf e @ concat (map as_bytes hs)"
  by (induction hs arbitrary: e) simp_all

lemma take_encoder_clean: "fst (take_encoder pool) = enc_new"
  by (auto simp: take_encoder_def enc_clear_def enc_with_capacity_def enc_new_def split: list.splits)

lemma encode_with_bytes: "fst (encode_with f pool) = encoded f"
  using take_encoder_clean [of pool]
  by (cases "take_encoder pool") (simp add: encode_with_def encoded_def Let_def)

definition pool_ok :: "encoder_pool \<Rightarrow> bool" where
  "pool_ok pool \<longleftrightarrow> length pool \<le> POOL_CAP \<and> (\<forall>e \<in> set pool. enc_buf e = [])"

lemma pool_ok_take: "pool_ok pool \<Longrightarrow> pool_ok (snd (take_encoder pool))"
  by (auto simp: pool_ok_def take_encoder_def split: list.splits)

lemma pool_ok_put: "pool_ok pool \<Longrightarrow> pool_ok (put_encoder e pool)"
  by (auto simp: pool_ok_def put_encoder_def enc_clear_def)

lemma pool_ok_encode_with: "pool_ok pool \<Longrightarrow> pool_ok (snd (encode_with f pool))"
  using pool_ok_take [of pool]
  by (auto simp: encode_with_def Let_def pool_ok_put split: prod.splits)

section \<open>Properties\<close>

text \<open>
  An encoding does not depend on the thread-local pool of encoders: from any pool the operations
  keep reachable, \<open>encode_with\<close> returns the bytes a fresh encoder produces, and returns a pool of at
  most \<open>POOL_CAP\<close> cleared encoders.
\<close>

theorem encode_with_pool:
  assumes "pool_ok pool"
  shows "fst (encode_with f pool) = enc_buf (f enc_new) \<and> pool_ok (snd (encode_with f pool))"
  using pool_ok_encode_with [OF assms] by (simp add: encode_with_bytes encoded_def)

theorem encode_with_pool_witness:
  "fst (encode_with (write_u16 513) [enc_new]) = enc_buf (write_u16 513 enc_new)
   \<and> pool_ok (snd (encode_with (write_u16 513) [enc_new]))"
  by (rule encode_with_pool) (simp add: pool_ok_def POOL_CAP_def enc_new_def)

end
