(* ===== verification/Crc32.thy ===== *)
theory Crc32
  imports Prelude
begin

text \<open>
  The table-driven IEEE CRC-32 of \<open>epochs-core/src/crc32.rs\<close>: the compile-time table, the byte
  loop, and a bit-serial reference definition. The theory shows that the table-driven loop is the
  bit-serial register, and that the checksum detects every corruption confined to one byte.
\<close>

section \<open>The code\<close>

definition crc_bit :: "u32 \<Rightarrow> u32" where
  "crc_bit c = (if c AND 1 \<noteq> 0 then 0xEDB88320 XOR drop_bit 1 c else drop_bit 1 c)"

fun crc_bits :: "nat \<Rightarrow> u32 \<Rightarrow> u32" where
  "crc_bits 0 c = c"
| "crc_bits (Suc j) c = crc_bits j (crc_bit c)"

definition TABLE :: "u32 list" where
  "TABLE = map (\<lambda>i. crc_bits 8 (of_nat i)) [0..<256]"

definition crc_index :: "u32 \<Rightarrow> u8 \<Rightarrow> nat" where
  "crc_index crc byte = unat ((crc XOR ucast byte) AND 0xFF)"

definition crc_step :: "u32 \<Rightarrow> u8 \<Rightarrow> u32" where
  "crc_step crc byte = (TABLE ! crc_index crc byte) XOR drop_bit 8 crc"

definition crc32 :: "bytes \<Rightarrow> u32" where
  "crc32 data = NOT (foldl crc_step 0xFFFFFFFF data)"

section \<open>Reference definition\<close>

text \<open>The textbook register: xor the byte into the low end, then shift out eight bits.\<close>

definition crc_step_ref :: "u32 \<Rightarrow> u8 \<Rightarrow> u32" where
  "crc_step_ref crc byte = crc_bits 8 (crc XOR ucast byte)"

definition crc32_ref :: "bytes \<Rightarrow> u32" where
  "crc32_ref data = NOT (foldl crc_step_ref 0xFFFFFFFF data)"

section \<open>Linearity of the shift register\<close>

lemma crc_bit_bit: "crc_bit c = (if bit c 0 then 0xEDB88320 XOR drop_bit 1 c else drop_bit 1 c)"
  by (simp add: crc_bit_def and_one_eq bit_0 odd_iff_mod_2_eq_one)

lemma crc_bit_xor: "crc_bit (a XOR b) = crc_bit a XOR crc_bit b"
  unfolding crc_bit_bit by (auto simp: bit_xor_iff drop_bit_xor ac_simps xor.left_commute)

lemma crc_bits_xor: "crc_bits n (a XOR b) = crc_bits n a XOR crc_bits n b"
  by (induction n arbitrary: a b) (simp_all add: crc_bit_xor)

lemma crc_bit_kernel: "crc_bit d = 0 \<Longrightarrow> d = 0"
proof -
  assume zero: "crc_bit d = 0"
  have "\<not> bit d 0"
  proof
    assume "bit d 0"
    then have "crc_bit d = 0xEDB88320 XOR drop_bit 1 d"
      by (simp add: crc_bit_bit)
    moreover have "bit (0xEDB88320 XOR drop_bit 1 d) 31"
      using bit_imp_le_length [of d 32]
      by (auto simp: bit_xor_iff bit_drop_bit_eq bit_word_iff_drop_bit_and [of "0xEDB88320"])
    ultimately show False
      using zero by simp
  qed
  then have "drop_bit 1 d = 0"
    using zero by (simp add: crc_bit_bit)
  show "d = 0"
  proof (rule bit_word_eqI)
    fix n
    have "bit (drop_bit 1 d) (n - 1) = False"
      using \<open>drop_bit 1 d = 0\<close> by simp
    then show "bit d n = bit 0 n"
      using \<open>\<not> bit d 0\<close> by (cases n) (simp_all add: bit_drop_bit_eq)
  qed
qed

lemma crc_bits_kernel: "crc_bits n d = 0 \<Longrightarrow> d = 0"
  by (induction n arbitrary: d) (auto dest: crc_bit_kernel)

lemma xor_right_cancel: "a XOR c = b XOR c \<longleftrightarrow> a = (b :: u32)"
proof
  assume "a XOR c = b XOR c"
  then have "(a XOR c) XOR c = (b XOR c) XOR c"
    by simp
  then show "a = b"
    by (simp add: xor.assoc)
qed simp

lemma xor_left_cancel: "c XOR a = c XOR b \<longleftrightarrow> a = (b :: u32)"
  using xor_right_cancel [of a c b] by (simp add: xor.commute)

lemma crc_bits_inj: "crc_bits n a = crc_bits n b \<longleftrightarrow> a = b"
proof
  assume "crc_bits n a = crc_bits n b"
  then have "crc_bits n (a XOR b) = 0"
    by (simp add: crc_bits_xor)
  then have "a XOR b = 0"
    by (rule crc_bits_kernel)
  then show "a = b"
    using xor_right_cancel [of a b b] by simp
qed simp

lemma crc_bits_add: "crc_bits (m + n) c = crc_bits n (crc_bits m c)"
  by (induction m arbitrary: c) simp_all

text \<open>Zero low bits shift out without feedback.\<close>

lemma crc_bits_low_zero: "\<forall>i < n. \<not> bit c i \<Longrightarrow> crc_bits n c = drop_bit n c"
proof (induction n arbitrary: c)
  case 0
  then show ?case by simp
next
  case (Suc n)
  then have "crc_bit c = drop_bit 1 c"
    by (simp add: crc_bit_bit)
  moreover have "\<forall>i < n. \<not> bit (drop_bit 1 c) i"
    using Suc.prems by (simp add: bit_drop_bit_eq)
  ultimately show ?case
    by (simp add: Suc.IH drop_bit_drop_bit)
qed

section \<open>The table-driven step is the bit-serial step\<close>

lemma and_xor_and_not: "(c AND m) XOR (c AND NOT m) = (c :: u32)"
  by (rule bit_word_eqI) (auto simp: bit_simps)

lemma crc_bits_split: "crc_bits 8 c = crc_bits 8 (c AND 0xFF) XOR drop_bit 8 c"
proof -
  have mask: "(0xFF :: u32) = mask 8"
    by (simp add: mask_eq_exp_minus_1)
  have "crc_bits 8 (c AND NOT 0xFF) = drop_bit 8 (c AND NOT 0xFF)"
    by (rule crc_bits_low_zero) (simp add: mask bit_simps)
  also have "\<dots> = drop_bit 8 c"
    by (rule bit_word_eqI) (auto simp: mask bit_simps dest: bit_imp_le_length)
  finally show ?thesis
    using crc_bits_xor [of 8 "c AND 0xFF" "c AND NOT 0xFF"] by (simp only: and_xor_and_not)
qed

lemma crc_index_less: "crc_index c b < 256"
proof -
  have "(c XOR ucast b) AND 0xFF \<le> 0xFF"
    by (rule word_and_le1)
  then show ?thesis
    by (simp add: crc_index_def word_le_nat_alt)
qed

lemma TABLE_nth: "i < 256 \<Longrightarrow> TABLE ! i = crc_bits 8 (of_nat i)"
  by (simp add: TABLE_def)

lemma crc_step_eq_ref: "crc_step c b = crc_step_ref c b"
proof -
  have "drop_bit 8 (ucast b :: u32) = 0"
    by (rule bit_word_eqI) (auto simp: bit_simps dest: bit_imp_le_length)
  then have "drop_bit 8 (c XOR ucast b) = drop_bit 8 c"
    by (simp add: drop_bit_xor)
  then have "crc_step_ref c b = crc_bits 8 ((c XOR ucast b) AND 0xFF) XOR drop_bit 8 c"
    unfolding crc_step_ref_def by (subst crc_bits_split) simp
  then show ?thesis
    by (simp add: crc_step_def TABLE_nth crc_index_less) (simp add: crc_index_def)
qed

section \<open>Error detection\<close>

text \<open>Up to four bytes, read little-endian, enter the register together.\<close>

definition block_word :: "bytes \<Rightarrow> u32" where
  "block_word bs = of_nat (of_le_nat bs)"

lemma of_le_nat_snoc: "of_le_nat (bs @ [b]) = of_le_nat bs + 256 ^ length bs * unat b"
  by (induction bs) (simp_all add: algebra_simps)

lemma block_word_snoc:
  assumes "length bs < 4"
  shows "block_word (bs @ [b]) = block_word bs XOR push_bit (8 * length bs) (ucast b)"
proof -
  let ?k = "8 * length bs"
  have less: "of_le_nat bs < 2 ^ ?k"
    using of_le_nat_bound [of bs] by (simp add: power_mult)
  have "block_word bs AND push_bit ?k (ucast b) = 0"
  proof (rule bit_word_eqI)
    fix n
    have "take_bit ?k (of_le_nat bs) = of_le_nat bs"
      using less by (rule take_bit_nat_eq_self)
    then have "n < ?k" if "bit (of_le_nat bs) n"
      using that by (metis bit_take_bit_iff)
    then show "bit (block_word bs AND push_bit ?k (ucast b)) n = bit 0 n"
      by (auto simp: block_word_def bit_simps)
  qed
  then have "block_word bs XOR push_bit ?k (ucast b) = block_word bs + push_bit ?k (ucast b)"
    by (simp add: disjunctive_xor_eq_or disjunctive_add_eq_or)
  moreover have "(2 :: u32) ^ ?k = 256 ^ length bs"
    by (subst power_mult) simp
  then have "push_bit ?k (ucast b :: u32) = of_nat (256 ^ length bs * unat b)"
    by (simp add: push_bit_eq_mult mult.commute)
  ultimately show ?thesis
    by (simp add: block_word_def of_le_nat_snoc)
qed

lemma block_word_inj:
  assumes "length as = length bs" and "length as \<le> 4" and "block_word as = block_word bs"
  shows "as = bs"
proof -
  have "(256 :: nat) ^ length as \<le> 256 ^ 4"
    using assms(2) by (intro power_increasing) simp_all
  then have "of_le_nat as < 2 ^ 32" "of_le_nat bs < 2 ^ 32"
    using of_le_nat_bound [of as] of_le_nat_bound [of bs] assms(1) by simp_all
  then have "unat (block_word as) = of_le_nat as" "unat (block_word bs) = of_le_nat bs"
    by (simp_all add: block_word_def unat_of_nat)
  then have "of_le_nat as = of_le_nat bs"
    using assms(3) by simp
  then show ?thesis
    using assms(1) by (metis le_nat_of_le_nat)
qed

lemma foldl_block:
  "length bs \<le> 4 \<Longrightarrow>
     foldl crc_step_ref s bs = crc_bits (8 * length bs) (s XOR block_word bs)"
proof (induction bs rule: rev_induct)
  case Nil
  then show ?case by (simp add: block_word_def)
next
  case (snoc b bs)
  let ?k = "8 * length bs"
  have "crc_bits ?k (push_bit ?k (ucast b)) = drop_bit ?k (push_bit ?k (ucast b :: u32))"
    by (rule crc_bits_low_zero) (simp add: bit_simps)
  also have "\<dots> = ucast b"
    by (rule bit_word_eqI) (use snoc.prems in \<open>auto simp: bit_simps dest: bit_imp_le_length\<close>)
  finally have b: "crc_bits ?k (push_bit ?k (ucast b)) = ucast b" .
  have "foldl crc_step_ref s (bs @ [b]) = crc_bits 8 (crc_bits ?k (s XOR block_word bs) XOR ucast b)"
    using snoc by simp (simp add: crc_step_ref_def)
  also have "\<dots> = crc_bits 8 (crc_bits ?k ((s XOR block_word bs) XOR push_bit ?k (ucast b)))"
    by (simp only: crc_bits_xor b)
  also have "\<dots> = crc_bits (?k + 8) (s XOR block_word (bs @ [b]))"
    using snoc.prems by (simp add: crc_bits_add block_word_snoc xor.assoc)
  finally show ?case by (simp add: add.commute)
qed

lemma foldl_crc_step_ref: "foldl crc_step s bs = foldl crc_step_ref s bs"
  by (simp add: crc_step_eq_ref [abs_def])

lemma foldl_crc_state_inj: "foldl crc_step_ref s bs = foldl crc_step_ref t bs \<longleftrightarrow> s = t"
proof (induction bs arbitrary: s t)
  case Nil
  then show ?case by simp
next
  case (Cons b bs)
  have "crc_step_ref s b = crc_step_ref t b \<longleftrightarrow> s XOR ucast b = t XOR ucast b"
    by (simp add: crc_step_ref_def crc_bits_inj)
  also have "\<dots> \<longleftrightarrow> s = t"
    by (rule xor_right_cancel)
  finally show ?case
    by (simp add: Cons)
qed

lemma crc32_eq_iff: "crc32 xs = crc32 ys \<longleftrightarrow>
    foldl crc_step_ref 0xFFFFFFFF xs = foldl crc_step_ref 0xFFFFFFFF ys"
  by (simp add: crc32_def foldl_crc_step_ref)

lemma crc32_block:
  assumes "length as = length bs" and "length as \<le> 4" and "as \<noteq> bs"
  shows "crc32 (xs @ as @ ys) \<noteq> crc32 (xs @ bs @ ys)"
proof -
  let ?s = "foldl crc_step_ref 0xFFFFFFFF xs"
  have "block_word as \<noteq> block_word bs"
    using block_word_inj assms by blast
  then have "?s XOR block_word as \<noteq> ?s XOR block_word bs"
    by (simp add: xor_left_cancel)
  then have "foldl crc_step_ref ?s as \<noteq> foldl crc_step_ref ?s bs"
    using assms by (simp add: foldl_block crc_bits_inj)
  then show ?thesis
    by (simp add: crc32_eq_iff foldl_crc_state_inj)
qed

text \<open>The check value of the standard: the checksum of the ASCII digits 1 to 9.\<close>

lemma crc_bits_8:
  "crc_bits 8 c = crc_bit (crc_bit (crc_bit (crc_bit (crc_bit (crc_bit (crc_bit (crc_bit c)))))))"
  by (simp add: numeral_eq_Suc)

lemma crc32_known_vector:
  "crc32 (as_bytes_str ''123456789'') = 0xCBF43926"
  by (simp add: crc32_def crc_step_eq_ref crc_step_ref_def byte_of_char_def crc_bits_8 crc_bit_def)

section \<open>Properties\<close>

text \<open>
  C39: the table-driven checksum is the bitwise CRC-32 of the reflected polynomial 0xEDB88320, with
  initial value and final complement of all ones.
\<close>

theorem crc32_table_correct:
  "crc32 bs = NOT (foldl (\<lambda>c b. crc_bits 8 (c XOR ucast b)) 0xFFFFFFFF bs)"
proof -
  have "crc_step_ref = (\<lambda>c b. crc_bits 8 (c XOR ucast b))"
    by (intro ext) (simp add: crc_step_ref_def)
  then show ?thesis
    by (simp add: crc32_def foldl_crc_step_ref)
qed

text \<open>
  C38: the checksum detects every corruption confined to four consecutive bytes.
\<close>

theorem crc32_detects_burst:
  assumes "length as = length bs" "length as \<le> 4" "as \<noteq> bs"
  shows "crc32 (xs @ as @ ys) \<noteq> crc32 (xs @ bs @ ys)"
  using assms by (rule crc32_block)

theorem crc32_detects_burst_witness: "crc32 ([1] @ [2, 3] @ [4]) \<noteq> crc32 ([1] @ [2, 7] @ [4])"
  by (rule crc32_detects_burst) simp_all

end
