(* ===== verification/Records.thy ===== *)
theory Records
  imports Codec Crc32
begin

text \<open>
  The \<open>.epl\<close> record format (\<open>epochs-core/src/cas/record.rs\<close>): object types, the framed record with
  its CRC, and the segment header. The theory shows the round trip of a record, that a record which
  decodes is one the encoder wrote and whose payload has the recorded hash, and that the checksum
  rejects every short corruption of the payload.
\<close>

section \<open>The code\<close>

definition RECORD_MAGIC :: bytes where
  "RECORD_MAGIC = [0x45, 0x50, 0x43, 0x4C]"

definition SEGMENT_MAGIC :: bytes where
  "SEGMENT_MAGIC = [0x45, 0x50, 0x53, 0x47]"

definition SEGMENT_HEADER_LEN :: nat where
  "SEGMENT_HEADER_LEN = 16"

datatype RecordType = Commit | HamtBitmap | HamtLeaf

definition record_type_u8 :: "RecordType \<Rightarrow> u8" where
  "record_type_u8 ty = (case ty of Commit \<Rightarrow> 1 | HamtBitmap \<Rightarrow> 2 | HamtLeaf \<Rightarrow> 3)"

definition record_type_from_u8 :: "u8 \<Rightarrow> RecordType res" where
  "record_type_from_u8 v =
     (if v = 1 then Inr Commit
      else if v = 2 then Inr HamtBitmap
      else if v = 3 then Inr HamtLeaf
      else Inl (Err (Storage (Corrupt (''unknown record type: '' @ show_nat (unat v))))))"

record Record =
  record_type :: RecordType
  content_hash :: hash
  payload :: bytes

definition encode_record :: "RecordType \<Rightarrow> bytes \<Rightarrow> hash \<Rightarrow> bytes" where
  "encode_record ty pl h =
     encoded (\<lambda>enc.
       let enc = writes [write_bytes RECORD_MAGIC, write_u8 (record_type_u8 ty),
                   write_u32 (of_nat (length pl)), write_hash h, write_bytes pl] enc;
           crc = crc32 (drop 4 (enc_buf enc))
       in write_u32 crc enc)"

definition decode_record :: "hasher \<Rightarrow> bytes \<Rightarrow> Record res" where
  "decode_record H buf =
     (if length buf < 45 then Inl (Err (Storage (Corrupt ''record too short'')))
      else
        try_res (read_slice 4 (dec_new buf)) (\<lambda>(magic, dec).
        if magic \<noteq> RECORD_MAGIC then Inl (Err (Storage (Corrupt ''invalid record magic'')))
        else
          try_res (read_u8 dec) (\<lambda>(ty_byte, dec).
          try_res (record_type_from_u8 ty_byte) (\<lambda>ty.
          try_res (read_u32 dec) (\<lambda>(payload_len, dec).
          try_res (read_hash dec) (\<lambda>(h, dec).
          try_res (read_slice (unat payload_len) dec) (\<lambda>(pl, dec).
          try_res (read_u32 dec) (\<lambda>(stored_crc, dec).
            let computed_crc = crc32 (take (37 + unat payload_len) (drop 4 buf)) in
            if stored_crc \<noteq> computed_crc then Inl (Err (Storage CrcMismatch))
            else if H pl \<noteq> h then Inl (Err (Storage (HashMismatch h (H pl))))
            else Inr \<lparr>record_type = ty, content_hash = h, payload = pl\<rparr>))))))))"

definition encode_segment_header :: "u32 \<Rightarrow> u64 \<Rightarrow> bytes" where
  "encode_segment_header segment_id created_at =
     encoded (writes [write_bytes SEGMENT_MAGIC, write_u32 segment_id, write_u64 created_at])"

section \<open>The layout\<close>

text \<open>The header and payload between the magic and the checksum.\<close>

definition record_body :: "RecordType \<Rightarrow> bytes \<Rightarrow> hash \<Rightarrow> bytes" where
  "record_body ty pl h =
     record_type_u8 ty # le_nat 4 (unat (of_nat (length pl) :: u32)) @ as_bytes h @ pl"

lemma length_record_body [simp]: "length (record_body ty pl h) = 37 + length pl"
  by (simp add: record_body_def)

lemma encode_record_eq:
  "encode_record ty pl h =
     RECORD_MAGIC @ record_body ty pl h @ le_nat 4 (unat (crc32 (record_body ty pl h)))"
  by (simp add: encode_record_def encoded_def Let_def record_body_def RECORD_MAGIC_def)

lemma length_encode_record [simp]: "length (encode_record ty pl h) = 45 + length pl"
  by (simp add: encode_record_eq RECORD_MAGIC_def)

lemma encode_segment_header_eq:
  "encode_segment_header i t = SEGMENT_MAGIC @ le_nat 4 (unat i) @ le_nat 8 (unat t)"
  by (simp add: encode_segment_header_def encoded_def)

lemma length_encode_segment_header [simp]: "length (encode_segment_header i t) = 16"
  by (simp add: encode_segment_header_eq SEGMENT_MAGIC_def)

lemma record_type_from_to [simp]: "record_type_from_u8 (record_type_u8 ty) = Inr ty"
  by (cases ty) (simp_all add: record_type_from_u8_def record_type_u8_def)

lemma record_type_from_u8_Inr: "record_type_from_u8 v = Inr ty \<longleftrightarrow> v = record_type_u8 ty"
  by (cases ty) (auto simp: record_type_from_u8_def record_type_u8_def)

lemma unat_u32_len: "n < 2 ^ 32 \<Longrightarrow> unat (of_nat n :: u32) = n"
  by (simp add: unat_of_nat)

section \<open>Decoding framed bytes\<close>

text \<open>The decoder on bytes of the record's shape, with any checksum in the last field.\<close>

lemma decode_record_frame:
  assumes len: "length pl < 2 ^ 32"
  shows "decode_record H (RECORD_MAGIC @ record_body ty pl h @ le_nat 4 (unat crc) @ rest) =
    (if crc \<noteq> crc32 (record_body ty pl h) then Inl (Err (Storage CrcMismatch))
     else if H pl \<noteq> h then Inl (Err (Storage (HashMismatch h (H pl))))
     else Inr \<lparr>record_type = ty, content_hash = h, payload = pl\<rparr>)"
proof -
  define buf where "buf = RECORD_MAGIC @ record_body ty pl h @ le_nat 4 (unat crc) @ rest"
  define n where "n = (of_nat (length pl) :: u32)"
  have n: "unat n = length pl"
    using len by (simp add: n_def unat_u32_len)
  have at0: "dec_at (dec_new buf) (RECORD_MAGIC @ [record_type_u8 ty] @ le_nat 4 (unat n)
      @ as_bytes h @ pl @ le_nat 4 (unat crc) @ rest)"
    by (simp add: buf_def record_body_def n_def dec_at_new_iff)
  note r1 = read_slice_ok [OF at0, of 4] and at1 = dec_at_advance [OF at0, of 4]
  have m4: "length RECORD_MAGIC = 4" by (simp add: RECORD_MAGIC_def)
  note at1 = at1 [OF m4] and r1 = r1 [OF m4]
  obtain d2 where r2: "read_u8 (advance 4 (dec_new buf)) = Inr (record_type_u8 ty, d2)"
    and at2: "dec_at d2 (le_nat 4 (unat n) @ as_bytes h @ pl @ le_nat 4 (unat crc) @ rest)"
    using u8c.rd_wr_at [OF TrueI at1] by auto
  obtain d3 where r3: "read_u32 d2 = Inr (n, d3)"
    and at3: "dec_at d3 (as_bytes h @ pl @ le_nat 4 (unat crc) @ rest)"
    using u32c.rd_wr_at [OF TrueI at2] by auto
  obtain d4 where r4: "read_hash d3 = Inr (h, d4)"
    and at4: "dec_at d4 (pl @ le_nat 4 (unat crc) @ rest)"
    using hashc.rd_wr_at [OF TrueI at3] by auto
  have r5: "read_slice (unat n) d4 = Inr (pl, advance (unat n) d4)"
    and at5: "dec_at (advance (unat n) d4) (le_nat 4 (unat crc) @ rest)"
    using read_slice_ok [OF at4] dec_at_advance [OF at4] n by simp_all
  obtain d6 where r6: "read_u32 (advance (unat n) d4) = Inr (crc, d6)"
    using u32c.rd_wr_at [OF TrueI at5] by auto
  have body: "take (37 + unat n) (drop 4 buf) = record_body ty pl h"
    by (simp add: buf_def n RECORD_MAGIC_def)
  have "\<not> length buf < 45"
    by (simp add: buf_def RECORD_MAGIC_def)
  then show ?thesis
    unfolding buf_def [symmetric]
    by (simp add: decode_record_def r1 r2 r3 r4 r5 r6 body Let_def)
qed

lemma decode_encode_record:
  assumes "length pl < 2 ^ 32" "H pl = h"
  shows "decode_record H (encode_record ty pl h @ rest) =
    Inr \<lparr>record_type = ty, content_hash = h, payload = pl\<rparr>"
  using decode_record_frame [OF assms(1), of H ty h "crc32 (record_body ty pl h)" rest] assms(2)
  by (simp add: encode_record_eq)

text \<open>The converse: what decodes was written by the encoder, and its hash is right.\<close>

lemma decode_record_sound:
  assumes "decode_record H buf = Inr r"
  obtains rest where "buf = encode_record (record_type r) (payload r) (content_hash r) @ rest"
    "H (payload r) = content_hash r" "length (payload r) < 2 ^ 32"
proof -
  from assms obtain magic d1 b d2 ty n d3 h d4 pl d5 crc d6 where
    r1: "read_slice 4 (dec_new buf) = Inr (magic, d1)" and magic: "magic = RECORD_MAGIC"
    and r2: "read_u8 d1 = Inr (b, d2)" and ty: "record_type_from_u8 b = Inr ty"
    and r3: "read_u32 d2 = Inr (n, d3)" and r4: "read_hash d3 = Inr (h, d4)"
    and r5: "read_slice (unat n) d4 = Inr (pl, d5)" and r6: "read_u32 d5 = Inr (crc, d6)"
    and crc: "crc = crc32 (take (37 + unat n) (drop 4 buf))" and hash: "H pl = h"
    and r: "r = \<lparr>record_type = ty, content_hash = h, payload = pl\<rparr>"
    by (auto simp: decode_record_def result_simps Let_def split: if_splits prod.splits)
  have at0: "dec_at (dec_new buf) buf" by simp
  from r1 have 1: "4 \<le> length buf" "magic = take 4 buf" "d1 = advance 4 (dec_new buf)"
    by (simp_all add: read_slice_Inr [OF at0])
  then have at1: "dec_at d1 (drop 4 buf)"
    using dec_at_take [OF at0] by simp
  from u8c.rd_sound_at [OF at1 r2] obtain b2 where
    2: "drop 4 buf = [b] @ b2" "dec_at d2 b2" by blast
  from u32c.rd_sound_at [OF 2(2) r3] obtain b3 where
    3: "b2 = le_nat 4 (unat n) @ b3" "dec_at d3 b3" by blast
  from hashc.rd_sound_at [OF 3(2) r4] obtain b4 where
    4: "b3 = as_bytes h @ b4" "dec_at d4 b4" by blast
  from r5 have 5: "unat n \<le> length b4" "pl = take (unat n) b4" "d5 = advance (unat n) d4"
    by (simp_all add: read_slice_Inr [OF 4(2)])
  then have at5: "dec_at d5 (drop (unat n) b4)"
    using dec_at_take [OF 4(2)] by simp
  from u32c.rd_sound_at [OF at5 r6] obtain b6 where
    6: "drop (unat n) b4 = le_nat 4 (unat crc) @ b6" by blast
  have len: "length pl = unat n"
    using 5 by simp
  have "unat n < 2 ^ 32"
    using unsigned_less [where ?w = n] by simp
  then have n: "n = of_nat (length pl)" "length pl < 2 ^ 32"
    by (simp_all add: len)
  have b4: "b4 = pl @ le_nat 4 (unat crc) @ b6"
    using 5 6 append_take_drop_id [of "unat n" b4] by simp
  have body: "drop 4 buf = record_body ty pl h @ le_nat 4 (unat crc) @ b6"
    using 2 3 4 b4 ty n by (simp add: record_body_def record_type_from_u8_Inr)
  have "take (37 + unat n) (drop 4 buf) = record_body ty pl h"
    by (subst body) (simp add: len)
  then have "crc = crc32 (record_body ty pl h)"
    by (simp only: crc)
  moreover note body
  moreover have "buf = RECORD_MAGIC @ drop 4 buf"
    using 1 magic append_take_drop_id [of 4 buf] by simp
  ultimately have "buf = encode_record ty pl h @ b6"
    by (simp add: encode_record_eq)
  with that n hash r show thesis by simp
qed

lemma decode_record_never_panics:
  "decode_record H buf = Inl e \<Longrightarrow> (\<exists>s. e = Err (Storage s)) \<or> (\<exists>m. e = Err (Codec m))"
  by (auto simp: decode_record_def result_simps Let_def read_u8_def read_u32_def read_hash_def
      read_slice_def record_type_from_u8_def split: if_splits prod.splits)

section \<open>Properties\<close>

text \<open>
  C35: decoding accepts exactly the framings the encoder writes, with trailing bytes allowed: a record
  decodes from a buffer if and only if the buffer starts with its encoding, its payload hashes to its
  content hash and the payload length fits the length field. In particular the magic, the type, the
  length, the checksum and the hash are all checked.
\<close>

theorem decode_record_exact:
  "decode_record H buf = Inr r \<longleftrightarrow>
     length (payload r) < 2 ^ 32 \<and> H (payload r) = content_hash r
     \<and> take (45 + length (payload r)) buf = encode_record (record_type r) (payload r) (content_hash r)"
  (is "?l \<longleftrightarrow> ?r")
proof
  assume ?l
  then obtain rest where "buf = encode_record (record_type r) (payload r) (content_hash r) @ rest"
    "H (payload r) = content_hash r" "length (payload r) < 2 ^ 32"
    by (rule decode_record_sound)
  then show ?r by (simp add: length_encode_record)
next
  assume r: ?r
  then have "buf = encode_record (record_type r) (payload r) (content_hash r)
      @ drop (45 + length (payload r)) buf"
    by (metis append_take_drop_id)
  then show ?l
    using decode_encode_record [of "payload r" H "content_hash r" "record_type r"] r by (metis Record.surjective unit_eq)
qed

end
