(* ===== verification/Commits.thy ===== *)
theory Commits
  imports Codec
begin

text \<open>
  The commit payload codec (\<open>epochs-core/src/commit.rs\<close>), versions 1 and 2. The length fields of the
  format are narrower than the values they count: the theory shows that decoding an encoded commit
  returns it exactly when every count fits its field, and that whatever decodes fits.
\<close>

section \<open>The code\<close>

definition COMMIT_VERSION :: u8 where
  "COMMIT_VERSION = 2"

definition COMMIT_VERSION_V1 :: u8 where
  "COMMIT_VERSION_V1 = 1"

record Commit =
  parents :: "hash list"
  root_hamt :: hash
  timestamp :: u64
  message :: string
  index_roots :: "(string \<times> hash) list"

definition commit_with_indexes :: "hash list \<Rightarrow> hash \<Rightarrow> u64 \<Rightarrow> string \<Rightarrow> (string \<times> hash) list \<Rightarrow> Commit" where
  "commit_with_indexes ps root ts msg idx =
     \<lparr>parents = ps, root_hamt = root, timestamp = ts, message = msg, index_roots = idx\<rparr>"

definition commit_new :: "hash list \<Rightarrow> hash \<Rightarrow> u64 \<Rightarrow> string \<Rightarrow> Commit" where
  "commit_new ps root ts msg =
     \<lparr>parents = ps, root_hamt = root, timestamp = ts, message = msg, index_roots = []\<rparr>"

definition write_index_root :: "string \<times> hash \<Rightarrow> ByteEncoder \<Rightarrow> ByteEncoder" where
  "write_index_root e =
     (case e of (name, h) \<Rightarrow>
        writes [write_u16 (of_nat (length (as_bytes_str name))), write_bytes (as_bytes_str name),
          write_hash h])"

definition encode_payload :: "Commit \<Rightarrow> bytes" where
  "encode_payload c =
     encoded (writes
       ([write_u8 COMMIT_VERSION, write_u8 (of_nat (length (parents c)))]
        @ map write_hash (parents c)
        @ [write_hash (root_hamt c), write_u64 (timestamp c),
           write_u16 (of_nat (length (as_bytes_str (message c)))),
           write_bytes (as_bytes_str (message c)),
           write_u16 (of_nat (length (index_roots c)))]
        @ map write_index_root (index_roots c)))"

definition read_index_root :: "ByteDecoder \<Rightarrow> ((string \<times> hash) \<times> ByteDecoder) res" where
  "read_index_root dec =
     try_res (read_u16 dec) (\<lambda>(name_len, dec).
     try_res (read_slice (unat name_len) dec) (\<lambda>(name_bytes, dec).
     try_res (map_err (\<lambda>e. Err (Codec (''index root name not valid utf-8: '' @ e)))
         (from_utf8 name_bytes)) (\<lambda>name.
     try_res (read_hash dec) (\<lambda>(h, dec). Inr ((name, h), dec)))))"

fun read_index_roots :: "nat \<Rightarrow> (string \<times> hash) list \<Rightarrow> ByteDecoder
    \<Rightarrow> ((string \<times> hash) list \<times> ByteDecoder) res" where
  "read_index_roots 0 m dec = Inr (m, dec)"
| "read_index_roots (Suc n) m dec =
     try_res (read_index_root dec) (\<lambda>((name, h), dec). read_index_roots n (bt_insert name h m) dec)"

definition decode_payload :: "bytes \<Rightarrow> Commit res" where
  "decode_payload buf =
     try_res (read_u8 (dec_new buf)) (\<lambda>(version, dec).
     if version \<noteq> COMMIT_VERSION \<and> version \<noteq> COMMIT_VERSION_V1
     then Inl (Err (Codec (''unsupported commit version: '' @ show_nat (unat version))))
     else
       try_res (read_u8 dec) (\<lambda>(parent_count, dec).
       try_res (read_many read_hash (unat parent_count) dec) (\<lambda>(ps, dec).
       try_res (read_hash dec) (\<lambda>(root, dec).
       try_res (read_u64 dec) (\<lambda>(ts, dec).
       try_res (read_u16 dec) (\<lambda>(msg_len, dec).
       try_res (read_slice (unat msg_len) dec) (\<lambda>(msg_bytes, dec).
       try_res (map_err (\<lambda>e. Err (Codec (''commit message not valid utf-8: '' @ e)))
           (from_utf8 msg_bytes)) (\<lambda>msg.
       try_res
         (if version \<ge> COMMIT_VERSION
          then try_res (read_u16 dec) (\<lambda>(count, dec). read_index_roots (unat count) [] dec)
          else Inr ([], dec)) (\<lambda>(idx, dec).
       Inr \<lparr>parents = ps, root_hamt = root, timestamp = ts, message = msg,
             index_roots = idx\<rparr>)))))))))"

definition commit_id :: "hasher \<Rightarrow> Commit \<Rightarrow> hash" where
  "commit_id H c = H (encode_payload c)"

section \<open>Values that fit the format\<close>

definition ok_index_root :: "string \<times> hash \<Rightarrow> bool" where
  "ok_index_root e \<longleftrightarrow> valid_str (fst e) \<and> length (fst e) < 2 ^ 16"

definition wf_commit :: "Commit \<Rightarrow> bool" where
  "wf_commit c \<longleftrightarrow>
     length (parents c) < 2 ^ 8 \<and> valid_str (message c) \<and> length (message c) < 2 ^ 16
     \<and> sorted_map (index_roots c) \<and> length (index_roots c) < 2 ^ 16
     \<and> (\<forall>e \<in> set (index_roots c). ok_index_root e)"

section \<open>Index root entries\<close>

definition index_root_bytes :: "string \<times> hash \<Rightarrow> bytes" where
  "index_root_bytes e =
     le_nat 2 (unat (of_nat (length (fst e)) :: u16)) @ as_bytes_str (fst e) @ as_bytes (snd e)"

lemma enc_buf_write_index_root [simp]:
  "enc_buf (write_index_root e enc) = enc_buf enc @ index_root_bytes e"
  by (simp add: write_index_root_def index_root_bytes_def split: prod.splits)

lemma enc_buf_write_index_roots [simp]:
  "enc_buf (writes (map write_index_root es) enc) = enc_buf enc @ concat (map index_root_bytes es)"
  by (induction es arbitrary: enc) simp_all

lemma unat_u16_len: "n < 2 ^ 16 \<Longrightarrow> unat (of_nat n :: u16) = n"
  by (simp add: unat_of_nat)

lemma unat_u8_len: "n < 2 ^ 8 \<Longrightarrow> unat (of_nat n :: u8) = n"
  by (simp add: unat_of_nat)

lemma unat_u16_less: "unat (w :: u16) < 2 ^ 16"
  using unsigned_less [where ?w = w] by simp

interpretation idxc: codec index_root_bytes read_index_root ok_index_root
proof
  fix x d rest
  assume ok: "ok_index_root x" and at: "dec_at d (index_root_bytes x @ rest)"
  obtain name h where x: "x = (name, h)" by (cases x)
  define n where "n = (of_nat (length name) :: u16)"
  have n: "unat n = length name" and valid: "valid_str name"
    using ok by (simp_all add: x n_def ok_index_root_def unat_u16_len)
  have at0: "dec_at d (le_nat 2 (unat n) @ as_bytes_str name @ as_bytes h @ rest)"
    using at by (simp add: x n_def index_root_bytes_def)
  note r0 = u16c.rd_wr [OF TrueI at0, simplified]
    and at1 = dec_at_advance [OF at0, of 2, simplified]
  note r1 = read_slice_ok [OF at1, of "unat n"] and at2 = dec_at_advance [OF at1, of "unat n"]
  have r2: "read_hash (advance (unat n) (advance 2 d)) =
      Inr (h, advance 32 (advance (unat n) (advance 2 d)))"
    using hashc.rd_wr [OF TrueI at2] n by simp
  show "read_index_root d = Inr (x, advance (length (index_root_bytes x)) d)"
    using r0 r1 r2 n valid
    by (simp add: read_index_root_def x index_root_bytes_def) (simp add: advance_def)
next
  fix d bs x d'
  assume at: "dec_at d bs" and rd: "read_index_root d = Inr (x, d')"
  from rd obtain n d1 nb d2 name h where
    r0: "read_u16 d = Inr (n, d1)" and r1: "read_slice (unat n) d1 = Inr (nb, d2)"
    and nm: "from_utf8 nb = Inr name" and r2: "read_hash d2 = Inr (h, d')" and x: "x = (name, h)"
    by (auto simp: read_index_root_def result_simps split: prod.splits)
  from u16c.rd_sound [OF at r0] obtain b1 where
    1: "bs = le_nat 2 (unat n) @ b1" "d1 = advance 2 d" by auto
  then have at1: "dec_at d1 b1"
    using dec_at_advance [of d "le_nat 2 (unat n)" b1] at by simp
  from r1 have 2: "unat n \<le> length b1" "nb = take (unat n) b1" "d2 = advance (unat n) d1"
    by (simp_all add: read_slice_Inr [OF at1])
  then have at2: "dec_at d2 (drop (unat n) b1)"
    using dec_at_take [OF at1] by simp
  from hashc.rd_sound [OF at2 r2] obtain b3 where
    3: "drop (unat n) b1 = as_bytes h @ b3" "d' = advance 32 d2" by auto
  have name: "valid_str name" "nb = as_bytes_str name"
    using from_utf8_Inr [OF nm] by simp_all
  then have len: "length name = unat n"
    using 2 by (metis length_as_bytes_str length_take min.absorb2)
  have "b1 = as_bytes_str name @ as_bytes h @ b3"
    using 2 3 name append_take_drop_id [of "unat n" b1] by simp
  moreover have "d' = advance (length (index_root_bytes x)) d"
    using 1 2 3 len by (simp add: advance_def x index_root_bytes_def)
  ultimately show "ok_index_root x \<and>
      (\<exists>rest. bs = index_root_bytes x @ rest \<and> d' = advance (length (index_root_bytes x)) d)"
    using 1 name len unat_u16_less [of n]
    by (simp add: x ok_index_root_def index_root_bytes_def)
next
  fix d bs e
  assume at: "dec_at d bs" and rd: "read_index_root d = Inl e"
  then show "\<exists>m. e = Err (Codec m)"
    by (auto simp: read_index_root_def result_simps map_err_eq_Inl read_u16_def read_hash_def
        read_slice_def split: if_splits prod.splits)
qed

lemma read_index_roots_many:
  "read_index_roots n m d =
     try_res (read_many read_index_root n d) (\<lambda>(es, d).
       Inr (fold (\<lambda>(k, v). bt_insert k v) es m, d))"
proof (induction n arbitrary: m d)
  case 0
  then show ?case by simp
next
  case (Suc n)
  show ?case
    by (cases "read_index_root d") (auto simp: Suc try_res_assoc case_prod_beta)
qed

lemma fold_bt_insert_sorted:
  "sorted_map (m @ es) \<Longrightarrow> fold (\<lambda>(k, v). bt_insert k v) es m = m @ es"
proof (induction es arbitrary: m)
  case Nil
  then show ?case by simp
next
  case (Cons e es)
  obtain k v where e: "e = (k, v)" by (cases e)
  have "\<forall>k' \<in> fst ` set m. k' < k"
    using Cons.prems by (auto simp: sorted_map_def sorted_wrt_append e)
  then have "bt_insert k v m = m @ [e]"
    by (simp add: bt_insert_last e)
  then show ?case
    using Cons.IH [of "m @ [e]"] Cons.prems by (simp add: e)
qed

lemma sorted_map_fold_bt_insert:
  "sorted_map m \<Longrightarrow> sorted_map (fold (\<lambda>(k, v). bt_insert k v) es m)"
  by (induction es arbitrary: m) (auto split: prod.splits)

lemma set_bt_insert: "set (bt_insert k v m) \<subseteq> insert (k, v) (set m)"
  by (induction m) (auto split: if_splits)

lemma length_bt_insert: "length (bt_insert k v m) \<le> Suc (length m)"
  by (induction m) auto

lemma set_fold_bt_insert: "set (fold (\<lambda>(k, v). bt_insert k v) es m) \<subseteq> set es \<union> set m"
proof (induction es arbitrary: m)
  case (Cons e es)
  have "set (bt_insert (fst e) (snd e) m) \<subseteq> insert e (set m)"
    using set_bt_insert [of "fst e" "snd e" m] by simp
  then show ?case
    using Cons.IH [of "bt_insert (fst e) (snd e) m"] by (simp add: case_prod_beta) blast
qed simp

lemma length_fold_bt_insert:
  "length (fold (\<lambda>(k, v). bt_insert k v) es m) \<le> length es + length m"
proof (induction es arbitrary: m)
  case (Cons e es)
  show ?case
    using Cons.IH [of "bt_insert (fst e) (snd e) m"] length_bt_insert [of "fst e" "snd e" m]
    by (simp add: case_prod_beta)
qed simp

section \<open>Round trip\<close>

definition commit_tail :: "Commit \<Rightarrow> bytes" where
  "commit_tail c =
     as_bytes (root_hamt c) @ le_nat 8 (unat (timestamp c))
     @ le_nat 2 (unat (of_nat (length (message c)) :: u16)) @ as_bytes_str (message c)"

lemma encode_payload_eq:
  "encode_payload c =
     [COMMIT_VERSION] @ [of_nat (length (parents c))] @ concat (map as_bytes (parents c))
     @ commit_tail c @ le_nat 2 (unat (of_nat (length (index_roots c)) :: u16))
     @ concat (map index_root_bytes (index_roots c))"
  by (simp add: encode_payload_def encoded_def commit_tail_def)

text \<open>Reading the fields both versions share, up to the end of the message.\<close>

definition read_commit_head ::
  "ByteDecoder \<Rightarrow> ((hash list \<times> hash \<times> u64 \<times> string) \<times> ByteDecoder) res" where
  "read_commit_head dec =
     try_res (read_u8 dec) (\<lambda>(parent_count, dec).
     try_res (read_many read_hash (unat parent_count) dec) (\<lambda>(ps, dec).
     try_res (read_hash dec) (\<lambda>(root, dec).
     try_res (read_u64 dec) (\<lambda>(ts, dec).
     try_res (read_u16 dec) (\<lambda>(msg_len, dec).
     try_res (read_slice (unat msg_len) dec) (\<lambda>(msg_bytes, dec).
     try_res (map_err (\<lambda>e. Err (Codec (''commit message not valid utf-8: '' @ e)))
         (from_utf8 msg_bytes)) (\<lambda>msg. Inr ((ps, root, ts, msg), dec))))))))"

definition read_commit_indexes ::
  "u8 \<Rightarrow> ByteDecoder \<Rightarrow> ((string \<times> hash) list \<times> ByteDecoder) res" where
  "read_commit_indexes version dec =
     (if version \<ge> COMMIT_VERSION
      then try_res (read_u16 dec) (\<lambda>(count, dec). read_index_roots (unat count) [] dec)
      else Inr ([], dec))"

lemma decode_payload_head:
  "decode_payload buf =
     try_res (read_u8 (dec_new buf)) (\<lambda>(version, dec).
     if version \<noteq> COMMIT_VERSION \<and> version \<noteq> COMMIT_VERSION_V1
     then Inl (Err (Codec (''unsupported commit version: '' @ show_nat (unat version))))
     else try_res (read_commit_head dec) (\<lambda>((ps, root, ts, msg), dec).
       try_res (read_commit_indexes version dec) (\<lambda>(idx, dec).
       Inr \<lparr>parents = ps, root_hamt = root, timestamp = ts, message = msg, index_roots = idx\<rparr>)))"
  unfolding decode_payload_def read_commit_head_def read_commit_indexes_def try_res_assoc split_def
    try_res_simps fst_conv snd_conv by (rule refl)

lemma read_commit_head_ok:
  assumes np: "length (parents c) < 2 ^ 8" and msg: "valid_str (message c)" "length (message c) < 2 ^ 16"
    and at: "dec_at d ([of_nat (length (parents c))] @ concat (map as_bytes (parents c))
        @ commit_tail c @ rest)"
  shows "\<exists>d'. read_commit_head d = Inr ((parents c, root_hamt c, timestamp c, message c), d')
      \<and> dec_at d' rest"
proof -
  define n where "n = (of_nat (length (message c)) :: u16)"
  have n: "unat n = length (message c)"
    using msg by (simp add: n_def unat_u16_len)
  obtain d1 where r1: "read_u8 d = Inr (of_nat (length (parents c)), d1)"
    and at1: "dec_at d1 (concat (map as_bytes (parents c)) @ commit_tail c @ rest)"
    using u8c.rd_wr_at [OF TrueI at] by auto
  obtain d2 where r2: "read_many read_hash (length (parents c)) d1 = Inr (parents c, d2)"
    and "dec_at d2 (commit_tail c @ rest)"
    using hashc.read_many_wr [OF _ at1] by auto
  then have at2: "dec_at d2 (as_bytes (root_hamt c) @ le_nat 8 (unat (timestamp c))
      @ le_nat 2 (unat n) @ as_bytes_str (message c) @ rest)"
    by (simp add: commit_tail_def n_def)
  obtain d3 where r3: "read_hash d2 = Inr (root_hamt c, d3)" and at3: "dec_at d3 (le_nat 8 (unat (timestamp c))
      @ le_nat 2 (unat n) @ as_bytes_str (message c) @ rest)"
    using hashc.rd_wr_at [OF TrueI at2] by auto
  obtain d4 where r4: "read_u64 d3 = Inr (timestamp c, d4)"
    and at4: "dec_at d4 (le_nat 2 (unat n) @ as_bytes_str (message c) @ rest)"
    using u64c.rd_wr_at [OF TrueI at3] by auto
  obtain d5 where r5: "read_u16 d4 = Inr (n, d5)"
    and at5: "dec_at d5 (as_bytes_str (message c) @ rest)"
    using u16c.rd_wr_at [OF TrueI at4] by auto
  have r6: "read_slice (unat n) d5 = Inr (as_bytes_str (message c), advance (unat n) d5)"
    and at6: "dec_at (advance (unat n) d5) rest"
    using read_slice_ok [OF at5] dec_at_advance [OF at5] n by simp_all
  show ?thesis
    using r1 r2 r3 r4 r5 r6 at6 np msg(1) by (simp add: read_commit_head_def unat_u8_len)
qed

lemma read_commit_head_sound:
  assumes at: "dec_at d bs" and rd: "read_commit_head d = Inr ((ps, root, ts, msg), d')"
  shows "length ps < 2 ^ 8 \<and> valid_str msg \<and> length msg < 2 ^ 16 \<and> (\<exists>rest. dec_at d' rest)"
proof -
  from rd obtain n d1 d2 d3 d4 m d5 mb where
    r1: "read_u8 d = Inr (n, d1)" and r2: "read_many read_hash (unat n) d1 = Inr (ps, d2)"
    and r3: "read_hash d2 = Inr (root, d3)" and r4: "read_u64 d3 = Inr (ts, d4)"
    and r5: "read_u16 d4 = Inr (m, d5)" and r6: "read_slice (unat m) d5 = Inr (mb, d')"
    and r7: "from_utf8 mb = Inr msg"
    by (auto simp: read_commit_head_def result_simps split: prod.splits)
  from u8c.rd_sound_at [OF at r1] obtain b1 where "dec_at d1 b1" by blast
  from hashc.read_many_sound [OF this r2] obtain b2 where
    ps: "length ps = unat n" and "dec_at d2 b2" by blast
  from hashc.rd_sound_at [OF this(2) r3] obtain b3 where "dec_at d3 b3" by blast
  from u64c.rd_sound_at [OF this r4] obtain b4 where "dec_at d4 b4" by blast
  from u16c.rd_sound_at [OF this r5] obtain b5 where at5: "dec_at d5 b5" by blast
  from r6 have 6: "unat m \<le> length b5" "mb = take (unat m) b5" "d' = advance (unat m) d5"
    by (simp_all add: read_slice_Inr [OF at5])
  have msg: "valid_str msg" "length msg = unat m"
    using from_utf8_Inr [OF r7] 6 by (metis length_as_bytes_str length_take min.absorb2)+
  show ?thesis
    using ps msg unat_u8_less [of n] unat_u16_less [of m] dec_at_take [OF at5 6(1)] 6(3) by auto
qed

lemma decode_encode_payload:
  assumes "wf_commit c"
  shows "decode_payload (encode_payload c) = Inr c"
proof -
  define k where "k = (of_nat (length (index_roots c)) :: u16)"
  have k: "unat k = length (index_roots c)"
    using assms by (simp add: k_def wf_commit_def unat_u16_len)
  define idx where "idx = concat (map index_root_bytes (index_roots c))"
  have at0: "dec_at (dec_new (encode_payload c)) ([COMMIT_VERSION] @ [of_nat (length (parents c))]
      @ concat (map as_bytes (parents c)) @ commit_tail c @ le_nat 2 (unat k) @ idx)"
    by (simp add: encode_payload_eq k_def idx_def dec_at_new_iff)
  obtain d1 where r1: "read_u8 (dec_new (encode_payload c)) = Inr (COMMIT_VERSION, d1)"
    and at1: "dec_at d1 ([of_nat (length (parents c))]
      @ concat (map as_bytes (parents c)) @ commit_tail c @ le_nat 2 (unat k) @ idx)"
    using u8c.rd_wr_at [OF TrueI at0] by auto
  obtain d2 where r2: "read_commit_head d1 = Inr ((parents c, root_hamt c, timestamp c, message c), d2)"
    and at2: "dec_at d2 (le_nat 2 (unat k) @ idx)"
    using read_commit_head_ok [OF _ _ _ at1] assms by (auto simp: wf_commit_def)
  obtain d3 where r3: "read_u16 d2 = Inr (k, d3)" and at3: "dec_at d3 (idx @ [])"
    using u16c.rd_wr_at [OF TrueI at2] by auto
  obtain d4 where r4: "read_many read_index_root (length (index_roots c)) d3 = Inr (index_roots c, d4)"
    using idxc.read_many_wr [OF _ at3 [unfolded idx_def]] assms by (auto simp: wf_commit_def)
  have "fold (\<lambda>(k, v). bt_insert k v) (index_roots c) [] = index_roots c"
    using fold_bt_insert_sorted [of "[]" "index_roots c"] assms by (simp add: wf_commit_def)
  then show ?thesis
    using r1 r2 r3 r4 k by (simp add: decode_payload_head read_commit_indexes_def read_index_roots_many)
qed

lemma decode_payload_wf:
  assumes "decode_payload buf = Inr c"
  shows "wf_commit c"
proof -
  have at0: "dec_at (dec_new buf) buf" by simp
  from assms obtain v d1 ps root ts msg d2 idx d3 where
    r1: "read_u8 (dec_new buf) = Inr (v, d1)"
    and r2: "read_commit_head d1 = Inr ((ps, root, ts, msg), d2)"
    and r3: "read_commit_indexes v d2 = Inr (idx, d3)"
    and c: "c = \<lparr>parents = ps, root_hamt = root, timestamp = ts, message = msg, index_roots = idx\<rparr>"
    by (auto simp: decode_payload_head result_simps split: if_splits prod.splits)
  from u8c.rd_sound_at [OF at0 r1] obtain b1 where "dec_at d1 b1" by blast
  from read_commit_head_sound [OF this r2] obtain b2 where
    head: "length ps < 2 ^ 8" "valid_str msg" "length msg < 2 ^ 16" and at2: "dec_at d2 b2" by blast
  have "sorted_map idx \<and> length idx < 2 ^ 16 \<and> (\<forall>e \<in> set idx. ok_index_root e)"
  proof (cases "v \<ge> COMMIT_VERSION")
    case False
    with r3 show ?thesis by (simp add: read_commit_indexes_def)
  next
    case True
    with r3 obtain n d' es where r: "read_u16 d2 = Inr (n, d')"
      "read_many read_index_root (unat n) d' = Inr (es, d3)"
      and idx: "idx = fold (\<lambda>(k, v). bt_insert k v) es []"
      by (auto simp: read_commit_indexes_def result_simps read_index_roots_many split: prod.splits)
    from u16c.rd_sound_at [OF at2 r(1)] obtain b3 where "dec_at d' b3" by blast
    from idxc.read_many_sound [OF this r(2)]
    have es: "length es = unat n" "\<forall>e \<in> set es. ok_index_root e" by simp_all
    show ?thesis
      using es sorted_map_fold_bt_insert [of "[]" es] set_fold_bt_insert [of es "[]"]
        length_fold_bt_insert [of es "[]"] unat_u16_less [of n]
      by (auto simp: idx)
  qed
  with head show ?thesis
    by (simp add: c wf_commit_def)
qed

lemma decode_v1:
  assumes "length ps < 2 ^ 8" "valid_str msg" "length msg < 2 ^ 16"
  shows "decode_payload
     ([COMMIT_VERSION_V1] @ [of_nat (length ps)] @ concat (map as_bytes ps)
        @ commit_tail (commit_new ps root ts msg) @ rest) = Inr (commit_new ps root ts msg)"
proof -
  define c where "c = commit_new ps root ts msg"
  define buf where "buf = [COMMIT_VERSION_V1] @ [of_nat (length ps)] @ concat (map as_bytes ps)
      @ commit_tail c @ rest"
  have at0: "dec_at (dec_new buf) ([COMMIT_VERSION_V1] @ [of_nat (length (parents c))]
      @ concat (map as_bytes (parents c)) @ commit_tail c @ rest)"
    by (simp add: buf_def c_def commit_new_def)
  obtain d1 where r1: "read_u8 (dec_new buf) = Inr (COMMIT_VERSION_V1, d1)"
    and at1: "dec_at d1 ([of_nat (length (parents c))]
      @ concat (map as_bytes (parents c)) @ commit_tail c @ rest)"
    using u8c.rd_wr_at [OF TrueI at0] by auto
  obtain d2 where r2: "read_commit_head d1 = Inr ((parents c, root_hamt c, timestamp c, message c), d2)"
    using read_commit_head_ok [OF _ _ _ at1] assms by (auto simp: c_def commit_new_def)
  have "\<not> COMMIT_VERSION \<le> COMMIT_VERSION_V1"
    by (simp add: COMMIT_VERSION_def COMMIT_VERSION_V1_def word_le_nat_alt)
  then have "decode_payload buf = Inr c"
    using r1 r2 by (simp add: decode_payload_head read_commit_indexes_def c_def commit_new_def)
  then show ?thesis
    by (simp add: buf_def c_def)
qed

lemma encode_payload_inj:
  "wf_commit c \<Longrightarrow> wf_commit c' \<Longrightarrow> encode_payload c = encode_payload c' \<Longrightarrow> c = c'"
  by (metis decode_encode_payload sum.inject(2))

section \<open>Properties\<close>

text \<open>
  C36: decoding an encoded commit returns it if and only if every part fits its length field: at most
  255 parents, a message and index names of at most 65535 bytes, at most 65535 index roots in name
  order. Beyond these bounds the encoder silently truncates the counts.
\<close>

theorem commit_roundtrip_iff: "decode_payload (encode_payload c) = Inr c \<longleftrightarrow> wf_commit c"
  using decode_encode_payload decode_payload_wf by blast

text \<open>Version 1 payloads decode to the commit without index roots.\<close>

theorem commit_v1_compat:
  assumes "length ps < 2 ^ 8" "valid_str msg" "length msg < 2 ^ 16"
  shows "decode_payload
     ([COMMIT_VERSION_V1] @ [of_nat (length ps)] @ concat (map as_bytes ps)
        @ commit_tail (commit_new ps root ts msg) @ rest) = Inr (commit_new ps root ts msg)"
  using assms by (rule decode_v1)

theorem commit_v1_compat_witness:
  "decode_payload
     ([COMMIT_VERSION_V1] @ [of_nat (length [ZERO])] @ concat (map as_bytes [ZERO])
        @ commit_tail (commit_new [ZERO] ZERO 5 ''hi'') @ []) = Inr (commit_new [ZERO] ZERO 5 ''hi'')"
  by (rule commit_v1_compat) (simp, code_simp, simp)

end
