(* ===== verification/Cas_Index.thy ===== *)
theory Cas_Index
  imports Fs Cache Records Commits
begin

text \<open>
  The hash index (\<open>epochs-core/src/cas/index.rs\<close>): fixed 44-byte entries appended to a file and kept
  in a map. Loading the file of an index gives back the map; bytes after the last whole entry are
  ignored when loading, and are not removed.
\<close>

section \<open>The code\<close>

definition INDEX_ENTRY_LEN :: nat where
  "INDEX_ENTRY_LEN = 44"

record IndexEntry =
  segment_id :: u16
  offset :: u64
  record_len :: u32

record Index =
  idx_file :: path
  idx_entries :: "(hash \<times> IndexEntry) list"

definition encode_entry :: "hash \<Rightarrow> IndexEntry \<Rightarrow> bytes" where
  "encode_entry h e =
     enc_buf (writes [write_hash h, write_u16 (segment_id e), write_u48 (offset e),
       write_u32 (record_len e)] enc_new)"

definition decode_entry :: "bytes \<Rightarrow> (hash \<times> IndexEntry) res" where
  "decode_entry buf =
     try_res (read_hash (dec_new buf)) (\<lambda>(h, dec).
     try_res (read_u16 dec) (\<lambda>(sid, dec).
     try_res (read_u48 dec) (\<lambda>(off, dec).
     try_res (read_u32 dec) (\<lambda>(rlen, dec).
     Inr (h, \<lparr>segment_id = sid, offset = off, record_len = rlen\<rparr>)))))"

function load_entries :: "bytes \<Rightarrow> (hash \<times> IndexEntry) list \<Rightarrow> ((hash \<times> IndexEntry) list) res" where
  "load_entries buf es =
     (if INDEX_ENTRY_LEN \<le> length buf
      then try_res (decode_entry (take INDEX_ENTRY_LEN buf)) (\<lambda>(h, e).
           load_entries (drop INDEX_ENTRY_LEN buf) (AList.update h e es))
      else Inr es)"
  by pat_completeness auto
termination
  by (relation "measure (\<lambda>(buf, es). length buf)") (auto simp: INDEX_ENTRY_LEN_def)

declare load_entries.simps [simp del]

definition index_open :: "path \<Rightarrow> (Fs, Index) op" where
  "index_open p =
     try_st (create_dir_all (butlast p)) (\<lambda>_.
     try_st (fs_open_append p) (\<lambda>_ fs.
     (try_res (fs_read p fs) (\<lambda>buf.
      try_res (load_entries buf []) (\<lambda>es.
      Inr \<lparr>idx_file = p, idx_entries = es\<rparr>)), fs)))"

definition index_get :: "Index \<Rightarrow> hash \<Rightarrow> IndexEntry option" where
  "index_get idx h = map_of (idx_entries idx) h"

definition index_contains :: "Index \<Rightarrow> hash \<Rightarrow> bool" where
  "index_contains idx h \<longleftrightarrow> map_of (idx_entries idx) h \<noteq> None"

definition index_insert :: "hash \<Rightarrow> IndexEntry \<Rightarrow> Index \<times> Fs \<Rightarrow> Index \<times> Fs" where
  "index_insert h e =
     (\<lambda>(idx, fs).
        if map_of (idx_entries idx) h \<noteq> None then (idx, fs)
        else (idx\<lparr>idx_entries := AList.update h e (idx_entries idx)\<rparr>,
              fs_append (idx_file idx) (encode_entry h e) fs))"

definition index_flush :: "Index \<times> Fs \<Rightarrow> Fs" where
  "index_flush = (\<lambda>(idx, fs). fs_sync (idx_file idx) fs)"

definition index_hashes :: "Index \<Rightarrow> hash list" where
  "index_hashes idx = map fst (idx_entries idx)"

definition ascii_lower :: "char \<Rightarrow> char" where
  "ascii_lower c = (let n = of_char c :: nat in if 65 \<le> n \<and> n \<le> 90 then char_of (n + 32) else c)"

definition starts_with :: "string \<Rightarrow> string \<Rightarrow> bool" where
  "starts_with s prefix \<longleftrightarrow> take (length prefix) s = prefix"

definition index_find_by_prefix :: "Index \<Rightarrow> string \<Rightarrow> hash list" where
  "index_find_by_prefix idx prefix =
     filter (\<lambda>h. starts_with (to_string h) (map ascii_lower prefix)) (map fst (idx_entries idx))"

section \<open>Entries\<close>

definition ok_entry :: "IndexEntry \<Rightarrow> bool" where
  "ok_entry e \<longleftrightarrow> unat (offset e) < 2 ^ 48"

lemma encode_entry_eq:
  "encode_entry h e =
     as_bytes h @ le_nat 2 (unat (segment_id e)) @ le_u48 (offset e) @ le_nat 4 (unat (record_len e))"
  by (simp add: encode_entry_def enc_new_def)

lemma length_encode_entry [simp]: "length (encode_entry h e) = 44"
  by (simp add: encode_entry_eq le_u48_eq)

lemma decode_encode_entry:
  assumes "ok_entry e"
  shows "decode_entry (encode_entry h e) = Inr (h, e)"
proof -
  have at: "dec_at (dec_new (encode_entry h e))
      (as_bytes h @ le_nat 2 (unat (segment_id e)) @ le_u48 (offset e) @ le_nat 4 (unat (record_len e)) @ [])"
    by (simp add: dec_at_new_iff encode_entry_eq)
  obtain d1 where r1: "read_hash (dec_new (encode_entry h e)) = Inr (h, d1)"
    and at1: "dec_at d1 (le_nat 2 (unat (segment_id e)) @ le_u48 (offset e) @ le_nat 4 (unat (record_len e)) @ [])"
    using hashc.rd_wr_at [OF TrueI at] by auto
  obtain d2 where r2: "read_u16 d1 = Inr (segment_id e, d2)"
    and at2: "dec_at d2 (le_u48 (offset e) @ le_nat 4 (unat (record_len e)) @ [])"
    using u16c.rd_wr_at [OF TrueI at1] by auto
  obtain d3 where r3: "read_u48 d2 = Inr (offset e, d3)"
    and at3: "dec_at d3 (le_nat 4 (unat (record_len e)) @ [])"
    using u48c.rd_wr_at [OF _ at2] assms by (auto simp: ok_entry_def)
  obtain d4 where "read_u32 d3 = Inr (record_len e, d4)"
    using u32c.rd_wr_at [OF TrueI at3] by auto
  with r1 r2 r3 show ?thesis
    by (simp add: decode_entry_def)
qed

section \<open>Loading\<close>

definition index_bytes :: "(hash \<times> IndexEntry) list \<Rightarrow> bytes" where
  "index_bytes es = concat (map (\<lambda>(h, e). encode_entry h e) es)"

lemma load_entries_append:
  assumes "\<forall>(h, e) \<in> set es. ok_entry e"
  shows "load_entries (index_bytes es @ rest) acc = load_entries rest (fold (\<lambda>(h, e). AList.update h e) es acc)"
  using assms
proof (induction es arbitrary: acc)
  case Nil
  then show ?case by (simp add: index_bytes_def)
next
  case (Cons he es)
  obtain h e where he: "he = (h, e)" by (cases he)
  with Cons.prems have ok: "ok_entry e" by simp
  have "load_entries (encode_entry h e @ index_bytes es @ rest) acc =
      load_entries (index_bytes es @ rest) (AList.update h e acc)"
    by (subst load_entries.simps) (simp add: INDEX_ENTRY_LEN_def decode_encode_entry [OF ok])
  then show ?case
    using Cons by (simp add: he index_bytes_def)
qed

lemma load_entries_short: "length buf < INDEX_ENTRY_LEN \<Longrightarrow> load_entries buf acc = Inr acc"
  by (subst load_entries.simps) simp

lemma fold_update_distinct:
  "distinct (map fst (acc @ es)) \<Longrightarrow> fold (\<lambda>(h, e). AList.update h e) es acc = acc @ es"
proof (induction es arbitrary: acc)
  case Nil
  then show ?case by simp
next
  case (Cons he es)
  obtain h e where he: "he = (h, e)" by (cases he)
  with Cons.prems have "h \<notin> fst ` set acc" by auto
  then have "AList.update h e acc = acc @ [he]"
    by (simp add: he update_fresh map_of_eq_None_iff)
  then show ?case
    using Cons.IH [of "acc @ [he]"] Cons.prems by (simp add: he)
qed

lemma load_index_bytes:
  assumes "wf_map es" "\<forall>(h, e) \<in> set es. ok_entry e" "length rest < INDEX_ENTRY_LEN"
  shows "load_entries (index_bytes es @ rest) [] = Inr es"
  using load_entries_append [OF assms(2), of rest "[]"] load_entries_short [OF assms(3)]
    fold_update_distinct [of "[]" es] assms(1)
  by (simp add: wf_map_def)

section \<open>The index and its file\<close>

text \<open>The file holds the entries in the order they were inserted.\<close>

definition index_ok :: "Index \<times> Fs \<Rightarrow> bool" where
  "index_ok = (\<lambda>(idx, fs).
     wf_map (idx_entries idx) \<and> (\<forall>(h, e) \<in> set (idx_entries idx). ok_entry e)
     \<and> fs_get fs (idx_file idx) = Some (File (index_bytes (idx_entries idx))))"

lemma index_insert_ok:
  assumes "index_ok (idx, fs)" "ok_entry e"
  shows "index_ok (index_insert h e (idx, fs))"
proof (cases "map_of (idx_entries idx) h")
  case None
  then have "AList.update h e (idx_entries idx) = idx_entries idx @ [(h, e)]"
    by (simp add: update_fresh map_of_eq_None_iff)
  with None assms show ?thesis
    by (auto simp: index_ok_def index_insert_def fs_get_append wf_map_def index_bytes_def map_of_eq_None_iff)
next
  case (Some e')
  with assms show ?thesis by (simp add: index_insert_def)
qed

lemma create_dirs_existing:
  "\<forall>n \<le> length p. fs_get fs (q @ take n p) = Some Dir \<Longrightarrow> create_dirs q p fs = (Inr (), fs)"
proof (induction p arbitrary: q)
  case Nil
  then show ?case by simp
next
  case (Cons c cs)
  have "fs_get fs (q @ [c]) = Some Dir"
    using Cons.prems [rule_format, of 1] by simp
  moreover have "create_dirs (q @ [c]) cs fs = (Inr (), fs)"
    using Cons.prems [rule_format, of "Suc _"] by (intro Cons.IH) simp
  ultimately show ?case by simp
qed

definition is_dir_path :: "Fs \<Rightarrow> path \<Rightarrow> bool" where
  "is_dir_path fs p \<longleftrightarrow> (\<forall>n \<le> length p. fs_get fs (take n p) = Some Dir)"

lemma create_dir_all_existing: "is_dir_path fs p \<Longrightarrow> create_dir_all p fs = (Inr (), fs)"
  using create_dirs_existing [of p fs "[]"] by (simp add: create_dir_all_def is_dir_path_def)

lemma take_butlast_neq: "p \<noteq> [] \<Longrightarrow> take n (butlast p) \<noteq> p"
proof
  assume ne: "p \<noteq> []" and eq: "take n (butlast p) = p"
  from ne have "length (take n (butlast p)) < length p"
    by (simp add: min_less_iff_disj)
  then show False
    unfolding eq by simp
qed

text \<open>Opening the file of an index again gives the same index.\<close>

lemma index_open_ok:
  assumes "index_ok (idx, fs)" "is_dir_path fs (butlast (idx_file idx))"
  shows "index_open (idx_file idx) fs = (Inr idx, fs)"
proof -
  have "load_entries (index_bytes (idx_entries idx)) [] = Inr (idx_entries idx)"
    using load_index_bytes [of "idx_entries idx" "[]"] assms(1)
    by (simp add: index_ok_def INDEX_ENTRY_LEN_def)
  then show ?thesis
    using assms create_dir_all_existing [OF assms(2)]
    by (simp add: index_open_def index_ok_def fs_open_append_def fs_read_def try_st_def)
qed

section \<open>Torn files\<close>

lemma decode_entry_any:
  assumes "length buf = 44"
  shows "\<exists>e. decode_entry buf = Inr (from_bytes (take 32 buf), e)"
proof -
  have at: "dec_at (dec_new buf) buf" by simp
  have r1: "read_hash (dec_new buf) = Inr (from_bytes (take 32 buf), advance 32 (dec_new buf))"
    using assms by (simp add: read_hash_def read_slice_at [OF at])
  have at1: "dec_at (advance 32 (dec_new buf)) (drop 32 buf)"
    using dec_at_take [OF at] assms by simp
  have r2: "\<exists>s. read_u16 (advance 32 (dec_new buf)) = Inr (s, advance 2 (advance 32 (dec_new buf)))"
    using assms by (simp add: read_u16_def read_slice_at [OF at1])
  have at2: "dec_at (advance 2 (advance 32 (dec_new buf))) (drop 34 buf)"
    using dec_at_take [OF at1, of 2] assms by simp
  have r3: "\<exists>s. read_u48 (advance 2 (advance 32 (dec_new buf))) =
      Inr (s, advance 6 (advance 2 (advance 32 (dec_new buf))))"
    using assms by (simp add: read_u48_def read_slice_at [OF at2])
  have at3: "dec_at (advance 6 (advance 2 (advance 32 (dec_new buf)))) (drop 40 buf)"
    using dec_at_take [OF at2, of 6] assms by simp
  have r4: "\<exists>s d. read_u32 (advance 6 (advance 2 (advance 32 (dec_new buf)))) = Inr (s, d)"
    using assms by (simp add: read_u32_def read_slice_at [OF at3])
  show ?thesis
    using r1 r2 r3 r4 by (auto simp: decode_entry_def)
qed

text \<open>
  A partial entry in front of an entry: the first 44 bytes decode as an entry under another hash, and
  the rest is again partial.
\<close>

lemma load_entries_shifted:
  assumes "junk \<noteq> []" "length junk < INDEX_ENTRY_LEN"
  shows "\<exists>e'. load_entries (junk @ encode_entry h e) acc =
    Inr (AList.update (from_bytes (take 32 (junk @ as_bytes h))) e' acc)"
proof -
  let ?buf = "take 44 (junk @ encode_entry h e)"
  have "0 < length junk"
    using assms(1) by simp
  then have "take 32 ?buf = take 32 (junk @ as_bytes h)"
    by (simp add: encode_entry_eq min_def)
  then obtain e' where e': "decode_entry ?buf = Inr (from_bytes (take 32 (junk @ as_bytes h)), e')"
    using decode_entry_any [of ?buf] \<open>0 < length junk\<close> by (auto simp: min_def simp del: take_append)
  have "load_entries (junk @ encode_entry h e) acc = load_entries (drop 44 (junk @ encode_entry h e))
      (AList.update (from_bytes (take 32 (junk @ as_bytes h))) e' acc)"
    by (subst load_entries.simps) (simp add: INDEX_ENTRY_LEN_def e' del: take_append drop_append)
  also have "\<dots> = Inr (AList.update (from_bytes (take 32 (junk @ as_bytes h))) e' acc)"
    using assms(2) by (intro load_entries_short) (simp add: INDEX_ENTRY_LEN_def)
  finally show ?thesis ..
qed

lemma index_open_file:
  assumes "fs_get fs p = Some (File buf)" "is_dir_path fs (butlast p)" "load_entries buf [] = Inr es"
  shows "index_open p fs = (Inr \<lparr>idx_file = p, idx_entries = es\<rparr>, fs)"
  using assms create_dir_all_existing [OF assms(2)]
  by (simp add: index_open_def fs_open_append_def fs_read_def try_st_def)

lemma is_dir_path_append_file:
  assumes "fs_get fs p = Some (File c)" "is_dir_path fs (butlast p)"
  shows "is_dir_path (fs_append p b fs) (butlast p)"
  using assms by (simp add: is_dir_path_def fs_get_append)

section \<open>Properties\<close>

text \<open>
  An index can be reopened at any moment: after inserting an entry whose offset fits 48 bits,
  loading the file gives exactly the map in memory.
\<close>

theorem index_reopen:
  assumes "index_ok (idx, fs)" "ok_entry e" "is_dir_path fs (butlast (idx_file idx))" "idx_file idx \<noteq> []"
    and "index_insert h e (idx, fs) = (idx', fs')"
  shows "index_open (idx_file idx) fs' = (Inr idx', fs')
    \<and> index_get idx' = (if index_contains idx h then index_get idx else (index_get idx)(h \<mapsto> e))"
proof -
  have ok: "index_ok (idx', fs')"
    using index_insert_ok [OF assms(1,2), of h] assms(5) by simp
  have same: "idx_file idx' = idx_file idx"
    using assms(5) by (auto simp: index_insert_def split: if_splits)
  have "fs_get fs' q = fs_get fs q" if "q \<noteq> idx_file idx" for q
    using assms(5) that by (auto simp: index_insert_def fs_get_append split: if_splits option.splits node.splits)
  moreover have "take n (butlast (idx_file idx)) \<noteq> idx_file idx" for n
    by (rule take_butlast_neq [OF assms(4)])
  ultimately have "is_dir_path fs' (butlast (idx_file idx'))"
    using assms(3) by (simp add: is_dir_path_def same)
  then have "index_open (idx_file idx) fs' = (Inr idx', fs')"
    using index_open_ok [OF ok] same by simp
  then show ?thesis
    using assms(5) by (auto simp: index_insert_def index_get_def index_contains_def map_of_update fun_eq_iff
        split: if_splits)
qed

definition ex_index_fs :: Fs where
  "ex_index_fs = \<lparr>fs_nodes = [([''index.epi''], File [])], fs_clock = 0, fs_synced = []\<rparr>"

definition ex_index :: Index where
  "ex_index = \<lparr>idx_file = [''index.epi''], idx_entries = []\<rparr>"

definition ex_entry :: IndexEntry where
  "ex_entry = \<lparr>segment_id = 0, offset = 16, record_len = 100\<rparr>"

theorem index_reopen_witness:
  "case index_insert ZERO ex_entry (ex_index, ex_index_fs) of (idx', fs') \<Rightarrow>
     index_open (idx_file ex_index) fs' = (Inr idx', fs')
     \<and> index_get idx' = (if index_contains ex_index ZERO then index_get ex_index
          else (index_get ex_index)(ZERO \<mapsto> ex_entry))"
proof (cases "index_insert ZERO ex_entry (ex_index, ex_index_fs)")
  case (Pair idx' fs')
  have "index_ok (ex_index, ex_index_fs)" "is_dir_path ex_index_fs (butlast (idx_file ex_index))"
    "ok_entry ex_entry" "idx_file ex_index \<noteq> []"
    by (simp_all add: index_ok_def ex_index_def ex_index_fs_def fs_get_def wf_map_def index_bytes_def
        is_dir_path_def ok_entry_def ex_entry_def)
  from index_reopen [OF this(1,3,2,4) Pair] show ?thesis
    by (simp only: Pair prod.case)
qed

text \<open>
  C11: bytes after the last whole entry, fewer than an entry and at least one, as a crash can leave
  them, are skipped when the index is opened but not removed. The next entry is then appended after
  them, so that loading the file again reads 44 bytes that are not an entry: a hash nobody inserted
  appears, and the hash that was inserted is missing, unless the 32 bytes read at that place happen to
  be the hash itself.
\<close>

theorem index_torn_tail:
  assumes "fs_get fs p = Some (File (index_bytes es @ junk))" "is_dir_path fs (butlast p)"
    and "wf_map es" "\<forall>(k, x) \<in> set es. ok_entry x" "junk \<noteq> []" "length junk < INDEX_ENTRY_LEN"
    and "map_of es h = None" "take 32 (junk @ as_bytes h) \<noteq> as_bytes h"
  shows "\<exists>idx idx1 fs1 idx2 x. index_open p fs = (Inr idx, fs) \<and> index_get idx = map_of es
    \<and> index_insert h e (idx, fs) = (idx1, fs1) \<and> index_get idx1 h = Some e
    \<and> index_open p fs1 = (Inr idx2, fs1) \<and> index_get idx2 h = None
    \<and> index_get idx2 = (map_of es)(from_bytes (take 32 (junk @ as_bytes h)) \<mapsto> x)"
proof -
  let ?idx = "\<lparr>idx_file = p, idx_entries = es\<rparr>" and ?k = "from_bytes (take 32 (junk @ as_bytes h))"
  let ?fs = "fs_append p (encode_entry h e) fs"
  have opened: "index_open p fs = (Inr ?idx, fs)"
    by (rule index_open_file [OF assms(1,2) load_index_bytes [OF assms(3,4,6)]])
  have es: "fold (\<lambda>(h, e). AList.update h e) es [] = es"
    using fold_update_distinct [of "[]" es] assms(3) by (simp add: wf_map_def)
  obtain x where "load_entries (index_bytes es @ junk @ encode_entry h e) [] = Inr (AList.update ?k x es)"
    using load_entries_shifted [OF assms(5,6), of h e es] load_entries_append [OF assms(4), of _ "[]"] es by auto
  then have again: "index_open p ?fs = (Inr \<lparr>idx_file = p, idx_entries = AList.update ?k x es\<rparr>, ?fs)"
    using index_open_file [OF _ is_dir_path_append_file [OF assms(1,2)], of "encode_entry h e"] assms(1)
    by (simp add: fs_get_append)
  have "length (take 32 (junk @ as_bytes h)) = 32"
    by simp
  then have "?k \<noteq> h"
    using assms(8) as_bytes_from_bytes by metis
  then show ?thesis
    using opened again assms(7)
    by (intro exI [of _ ?idx] exI [of _ "?idx\<lparr>idx_entries := AList.update h e es\<rparr>"] exI [of _ ?fs]
        exI [of _ "\<lparr>idx_file = p, idx_entries = AList.update ?k x es\<rparr>"] exI [of _ x])
      (simp add: index_insert_def index_get_def map_of_update fun_eq_iff)
qed

text \<open>One entry and three stray bytes.\<close>

definition ex_torn_fs :: Fs where
  "ex_torn_fs = \<lparr>fs_nodes = [([''i''], File (encode_entry ZERO ex_entry @ [7, 7, 7]))], fs_clock = 0, fs_synced = []\<rparr>"

definition ex_torn_hash :: hash where
  "ex_torn_hash = from_bytes (replicate 32 1)"

theorem index_torn_tail_witness:
  "\<exists>idx idx1 fs1 idx2. index_open [''i''] ex_torn_fs = (Inr idx, ex_torn_fs) \<and> index_get idx ZERO = Some ex_entry
    \<and> index_insert ex_torn_hash ex_entry (idx, ex_torn_fs) = (idx1, fs1) \<and> index_get idx1 ex_torn_hash = Some ex_entry
    \<and> index_open [''i''] fs1 = (Inr idx2, fs1) \<and> index_get idx2 ex_torn_hash = None"
proof -
  have b: "as_bytes ex_torn_hash = replicate 32 1" "as_bytes ZERO = replicate 32 0"
    by (simp_all add: ex_torn_hash_def ZERO_def as_bytes_from_bytes)
  then have "as_bytes ZERO \<noteq> as_bytes ex_torn_hash"
    by (simp add: numeral_eq_Suc)
  then have ne: "ZERO \<noteq> ex_torn_hash"
    by metis
  have "hd (take 32 ([7, 7, 7] @ as_bytes ex_torn_hash)) \<noteq> hd (as_bytes ex_torn_hash)"
    by (simp add: b hd_replicate)
  then have shift: "take 32 ([7, 7, 7] @ as_bytes ex_torn_hash) \<noteq> as_bytes ex_torn_hash"
    by metis
  have torn: "fs_get ex_torn_fs [''i''] = Some (File (index_bytes [(ZERO, ex_entry)] @ [7, 7, 7]))"
    "is_dir_path ex_torn_fs (butlast [''i''])"
    by (simp_all add: ex_torn_fs_def fs_get_def index_bytes_def is_dir_path_def)
  from index_torn_tail [OF torn _ _ _ _ _ shift, of ex_entry] ne show ?thesis
    by (auto simp: wf_map_def ok_entry_def ex_entry_def INDEX_ENTRY_LEN_def)
qed

end
