(* ===== verification/Cas.thy ===== *)
theory Cas
  imports Records
begin

text \<open>
  The content-addressable store interface (\<open>epochs-core/src/cas/mod.rs\<close>) and its in-memory
  implementation (\<open>cas/mem.rs\<close>). The trait is a record of operations; what its clients rely on is
  the locale \<open>cas_backend\<close>, over the map \<open>objs\<close> from hashes to stored objects.
\<close>

section \<open>The trait\<close>

record 's CasBackend =
  cas_put :: "RecordType \<Rightarrow> bytes \<Rightarrow> ('s, hash) op"
  cas_get_record :: "hash \<Rightarrow> ('s, RecordType \<times> bytes) op"

type_synonym objects = "hash \<Rightarrow> (RecordType \<times> bytes) option"

text \<open>
  Storing deduplicates on the hash alone: an object whose hash is present is not written. \<open>put_objs\<close>
  is that effect. Payloads of four gigabytes and more do not fit the length field of a record.
\<close>

definition put_objs :: "hasher \<Rightarrow> RecordType \<Rightarrow> bytes \<Rightarrow> objects \<Rightarrow> objects" where
  "put_objs H ty p m = (if m (H p) = None then m(H p \<mapsto> (ty, p)) else m)"

definition fits_record :: "bytes \<Rightarrow> bool" where
  "fits_record p \<longleftrightarrow> length p + 45 < 2 ^ 32"

text \<open>
  A universe of objects on which the hash function has no collision. BLAKE3 is documented to be
  collision resistant; a theorem about what is read back names the objects it needs this for.
\<close>

definition collision_free :: "hasher \<Rightarrow> (RecordType \<times> bytes) set \<Rightarrow> bool" where
  "collision_free H U \<longleftrightarrow> inj_on (\<lambda>x. H (snd x)) U"

definition addressed :: "hasher \<Rightarrow> (RecordType \<times> bytes) set \<Rightarrow> objects \<Rightarrow> bool" where
  "addressed H U m \<longleftrightarrow> (\<forall>h ty p. m h = Some (ty, p) \<longrightarrow> h = H p \<and> (ty, p) \<in> U)"

lemma put_objs_mono: "m \<subseteq>\<^sub>m put_objs H ty p m"
  by (auto simp: put_objs_def map_le_def)

lemma addressed_put: "addressed H U m \<Longrightarrow> (ty, p) \<in> U \<Longrightarrow> addressed H U (put_objs H ty p m)"
  by (auto simp: addressed_def put_objs_def)

lemma put_objs_hit:
  assumes "collision_free H U" "addressed H U m" "(ty, p) \<in> U"
  shows "put_objs H ty p m (H p) = Some (ty, p)"
proof (cases "m (H p)")
  case None
  then show ?thesis by (simp add: put_objs_def)
next
  case (Some x)
  obtain ty' p' where x: "x = (ty', p')" by (cases x)
  with assms(2) Some have "H p = H p'" "(ty', p') \<in> U"
    by (auto simp: addressed_def)
  with assms(1,3) have "(ty, p) = (ty', p')"
    using inj_onD [of "\<lambda>x. H (snd x)" U "(ty, p)" "(ty', p')"]
    by (simp add: collision_free_def)
  with Some x show ?thesis
    by (simp add: put_objs_def)
qed

section \<open>The contract\<close>

text \<open>
  \<open>inv\<close> is the implementation's invariant and \<open>perr\<close> the errors its \<open>put\<close> can return. A read returns
  exactly the stored object; neither a read nor a failed write changes the objects.
\<close>

locale cas_backend =
  fixes H :: hasher
    and B :: "'s CasBackend"
    and objs :: "'s \<Rightarrow> objects"
    and inv :: "'s \<Rightarrow> bool"
    and perr :: "failure \<Rightarrow> bool"
  assumes put_ok: "inv s \<Longrightarrow> fits_record p \<Longrightarrow> cas_put B ty p s = (Inr h, s') \<Longrightarrow>
      h = H p \<and> inv s' \<and> objs s' = put_objs H ty p (objs s)"
    and put_err: "inv s \<Longrightarrow> fits_record p \<Longrightarrow> cas_put B ty p s = (Inl e, s') \<Longrightarrow>
      perr e \<and> inv s' \<and> objs s' = objs s"
    and get_spec: "inv s \<Longrightarrow> cas_get_record B h s = (r, s') \<Longrightarrow>
      inv s' \<and> objs s' = objs s \<and>
      r = (case objs s h of None \<Rightarrow> Inl (Err (Storage (NotFound h))) | Some x \<Rightarrow> Inr x)"
begin

text \<open>Reading back what was stored, on collision-free objects.\<close>

lemma get_after_put:
  assumes "inv s" "fits_record p" "cas_put B ty p s = (Inr h, s')"
    and "collision_free H U" "addressed H U (objs s)" "(ty, p) \<in> U"
  shows "h = H p \<and> fst (cas_get_record B h s') = Inr (ty, p)"
proof -
  have h: "h = H p" "inv s'" "objs s' = put_objs H ty p (objs s)"
    using put_ok [OF assms(1-3)] by simp_all
  then have "objs s' h = Some (ty, p)"
    using put_objs_hit [OF assms(4-6)] by simp
  then show ?thesis
    using get_spec [OF h(2), of h "fst (cas_get_record B h s')" "snd (cas_get_record B h s')"] h(1)
    by simp
qed

text \<open>Objects already stored stay as they are: a store only grows.\<close>

lemma put_mono:
  assumes "inv s" "fits_record p" "cas_put B ty p s = (r, s')"
  shows "objs s \<subseteq>\<^sub>m objs s'"
proof (cases r)
  case (Inl e)
  then show ?thesis
    using put_err [OF assms(1,2)] assms(3) by simp
next
  case (Inr h)
  then show ?thesis
    using put_ok [OF assms(1,2)] assms(3) by (simp add: put_objs_mono)
qed

end

section \<open>The in-memory store\<close>

record MemCas =
  mem_objects :: "(hash \<times> RecordType \<times> bytes) list"

definition mem_new :: MemCas where
  "mem_new = \<lparr>mem_objects = []\<rparr>"

definition mem_contains :: "MemCas \<Rightarrow> hash \<Rightarrow> bool" where
  "mem_contains c h \<longleftrightarrow> map_of (mem_objects c) h \<noteq> None"

definition mem_put :: "hasher \<Rightarrow> RecordType \<Rightarrow> bytes \<Rightarrow> (MemCas, hash) op" where
  "mem_put H ty p c =
     (let h = H p in
      (Inr h,
       if map_of (mem_objects c) h = None
       then c\<lparr>mem_objects := AList.update h (ty, p) (mem_objects c)\<rparr> else c))"

definition mem_get_record :: "hash \<Rightarrow> (MemCas, RecordType \<times> bytes) op" where
  "mem_get_record h c =
     (case map_of (mem_objects c) h of
        None \<Rightarrow> (Inl (Err (Storage (NotFound h))), c)
      | Some (ty, p) \<Rightarrow> (Inr (ty, p), c))"

definition mem_backend :: "hasher \<Rightarrow> MemCas CasBackend" where
  "mem_backend H = \<lparr>cas_put = mem_put H, cas_get_record = mem_get_record\<rparr>"

definition mem_objs :: "MemCas \<Rightarrow> objects" where
  "mem_objs c = map_of (mem_objects c)"

lemma mem_backend_simps [simp]:
  "cas_put (mem_backend H) = mem_put H"
  "cas_get_record (mem_backend H) = mem_get_record"
  by (simp_all add: mem_backend_def)

lemma mem_objs_put: "mem_objs (snd (mem_put H ty p c)) = put_objs H ty p (mem_objs c)"
  by (auto simp: mem_put_def mem_objs_def put_objs_def Let_def)

lemma mem_contains_objs: "mem_contains c h \<longleftrightarrow> h \<in> dom (mem_objs c)"
  by (auto simp: mem_contains_def mem_objs_def)

text \<open>The in-memory store never fails a write.\<close>

interpretation mem: cas_backend H "mem_backend H" mem_objs "\<lambda>_. True" "\<lambda>_. False"
  for H :: hasher
proof
  fix s s' :: MemCas and p ty h
  assume "cas_put (mem_backend H) ty p s = (Inr h, s')"
  then show "h = H p \<and> True \<and> mem_objs s' = put_objs H ty p (mem_objs s)"
    using mem_objs_put [of H ty p s] by (auto simp: mem_put_def Let_def)
next
  fix s s' :: MemCas and p ty e
  assume "cas_put (mem_backend H) ty p s = (Inl e, s')"
  then show "False \<and> True \<and> mem_objs s' = mem_objs s"
    by (simp add: mem_put_def Let_def)
next
  fix s s' :: MemCas and h r
  assume "cas_get_record (mem_backend H) h s = (r, s')"
  then show "True \<and> mem_objs s' = mem_objs s \<and>
      r = (case mem_objs s h of None \<Rightarrow> Inl (Err (Storage (NotFound h))) | Some x \<Rightarrow> Inr x)"
    by (auto simp: mem_get_record_def mem_objs_def split: option.splits prod.splits)
qed

end
