(* ===== verification/Cas_Store.thy ===== *)
theory Cas_Store
  imports Cas_Index Cas
begin

text \<open>
  The on-disk store (\<open>epochs-core/src/cas/store.rs\<close>): records appended through a buffered writer to
  numbered segment files, an index of where each record is, a cache of payloads and memory maps of
  sealed segments (the default feature set of the crate). The store's state contains the file system
  it works on. Mapping a file is a parameter \<open>M\<close>, from the bytes of the file to the bytes of the map
  or an error; \<open>mmap_ok\<close> says what the code relies on.
\<close>

section \<open>Constants and state\<close>

definition SEGMENT_MAX_BYTES :: nat where
  "SEGMENT_MAX_BYTES = 64 * 1024 * 1024"

definition WRITE_CACHE_CAP :: nat where
  "WRITE_CACHE_CAP = 8192"

definition MMAP_SEGMENTS_CAP :: nat where
  "MMAP_SEGMENTS_CAP = 4"

definition SEGMENT_BUF_BYTES :: nat where
  "SEGMENT_BUF_BYTES = 64 * 1024"

record CasStore =
  cas_fs :: Fs
  repo_path :: path
  cas_index :: Index
  current_segment_id :: u16
  current_file :: BufWriter
  current_offset :: nat
  dirty :: bool
  write_cache :: "(hash, RecordType \<times> bytes) LruMap"
  segment_maps :: "(u16 \<times> bytes) list"
  mmap_cap :: nat

type_synonym mmap = "bytes \<Rightarrow> bytes res"

definition mmap_ok :: "mmap \<Rightarrow> bool" where
  "mmap_ok M \<longleftrightarrow> (\<forall>b m. M b = Inr m \<longrightarrow> m = b)"

section \<open>Segment files\<close>

definition fmt06 :: "nat \<Rightarrow> string" where
  "fmt06 n = replicate (6 - length (show_nat n)) (CHR ''0'') @ show_nat n"

definition segment_path_for :: "path \<Rightarrow> u16 \<Rightarrow> path" where
  "segment_path_for rp sid = rp @ [''data'', fmt06 (unat sid) @ ''.epl'']"

fun parse_digits :: "nat \<Rightarrow> nat \<Rightarrow> string \<Rightarrow> nat option" where
  "parse_digits bound acc [] = Some acc"
| "parse_digits bound acc (c # cs) =
     (let n = of_char c :: nat in
      if n < 48 \<or> 57 < n then None
      else if acc * 10 + (n - 48) > bound then None
      else parse_digits bound (acc * 10 + (n - 48)) cs)"

text \<open>\<open>str::parse::<u16>\<close>: decimal digits after an optional plus sign.\<close>

definition parse_u16 :: "string \<Rightarrow> u16 option" where
  "parse_u16 s =
     (if s = [] \<or> s = ''+'' then None
      else map_option of_nat (parse_digits 65535 0 (if hd s = CHR ''+'' then tl s else s)))"

definition strip_suffix :: "string \<Rightarrow> string \<Rightarrow> string option" where
  "strip_suffix s suffix =
     (if length suffix \<le> length s \<and> drop (length s - length suffix) s = suffix
      then Some (take (length s - length suffix) s) else None)"

definition segment_name_id :: "string \<Rightarrow> u16 option" where
  "segment_name_id name =
     (case strip_suffix name ''.epl'' of None \<Rightarrow> None | Some stem \<Rightarrow> parse_u16 stem)"

definition find_latest_segment :: "path \<Rightarrow> Fs \<Rightarrow> u16 option" where
  "find_latest_segment rp fs =
     fold (\<lambda>(name, _) max_id.
         case segment_name_id name of
           None \<Rightarrow> max_id
         | Some i \<Rightarrow> Some (case max_id of None \<Rightarrow> i | Some m \<Rightarrow> max m i))
       (fs_read_dir (rp @ [''data'']) fs) None"

definition open_or_create_segment :: "path \<Rightarrow> u16 \<Rightarrow> (Fs, nat) op" where
  "open_or_create_segment p sid fs =
     (let existed = fs_exists fs p in
      try_st (fs_open_append p) (\<lambda>_ fs.
        if \<not> existed
        then (Inr SEGMENT_HEADER_LEN,
              fs_sync p (fs_append p (encode_segment_header (ucast sid) (fs_clock fs div 1000)) fs))
        else
          (try_res (fs_read p fs) (\<lambda>b.
             if length b < SEGMENT_HEADER_LEN
             then Inl (Err (Storage (Corrupt ''segment shorter than header'')))
             else if take 4 b \<noteq> SEGMENT_MAGIC
             then Inl (Err (Storage (Corrupt ''invalid segment magic'')))
             else Inr (length b)), fs)) fs)"

definition cas_open :: "path \<Rightarrow> (Fs, CasStore) op" where
  "cas_open rp =
     try_st (create_dir_all (rp @ [''data''])) (\<lambda>_.
     try_st (index_open (rp @ [''index.epi''])) (\<lambda>idx fs.
     (let sid = (case find_latest_segment rp fs of None \<Rightarrow> 0 | Some i \<Rightarrow> i);
          p = segment_path_for rp sid in
      try_st (open_or_create_segment p sid) (\<lambda>off fs.
        (Inr \<lparr>cas_fs = fs, repo_path = rp, cas_index = idx, current_segment_id = sid,
              current_file = bw_with_capacity SEGMENT_BUF_BYTES p, current_offset = off,
              dirty = False, write_cache = lru_new WRITE_CACHE_CAP, segment_maps = [],
              mmap_cap = MMAP_SEGMENTS_CAP\<rparr>, fs)) fs)))"

section \<open>Memory maps\<close>

text \<open>\<open>while maps.len() > n { remove the smallest key }\<close>, with the map's keys distinct.\<close>

definition remove_oldest :: "(u16 \<times> bytes) list \<Rightarrow> (u16 \<times> bytes) list" where
  "remove_oldest maps = AList.delete (Min (set (map fst maps))) maps"

lemma length_delete_less: "k \<in> set (map fst m) \<Longrightarrow> length (AList.delete k m) < length m"
  unfolding AList.delete_eq by (induction m) (auto simp: le_imp_less_Suc intro: le_less_trans [OF length_filter_le])

function shrink_maps :: "nat \<Rightarrow> (u16 \<times> bytes) list \<Rightarrow> (u16 \<times> bytes) list" where
  "shrink_maps n maps = (if length maps > n then shrink_maps n (remove_oldest maps) else maps)"
  by pat_completeness auto
termination
proof (relation "measure (\<lambda>(n, maps). length maps)")
  fix n and maps :: "(u16 \<times> bytes) list"
  assume "length maps > n"
  then have "maps \<noteq> []" by auto
  then have "Min (set (map fst maps)) \<in> set (map fst maps)"
    by (intro Min_in) simp_all
  then have "length (remove_oldest maps) < length maps"
    unfolding remove_oldest_def by (rule length_delete_less)
  then show "((n, remove_oldest maps), n, maps) \<in> measure (\<lambda>(n, maps). length maps)"
    by simp
qed simp

declare shrink_maps.simps [simp del]

definition set_object_cache_cap :: "nat \<Rightarrow> CasStore \<Rightarrow> CasStore" where
  "set_object_cache_cap cap s = s\<lparr>write_cache := lru_new cap\<rparr>"

definition set_mmap_cap :: "nat \<Rightarrow> CasStore \<Rightarrow> CasStore" where
  "set_mmap_cap cap s = s\<lparr>mmap_cap := cap, segment_maps := shrink_maps cap (segment_maps s)\<rparr>"

definition ensure_mmap :: "mmap \<Rightarrow> u16 \<Rightarrow> (CasStore, bytes) op" where
  "ensure_mmap M sid s =
     (if mmap_cap s = 0 then (Inl (Err (Storage (Corrupt ''mmap disabled''))), s)
      else
        case map_of (segment_maps s) sid of
          Some m \<Rightarrow> (Inr m, s)
        | None \<Rightarrow>
            (case try_res (fs_read (segment_path_for (repo_path s) sid) (cas_fs s)) M of
               Inl e \<Rightarrow> (Inl e, s)
             | Inr m \<Rightarrow>
                 (Inr m, s\<lparr>segment_maps :=
                    AList.update sid m (shrink_maps (mmap_cap s - 1) (segment_maps s))\<rparr>)))"

section \<open>Reading\<close>

definition flush_writer :: "CasStore \<Rightarrow> CasStore" where
  "flush_writer s =
     (let (w, fs) = bw_flush (current_file s, cas_fs s) in s\<lparr>current_file := w, cas_fs := fs\<rparr>)"

definition read_segment :: "IndexEntry \<Rightarrow> (CasStore, bytes) op" where
  "read_segment e s =
     (try_res (fs_read (segment_path_for (repo_path s) (segment_id e)) (cas_fs s)) (\<lambda>b.
        if unat (offset e) + unat (record_len e) \<le> length b
        then Inr (take (unat (record_len e)) (drop (unat (offset e)) b))
        else Inl UnexpectedEof), s)"

definition read_record_bytes :: "mmap \<Rightarrow> IndexEntry \<Rightarrow> (CasStore, bytes) op" where
  "read_record_bytes M e s =
     (let s = (if segment_id e = current_segment_id s then flush_writer s else s) in
      if mmap_cap s > 0 \<and> segment_id e \<noteq> current_segment_id s
      then
        (case ensure_mmap M (segment_id e) s of
           (Inr m, s) \<Rightarrow>
             if unat (offset e) + unat (record_len e) \<le> length m
             then (Inr (take (unat (record_len e)) (drop (unat (offset e)) m)), s)
             else read_segment e s
         | (Inl _, s) \<Rightarrow> read_segment e s)
      else read_segment e s)"

definition get_payload :: "hasher \<Rightarrow> mmap \<Rightarrow> hash \<Rightarrow> (CasStore, RecordType \<times> bytes) op" where
  "get_payload H M h s =
     (case lru_get (write_cache s) h of
        Some x \<Rightarrow> (Inr x, s)
      | None \<Rightarrow>
          (case index_get (cas_index s) h of
             None \<Rightarrow> (Inl (Err (Storage (NotFound h))), s)
           | Some e \<Rightarrow>
               try_st (read_record_bytes M e) (\<lambda>buf.
               try_st (lift_st (decode_record H buf)) (\<lambda>r s.
                 (Inr (record_type r, payload r),
                  s\<lparr>write_cache := lru_insert h (record_type r, payload r) (write_cache s)\<rparr>))) s))"

definition cas_get_record_full :: "hasher \<Rightarrow> mmap \<Rightarrow> hash \<Rightarrow> (CasStore, Record) op" where
  "cas_get_record_full H M h =
     try_st (get_payload H M h) (\<lambda>(ty, p). lift_st (Inr \<lparr>record_type = ty, content_hash = h, payload = p\<rparr>))"

definition cas_get :: "hasher \<Rightarrow> mmap \<Rightarrow> hash \<Rightarrow> (CasStore, bytes) op" where
  "cas_get H M h = try_st (get_payload H M h) (\<lambda>(ty, p). lift_st (Inr p))"

definition cas_contains :: "CasStore \<Rightarrow> hash \<Rightarrow> bool" where
  "cas_contains s h = index_contains (cas_index s) h"

definition cas_find_by_prefix :: "CasStore \<Rightarrow> string \<Rightarrow> hash list" where
  "cas_find_by_prefix s prefix = index_find_by_prefix (cas_index s) prefix"

definition cas_hashes :: "CasStore \<Rightarrow> hash list" where
  "cas_hashes s = index_hashes (cas_index s)"

section \<open>Writing\<close>

definition cas_flush :: "CasStore \<Rightarrow> CasStore" where
  "cas_flush s =
     (let s = flush_writer s in
      if \<not> dirty s then s
      else
        let fs = fs_sync (bw_path (current_file s)) (cas_fs s);
            fs = index_flush (cas_index s, fs)
        in s\<lparr>cas_fs := fs, dirty := False, segment_maps := AList.delete (current_segment_id s) (segment_maps s)\<rparr>)"

definition rotate_segment :: "(CasStore, unit) op" where
  "rotate_segment s =
     (let s = cas_flush s in
      if current_segment_id s = 0xFFFF
      then (Inl (Err (Storage (Corrupt ''segment id overflow''))), s)
      else
        (let sid = current_segment_id s + 1; p = segment_path_for (repo_path s) sid in
         case open_or_create_segment p sid (cas_fs s) of
           (Inl e, fs) \<Rightarrow> (Inl e, s\<lparr>cas_fs := fs, current_segment_id := sid\<rparr>)
         | (Inr off, fs) \<Rightarrow>
             (Inr (), s\<lparr>cas_fs := fs, current_segment_id := sid,
                        current_file := bw_with_capacity SEGMENT_BUF_BYTES p,
                        current_offset := off\<rparr>)))"

definition ensure_segment_capacity :: "nat \<Rightarrow> (CasStore, unit) op" where
  "ensure_segment_capacity needed s =
     (if current_offset s + needed > SEGMENT_MAX_BYTES then rotate_segment s else (Inr (), s))"

definition append_record :: "RecordType \<Rightarrow> bytes \<Rightarrow> hash \<Rightarrow> CasStore \<Rightarrow> CasStore" where
  "append_record ty p h s =
     (let record_bytes = encode_record ty p h;
          rlen = of_nat (length record_bytes) :: u32;
          (w, fs) = bw_write_all record_bytes (current_file s, cas_fs s);
          (idx, fs) = index_insert h
            \<lparr>segment_id = current_segment_id s, offset = of_nat (current_offset s), record_len = rlen\<rparr>
            (cas_index s, fs)
      in s\<lparr>current_file := w, cas_fs := fs, cas_index := idx,
           current_offset := current_offset s + unat rlen, dirty := True,
           write_cache := lru_insert h (ty, p) (write_cache s)\<rparr>)"

definition cas_store_put :: "hasher \<Rightarrow> RecordType \<Rightarrow> bytes \<Rightarrow> (CasStore, hash) op" where
  "cas_store_put H ty p s =
     (let h = H p in
      if index_contains (cas_index s) h then (Inr h, s)
      else try_st (ensure_segment_capacity (41 + length p + 4))
             (\<lambda>_ s. (Inr h, append_record ty p h s)) s)"

definition store_backend :: "hasher \<Rightarrow> mmap \<Rightarrow> CasStore CasBackend" where
  "store_backend H M = \<lparr>cas_put = cas_store_put H, cas_get_record = get_payload H M\<rparr>"

end
