(* ===== verification/Hamt_Node.thy ===== *)
theory Hamt_Node
  imports Cas Commits
begin

text \<open>
  The payload codec of trie nodes (\<open>epochs-core/src/hamt/node.rs\<close>). The record type is stored beside
  the payload and chooses the layout; the payload alone does not determine it.
\<close>

section \<open>The code\<close>

datatype HamtNode =
    Bitmap (node_bitmap: u32) (node_children: "hash list")
  | Leaf (node_key: bytes) (node_value: bytes)

definition node_encode :: "HamtNode \<Rightarrow> bytes" where
  "node_encode node =
     encoded (case node of
        Bitmap bitmap children \<Rightarrow>
          writes ([write_u32 bitmap, write_u8 (of_nat (length children))] @ map write_hash children)
      | Leaf key val \<Rightarrow>
          writes [write_u16 (of_nat (length key)), write_bytes key,
            write_u32 (of_nat (length val)), write_bytes val])"

definition node_decode :: "RecordType \<Rightarrow> bytes \<Rightarrow> HamtNode res" where
  "node_decode ty buf =
     (let dec = dec_new buf in
      case ty of
        HamtBitmap \<Rightarrow>
          try_res (read_u32 dec) (\<lambda>(bitmap, dec).
          try_res (read_u8 dec) (\<lambda>(child_count, dec).
          try_res (read_many read_hash (unat child_count) dec) (\<lambda>(children, dec).
          Inr (Bitmap bitmap children))))
      | HamtLeaf \<Rightarrow>
          try_res (read_u16 dec) (\<lambda>(klen, dec).
          try_res (read_slice (unat klen) dec) (\<lambda>(key, dec).
          try_res (read_u32 dec) (\<lambda>(vlen, dec).
          try_res (read_slice (unat vlen) dec) (\<lambda>(val, dec).
          Inr (Leaf key val)))))
      | _ \<Rightarrow> Inl (Err (Codec ''not a HAMT node record'')))"

section \<open>Nodes that fit the format\<close>

definition node_type :: "HamtNode \<Rightarrow> RecordType" where
  "node_type node = (case node of Bitmap _ _ \<Rightarrow> HamtBitmap | Leaf _ _ \<Rightarrow> HamtLeaf)"

definition wf_node :: "HamtNode \<Rightarrow> bool" where
  "wf_node node =
     (case node of
        Bitmap _ children \<Rightarrow> length children < 2 ^ 8
      | Leaf key val \<Rightarrow> length key < 2 ^ 16 \<and> length val < 2 ^ 32)"

lemma node_type_simps [simp]:
  "node_type (Bitmap b cs) = HamtBitmap" "node_type (Leaf k v) = HamtLeaf"
  by (simp_all add: node_type_def)

lemma node_encode_Bitmap:
  "node_encode (Bitmap b cs) =
     le_nat 4 (unat b) @ [of_nat (length cs)] @ concat (map as_bytes cs)"
  by (simp add: node_encode_def encoded_def)

lemma node_encode_Leaf:
  "node_encode (Leaf k v) =
     le_nat 2 (unat (of_nat (length k) :: u16)) @ k @ le_nat 4 (unat (of_nat (length v) :: u32)) @ v"
  by (simp add: node_encode_def encoded_def)

lemma length_concat_hashes: "length (concat (map as_bytes hs)) = 32 * length hs"
  by (induction hs) simp_all

lemma length_node_encode:
  "length (node_encode (Bitmap b cs)) = 5 + 32 * length cs"
  "length (node_encode (Leaf k v)) = 6 + length k + length v"
  by (simp_all add: node_encode_Bitmap node_encode_Leaf length_concat_hashes)

lemma decode_Bitmap:
  assumes "length cs < 2 ^ 8"
  shows "node_decode HamtBitmap (node_encode (Bitmap b cs) @ rest) = Inr (Bitmap b cs)"
proof -
  have at: "dec_at (dec_new (node_encode (Bitmap b cs) @ rest))
      (le_nat 4 (unat b) @ [of_nat (length cs)] @ concat (map as_bytes cs) @ rest)"
    by (simp add: dec_at_new_iff node_encode_Bitmap)
  obtain d1 where r1: "read_u32 (dec_new (node_encode (Bitmap b cs) @ rest)) = Inr (b, d1)"
    and at1: "dec_at d1 ([of_nat (length cs)] @ concat (map as_bytes cs) @ rest)"
    using u32c.rd_wr_at [OF TrueI at] by auto
  obtain d2 where r2: "read_u8 d1 = Inr (of_nat (length cs), d2)"
    and at2: "dec_at d2 (concat (map as_bytes cs) @ rest)"
    using u8c.rd_wr_at [OF TrueI at1] by auto
  obtain d3 where "read_many read_hash (length cs) d2 = Inr (cs, d3)"
    using hashc.read_many_wr [OF _ at2] by auto
  with r1 r2 assms show ?thesis
    by (simp add: node_decode_def unat_u8_len)
qed

lemma decode_Leaf:
  assumes "length k < 2 ^ 16" "length v < 2 ^ 32"
  shows "node_decode HamtLeaf (node_encode (Leaf k v) @ rest) = Inr (Leaf k v)"
proof -
  define n where "n = (of_nat (length k) :: u16)"
  define m where "m = (of_nat (length v) :: u32)"
  have n: "unat n = length k" and m: "unat m = length v"
    using assms by (simp_all add: n_def m_def unat_u16_len unat_u32_len)
  let ?d = "dec_new (node_encode (Leaf k v) @ rest)"
  have at: "dec_at ?d (le_nat 2 (unat n) @ k @ le_nat 4 (unat m) @ v @ rest)"
    by (simp add: dec_at_new_iff node_encode_Leaf n_def m_def)
  obtain d1 where r1: "read_u16 ?d = Inr (n, d1)"
    and at1: "dec_at d1 (k @ le_nat 4 (unat m) @ v @ rest)"
    using u16c.rd_wr_at [OF TrueI at] by auto
  have r2: "read_slice (unat n) d1 = Inr (k, advance (unat n) d1)"
    and at2: "dec_at (advance (unat n) d1) (le_nat 4 (unat m) @ v @ rest)"
    using read_slice_ok [OF at1] dec_at_advance [OF at1] n by simp_all
  obtain d3 where r3: "read_u32 (advance (unat n) d1) = Inr (m, d3)" and at3: "dec_at d3 (v @ rest)"
    using u32c.rd_wr_at [OF TrueI at2] by auto
  have "read_slice (unat m) d3 = Inr (v, advance (unat m) d3)"
    using read_slice_ok [OF at3] m by simp
  with r1 r2 r3 show ?thesis
    by (simp add: node_decode_def)
qed

text \<open>Bytes after the encoded node are ignored.\<close>

lemma decode_encode_node_rest:
  "wf_node node \<Longrightarrow> node_decode (node_type node) (node_encode node @ rest) = Inr node"
  by (cases node) (simp_all add: wf_node_def decode_Bitmap decode_Leaf)

lemma decode_encode_node: "wf_node node \<Longrightarrow> node_decode (node_type node) (node_encode node) = Inr node"
  using decode_encode_node_rest [of node "[]"] by simp

lemma node_decode_sound:
  assumes "node_decode ty buf = Inr node"
  shows "wf_node node \<and> ty = node_type node \<and> (\<exists>rest. buf = node_encode node @ rest)"
proof (cases ty)
  case HamtBitmap
  with assms obtain b d1 n d2 cs d3 where r1: "read_u32 (dec_new buf) = Inr (b, d1)"
    and r2: "read_u8 d1 = Inr (n, d2)" and r3: "read_many read_hash (unat n) d2 = Inr (cs, d3)"
    and node: "node = Bitmap b cs"
    by (auto simp: node_decode_def result_simps split: prod.splits)
  from u32c.rd_sound_at [OF dec_at_new r1] obtain b1 where
    1: "buf = le_nat 4 (unat b) @ b1" and at1: "dec_at d1 b1" by blast
  from u8c.rd_sound_at [OF at1 r2] obtain b2 where
    2: "b1 = [n] @ b2" and at2: "dec_at d2 b2" by blast
  from hashc.read_many_sound [OF at2 r3] obtain b3 where
    3: "length cs = unat n" "b2 = concat (map as_bytes cs) @ b3" by blast
  then have "of_nat (length cs) = n" by simp
  with 1 2 3 show ?thesis
    using unat_u8_less [of n] by (simp add: HamtBitmap node wf_node_def node_encode_Bitmap)
next
  case HamtLeaf
  with assms obtain n d1 k d2 m d3 v d4 where r1: "read_u16 (dec_new buf) = Inr (n, d1)"
    and r2: "read_slice (unat n) d1 = Inr (k, d2)" and r3: "read_u32 d2 = Inr (m, d3)"
    and r4: "read_slice (unat m) d3 = Inr (v, d4)" and node: "node = Leaf k v"
    by (auto simp: node_decode_def result_simps split: prod.splits)
  from u16c.rd_sound_at [OF dec_at_new r1] obtain b1 where
    1: "buf = le_nat 2 (unat n) @ b1" and at1: "dec_at d1 b1" by blast
  from r2 have 2: "unat n \<le> length b1" "k = take (unat n) b1" "d2 = advance (unat n) d1"
    by (simp_all add: read_slice_Inr [OF at1])
  with dec_at_take [OF at1] have at2: "dec_at d2 (drop (unat n) b1)" by simp
  from u32c.rd_sound_at [OF at2 r3] obtain b3 where
    3: "drop (unat n) b1 = le_nat 4 (unat m) @ b3" and at3: "dec_at d3 b3" by blast
  from r4 have 4: "unat m \<le> length b3" "v = take (unat m) b3"
    by (simp_all add: read_slice_Inr [OF at3])
  have kl: "length k = unat n" and vl: "length v = unat m"
    using 2 4 by simp_all
  have "buf = node_encode node @ drop (unat m) b3"
    using 1 2 3 4 append_take_drop_id [of "unat n" b1] append_take_drop_id [of "unat m" b3] kl vl
    by (simp add: node node_encode_Leaf)
  then show ?thesis
    using kl vl unat_u16_less [of n] unsigned_less [where ?w = m]
    by (auto simp: HamtLeaf node wf_node_def)
next
  case Commit
  with assms show ?thesis by (simp add: node_decode_def)
qed

lemma read_slice_err: "read_slice n d = Inl e \<Longrightarrow> \<exists>m. e = Err (Codec m)"
  by (auto simp: read_slice_def split: if_splits)

lemma read_field_err:
  "read_u8 d = Inl e \<Longrightarrow> \<exists>m. e = Err (Codec m)"
  "read_u16 d = Inl e \<Longrightarrow> \<exists>m. e = Err (Codec m)"
  "read_u32 d = Inl e \<Longrightarrow> \<exists>m. e = Err (Codec m)"
  "read_u64 d = Inl e \<Longrightarrow> \<exists>m. e = Err (Codec m)"
  "read_hash d = Inl e \<Longrightarrow> \<exists>m. e = Err (Codec m)"
  by (auto simp: read_u8_def read_u16_def read_u32_def read_u64_def read_hash_def result_simps
      split: prod.splits intro: read_slice_err)

lemma read_many_hash_err: "read_many read_hash n d = Inl e \<Longrightarrow> \<exists>m. e = Err (Codec m)"
  by (induction n arbitrary: d) (auto simp: result_simps split: prod.splits intro: read_field_err)

lemma node_decode_error:
  assumes "node_decode ty buf = Inl e"
  shows "\<exists>m. e = Err (Codec m)"
  using assms
  by (cases ty) (auto simp: node_decode_def Let_def result_simps split: prod.splits
      intro: read_slice_err read_field_err read_many_hash_err)

section \<open>Properties\<close>

text \<open>
  C37: a trie node decodes from its encoding if and only if its key is shorter than 65536 bytes, its
  value shorter than four gigabytes, and its children at most 255; beyond these bounds the encoder
  silently truncates the counts.
\<close>

theorem node_roundtrip_iff: "node_decode (node_type node) (node_encode node) = Inr node \<longleftrightarrow> wf_node node"
  using decode_encode_node node_decode_sound by blast

text \<open>
  The payload does not determine the node type: there are a leaf and a bitmap node with the same
  encoding. Both are stored under the same hash, and storing the second keeps the type of the first,
  so the leaf is read back as a bitmap node.
\<close>

theorem node_type_confusion:
  "\<exists>key val bitmap child.
     wf_node (Leaf key val) \<and> wf_node (Bitmap bitmap [child])
     \<and> node_encode (Leaf key val) = node_encode (Bitmap bitmap [child])
     \<and> (\<forall>H. let c = snd (mem_put H HamtBitmap (node_encode (Bitmap bitmap [child])) mem_new);
              (r, c') = mem_put H HamtLeaf (node_encode (Leaf key val)) c
          in r = Inr (H (node_encode (Leaf key val)))
             \<and> fst (mem_get_record (H (node_encode (Leaf key val))) c')
                 = Inr (HamtBitmap, node_encode (Leaf key val)))"
proof -
  let ?key = "[0, 0, 1, 9] :: bytes" and ?val = "replicate 27 5 :: bytes"
  let ?child = "from_bytes ([9, 27, 0, 0, 0] @ replicate 27 5)"
  have eq: "node_encode (Leaf ?key ?val) = node_encode (Bitmap 4 [?child])"
    by code_simp
  have "wf_node (Leaf ?key ?val)" "wf_node (Bitmap 4 [?child])"
    by (simp_all add: wf_node_def)
  moreover have "let c = snd (mem_put H HamtBitmap (node_encode (Bitmap 4 [?child])) mem_new);
        (r, c') = mem_put H HamtLeaf (node_encode (Leaf ?key ?val)) c
      in r = Inr (H (node_encode (Leaf ?key ?val)))
         \<and> fst (mem_get_record (H (node_encode (Leaf ?key ?val))) c')
             = Inr (HamtBitmap, node_encode (Leaf ?key ?val))" for H
    unfolding eq by (simp add: mem_put_def mem_get_record_def mem_new_def Let_def)
  ultimately show ?thesis
    using eq by blast
qed

end
