(* ===== verification/Hamt.thy ===== *)
theory Hamt
  imports Hamt_Node
begin

text \<open>
  The persistent trie (\<open>epochs-core/src/hamt/tree.rs\<close>), generic in the store it writes to. The
  recursive functions take fuel, one unit per call: the recursion follows stored nodes, and nothing
  in the code bounds it. An index outside a \<open>Vec\<close> is a panic.
\<close>

section \<open>Hash chunks and bitmaps\<close>

datatype DiffOp = Added | Removed | Changed

definition extract_5bits :: "hash \<Rightarrow> nat \<Rightarrow> u8" where
  "extract_5bits key_hash depth =
     (let bit_idx = depth * 5; byte_idx = bit_idx div 8; bit_offset = bit_idx mod 8 in
      if byte_idx \<ge> 31
      then drop_bit (bit_offset mod 8) (as_bytes key_hash ! 31) AND 0x1F
      else
        (let b0 = ucast (as_bytes key_hash ! byte_idx) :: u16;
             b1 = ucast (as_bytes key_hash ! (byte_idx + 1)) :: u16;
             combined = drop_bit bit_offset (b0 OR push_bit 8 b1)
         in ucast (combined AND 0x1F)))"

definition count_ones :: "u32 \<Rightarrow> nat" where
  "count_ones w = length (filter (bit w) [0..<32])"

definition bit_mask :: "u8 \<Rightarrow> u32" where
  "bit_mask branch = push_bit (unat branch) 1"

definition child_index :: "u32 \<Rightarrow> u8 \<Rightarrow> nat" where
  "child_index bitmap branch = count_ones (bitmap AND (bit_mask branch - 1))"

section \<open>Vectors\<close>

definition vec_get :: "'a list \<Rightarrow> nat \<Rightarrow> ('s, 'a) op" where
  "vec_get xs i = lift_st (if i < length xs then Inr (xs ! i) else Inl Panic)"

definition vec_insert :: "'a list \<Rightarrow> nat \<Rightarrow> 'a \<Rightarrow> ('s, 'a list) op" where
  "vec_insert xs i x = lift_st (if i \<le> length xs then Inr (take i xs @ x # drop i xs) else Inl Panic)"

definition vec_remove :: "'a list \<Rightarrow> nat \<Rightarrow> ('s, 'a list) op" where
  "vec_remove xs i = lift_st (if i < length xs then Inr (take i xs @ drop (Suc i) xs) else Inl Panic)"

definition vec_set :: "'a list \<Rightarrow> nat \<Rightarrow> 'a \<Rightarrow> ('s, 'a list) op" where
  "vec_set xs i x = lift_st (if i < length xs then Inr (xs[i := x]) else Inl Panic)"

section \<open>Nodes in the store\<close>

definition make_leaf :: "bytes \<Rightarrow> bytes \<Rightarrow> HamtNode" where
  "make_leaf key val = Leaf key val"

definition persist_leaf :: "'s CasBackend \<Rightarrow> bytes \<Rightarrow> bytes \<Rightarrow> ('s, hash) op" where
  "persist_leaf B key val = cas_put B HamtLeaf (node_encode (make_leaf key val))"

definition persist_bitmap :: "'s CasBackend \<Rightarrow> u32 \<Rightarrow> hash list \<Rightarrow> ('s, hash) op" where
  "persist_bitmap B bitmap children = cas_put B HamtBitmap (node_encode (Bitmap bitmap children))"

definition load_node :: "'s CasBackend \<Rightarrow> hash \<Rightarrow> ('s, HamtNode) op" where
  "load_node B h = try_st (cas_get_record B h) (\<lambda>(ty, p). lift_st (node_decode ty p))"

section \<open>Insertion\<close>

fun insert_internal :: "hasher \<Rightarrow> 's CasBackend \<Rightarrow> nat \<Rightarrow> hash option \<Rightarrow> bytes \<Rightarrow> bytes \<Rightarrow> hash \<Rightarrow> nat
    \<Rightarrow> ('s, hash) op"
  and expand_leaf_collision :: "hasher \<Rightarrow> 's CasBackend \<Rightarrow> nat \<Rightarrow> bytes \<Rightarrow> bytes \<Rightarrow> hash
    \<Rightarrow> bytes \<Rightarrow> bytes \<Rightarrow> hash \<Rightarrow> nat \<Rightarrow> ('s, hash) op" where
  "insert_internal H B 0 node_hash key val key_hash depth = lift_st (Inl OutOfFuel)"
| "insert_internal H B (Suc n) node_hash key val key_hash depth =
     (case node_hash of
        None \<Rightarrow> persist_leaf B key val
      | Some h \<Rightarrow>
          try_st (load_node B h) (\<lambda>node.
          case node of
            Leaf existing_key existing_val \<Rightarrow>
              if existing_key = key then persist_leaf B key val
              else expand_leaf_collision H B n existing_key existing_val (H existing_key)
                     key val key_hash depth
          | Bitmap bitmap children \<Rightarrow>
              (let branch = extract_5bits key_hash depth; idx = child_index bitmap branch in
               if bitmap AND bit_mask branch \<noteq> 0 then
                 try_st (vec_get children idx) (\<lambda>child_hash.
                 try_st (insert_internal H B n (Some child_hash) key val key_hash (depth + 1))
                   (\<lambda>new_child.
                 try_st (vec_set children idx new_child) (persist_bitmap B bitmap)))
               else
                 try_st (persist_leaf B key val) (\<lambda>new_leaf.
                 try_st (vec_insert children idx new_leaf)
                   (persist_bitmap B (bitmap OR bit_mask branch))))))"
| "expand_leaf_collision H B 0 existing_key existing_val existing_hash key val key_hash depth =
     lift_st (Inl OutOfFuel)"
| "expand_leaf_collision H B (Suc n) existing_key existing_val existing_hash key val key_hash depth =
     (let chunk_old = extract_5bits existing_hash depth; chunk_new = extract_5bits key_hash depth in
      if chunk_old = chunk_new then
        try_st (persist_leaf B existing_key existing_val) (\<lambda>old_leaf.
        insert_internal H B n (Some old_leaf) key val key_hash (depth + 1))
      else
        try_st (persist_leaf B existing_key existing_val) (\<lambda>old_leaf.
        try_st (persist_leaf B key val) (\<lambda>new_leaf.
        persist_bitmap B (bit_mask chunk_old OR bit_mask chunk_new)
          (if chunk_old < chunk_new then [old_leaf, new_leaf] else [new_leaf, old_leaf]))))"

definition hamt_insert :: "hasher \<Rightarrow> 's CasBackend \<Rightarrow> nat \<Rightarrow> hash option \<Rightarrow> bytes \<Rightarrow> bytes
    \<Rightarrow> ('s, hash) op" where
  "hamt_insert H B n root key val = insert_internal H B n root key val (H key) 0"

section \<open>Lookup\<close>

fun get_internal :: "'s CasBackend \<Rightarrow> nat \<Rightarrow> hash \<Rightarrow> bytes \<Rightarrow> hash \<Rightarrow> nat \<Rightarrow> ('s, bytes option) op" where
  "get_internal B 0 node_hash key key_hash depth = lift_st (Inl OutOfFuel)"
| "get_internal B (Suc n) node_hash key key_hash depth =
     try_st (load_node B node_hash) (\<lambda>node.
     case node of
       Leaf k v \<Rightarrow> lift_st (Inr (if k = key then Some v else None))
     | Bitmap bitmap children \<Rightarrow>
         (let branch = extract_5bits key_hash depth in
          if bitmap AND bit_mask branch = 0 then lift_st (Inr None)
          else
            try_st (vec_get children (child_index bitmap branch)) (\<lambda>child.
            get_internal B n child key key_hash (depth + 1))))"

definition hamt_get :: "hasher \<Rightarrow> 's CasBackend \<Rightarrow> nat \<Rightarrow> hash option \<Rightarrow> bytes \<Rightarrow> ('s, bytes option) op" where
  "hamt_get H B n root key =
     (case root of None \<Rightarrow> lift_st (Inr None) | Some h \<Rightarrow> get_internal B n h key (H key) 0)"

fun leaf_hash_internal :: "'s CasBackend \<Rightarrow> nat \<Rightarrow> hash \<Rightarrow> bytes \<Rightarrow> hash \<Rightarrow> nat
    \<Rightarrow> ('s, hash option) op" where
  "leaf_hash_internal B 0 node_hash key key_hash depth = lift_st (Inl OutOfFuel)"
| "leaf_hash_internal B (Suc n) node_hash key key_hash depth =
     try_st (load_node B node_hash) (\<lambda>node.
     case node of
       Leaf k v \<Rightarrow> lift_st (Inr (if k = key then Some node_hash else None))
     | Bitmap bitmap children \<Rightarrow>
         (let branch = extract_5bits key_hash depth in
          if bitmap AND bit_mask branch = 0 then lift_st (Inr None)
          else
            try_st (vec_get children (child_index bitmap branch)) (\<lambda>child.
            leaf_hash_internal B n child key key_hash (depth + 1))))"

definition hamt_leaf_hash :: "hasher \<Rightarrow> 's CasBackend \<Rightarrow> nat \<Rightarrow> hash option \<Rightarrow> bytes
    \<Rightarrow> ('s, hash option) op" where
  "hamt_leaf_hash H B n root key =
     (case root of None \<Rightarrow> lift_st (Inr None) | Some h \<Rightarrow> leaf_hash_internal B n h key (H key) 0)"

section \<open>Removal\<close>

fun remove_internal :: "'s CasBackend \<Rightarrow> nat \<Rightarrow> hash \<Rightarrow> bytes \<Rightarrow> hash \<Rightarrow> nat
    \<Rightarrow> ('s, hash option) op" where
  "remove_internal B 0 node_hash key key_hash depth = lift_st (Inl OutOfFuel)"
| "remove_internal B (Suc n) node_hash key key_hash depth =
     try_st (load_node B node_hash) (\<lambda>node.
     case node of
       Leaf k v \<Rightarrow> lift_st (Inr (if k = key then None else Some node_hash))
     | Bitmap bitmap children \<Rightarrow>
         (let branch = extract_5bits key_hash depth; idx = child_index bitmap branch in
          if bitmap AND bit_mask branch = 0 then lift_st (Inr (Some node_hash))
          else
            try_st (vec_get children idx) (\<lambda>child.
            try_st (remove_internal B n child key key_hash (depth + 1)) (\<lambda>removed.
            case removed of
              None \<Rightarrow>
                try_st (vec_remove children idx) (\<lambda>new_children.
                if new_children = [] then lift_st (Inr None)
                else try_st (persist_bitmap B (bitmap AND NOT (bit_mask branch)) new_children)
                       (\<lambda>h. lift_st (Inr (Some h))))
            | Some new_child \<Rightarrow>
                try_st (vec_set children idx new_child) (\<lambda>new_children.
                try_st (persist_bitmap B bitmap new_children) (\<lambda>h. lift_st (Inr (Some h))))))))"

definition hamt_remove :: "hasher \<Rightarrow> 's CasBackend \<Rightarrow> nat \<Rightarrow> hash option \<Rightarrow> bytes
    \<Rightarrow> ('s, hash option) op" where
  "hamt_remove H B n root key =
     (case root of None \<Rightarrow> lift_st (Inr None) | Some h \<Rightarrow> remove_internal B n h key (H key) 0)"

section \<open>Enumeration\<close>

text \<open>\<open>out\<close> is the vector the code pushes to; the loop over the children is the second function.\<close>

fun collect_entries :: "'s CasBackend \<Rightarrow> nat \<Rightarrow> hash \<Rightarrow> (bytes \<times> bytes) list
    \<Rightarrow> ('s, (bytes \<times> bytes) list) op"
  and collect_children :: "'s CasBackend \<Rightarrow> nat \<Rightarrow> hash list \<Rightarrow> (bytes \<times> bytes) list
    \<Rightarrow> ('s, (bytes \<times> bytes) list) op" where
  "collect_entries B 0 node_hash out = lift_st (Inl OutOfFuel)"
| "collect_entries B (Suc n) node_hash out =
     try_st (load_node B node_hash) (\<lambda>node.
     case node of
       Leaf key val \<Rightarrow> lift_st (Inr (out @ [(key, val)]))
     | Bitmap bitmap children \<Rightarrow> collect_children B n children out)"
| "collect_children B n [] out = lift_st (Inr out)"
| "collect_children B n (c # cs) out =
     try_st (collect_entries B n c out) (collect_children B n cs)"

definition hamt_entries :: "'s CasBackend \<Rightarrow> nat \<Rightarrow> hash option \<Rightarrow> ('s, (bytes \<times> bytes) list) op" where
  "hamt_entries B n root =
     (case root of None \<Rightarrow> lift_st (Inr []) | Some h \<Rightarrow> collect_entries B n h [])"

end
