(* ===== verification/Hamt_Tree.thy ===== *)
theory Hamt_Tree
  imports Hamt
begin

text \<open>
  The trie as a tree. The functions of \<open>tree.rs\<close> follow hashes through a store; here the same
  algorithms run on the tree those hashes denote, and the map they implement is read off. The
  invariant \<open>placed\<close> says that a leaf sits where the chunks of its key's hash lead; insertion keeps it
  unless the leaf it meets agrees with the new key on the chunk at that depth.
\<close>

section \<open>Bitmaps as branch lists\<close>

definition branches :: "u32 \<Rightarrow> nat list" where
  "branches bm = filter (bit bm) [0..<32]"

definition below :: "u32 \<Rightarrow> nat \<Rightarrow> nat list" where
  "below bm b = filter (bit bm) [0..<b]"

definition above :: "u32 \<Rightarrow> nat \<Rightarrow> nat list" where
  "above bm b = filter (bit bm) [Suc b..<32]"

lemma count_ones_branches: "count_ones bm = length (branches bm)"
  by (simp add: count_ones_def branches_def)

lemma length_branches: "length (branches bm) \<le> 32"
  using length_filter_le [of "bit bm" "[0..<32]"] by (simp add: branches_def)

lemma upt_split: "b < 32 \<Longrightarrow> [0..<32] = [0..<b] @ b # [Suc b..<32]"
proof -
  assume b: "b < (32::nat)"
  have "[0..<32] = [0..<b] @ [b..<32]"
    using b upt_add_eq_append [of 0 b "32 - b"] by simp
  moreover have "[b..<32] = b # [Suc b..<32]"
    using b by (rule upt_conv_Cons)
  ultimately show ?thesis by simp
qed

lemma branches_set:
  "b < 32 \<Longrightarrow> bit bm b \<Longrightarrow> branches bm = below bm b @ b # above bm b"
  by (simp add: branches_def below_def above_def upt_split [of b] del: upt_Suc)

lemma branches_clear:
  "b < 32 \<Longrightarrow> \<not> bit bm b \<Longrightarrow> branches bm = below bm b @ above bm b"
  by (simp add: branches_def below_def above_def upt_split [of b] del: upt_Suc)

lemma bit_bit_mask: "unat b < 32 \<Longrightarrow> bit (bit_mask b) i \<longleftrightarrow> i = unat b"
  by (auto simp: bit_mask_def bit_simps)

lemma and_bit_mask: "unat b < 32 \<Longrightarrow> bm AND bit_mask b = 0 \<longleftrightarrow> \<not> bit bm (unat b)"
  by (auto simp: bit_eq_iff [of "bm AND bit_mask b"] bit_and_iff bit_bit_mask)

lemma below_or: "unat b < 32 \<Longrightarrow> below (bm OR bit_mask b) (unat b) = below bm (unat b)"
  by (auto simp: below_def bit_or_iff bit_bit_mask intro: filter_cong)

lemma above_or: "unat b < 32 \<Longrightarrow> above (bm OR bit_mask b) (unat b) = above bm (unat b)"
  by (auto simp: above_def bit_or_iff bit_bit_mask intro: filter_cong)

lemma branches_or:
  "unat b < 32 \<Longrightarrow>
     branches (bm OR bit_mask b) = below bm (unat b) @ unat b # above bm (unat b)"
  using branches_set [of "unat b" "bm OR bit_mask b"]
  by (simp add: bit_or_iff bit_bit_mask below_or above_or)

lemma branches_and_not:
  assumes b: "unat b < 32"
  shows "branches (bm AND NOT (bit_mask b)) = below bm (unat b) @ above bm (unat b)"
proof -
  have bit: "bit (bm AND NOT (bit_mask b)) i \<longleftrightarrow> bit bm i \<and> i \<noteq> unat b" for i
    using b by (auto simp: bit_and_iff bit_not_iff bit_bit_mask dest: bit_imp_le_length)
  have "below (bm AND NOT (bit_mask b)) (unat b) = below bm (unat b)"
    unfolding below_def by (rule filter_cong) (simp_all add: bit)
  moreover have "above (bm AND NOT (bit_mask b)) (unat b) = above bm (unat b)"
    unfolding above_def by (rule filter_cong) (simp_all add: bit)
  ultimately show ?thesis
    using branches_clear [OF b, of "bm AND NOT (bit_mask b)"] by (simp add: bit)
qed

lemma child_index_below:
  assumes "unat b < 32"
  shows "child_index bm b = length (below bm (unat b))"
proof -
  have "bit_mask b - 1 = mask (unat b)"
    by (simp add: bit_mask_def mask_eq_exp_minus_1 push_bit_eq_mult)
  then have "bit (bm AND (bit_mask b - 1)) i \<longleftrightarrow> bit bm i \<and> i < unat b" for i
    using assms by (auto simp: bit_and_iff bit_mask_iff)
  then have "bit (bm AND (bit_mask b - 1)) = (\<lambda>i. bit bm i \<and> i < unat b)"
    by (intro ext)
  moreover have "filter (\<lambda>i. bit bm i \<and> i < unat b) [0..<unat b] = filter (bit bm) [0..<unat b]"
    by (rule filter_cong) simp_all
  ultimately have "filter (bit (bm AND (bit_mask b - 1))) [0..<32] = below bm (unat b)"
    by (simp add: upt_split [OF assms] below_def filter_empty_conv del: upt_Suc)
  then show ?thesis
    by (simp add: child_index_def count_ones_def)
qed

lemma distinct_branches: "distinct (branches bm)"
  by (simp add: branches_def)

lemma set_branches: "set (branches bm) = {b. b < 32 \<and> bit bm b}"
  by (auto simp: branches_def)

section \<open>Hash chunks\<close>

definition chunk :: "hasher \<Rightarrow> bytes \<Rightarrow> nat \<Rightarrow> nat" where
  "chunk H key d = unat (extract_5bits (H key) d)"

lemma extract_5bits_less: "unat (extract_5bits h d) < 32"
proof -
  have "take_bit 5 (extract_5bits h d) = extract_5bits h d"
  proof (rule bit_eqI)
    fix i
    have "bit (0x1F :: u8) i \<longleftrightarrow> i < 5" "bit (0x1F :: u16) i \<longleftrightarrow> i < 5" for i
      using bit_mask_iff [of 5 i, where ?'a = u8] bit_mask_iff [of 5 i, where ?'a = u16]
      by (auto simp: mask_eq_exp_minus_1)
    then show "bit (take_bit 5 (extract_5bits h d)) i \<longleftrightarrow> bit (extract_5bits h d) i"
      by (auto simp: extract_5bits_def Let_def bit_simps)
  qed
  then have "unat (extract_5bits h d) = take_bit 5 (unat (extract_5bits h d))"
    by (metis unsigned_take_bit_eq)
  then show ?thesis
    using take_bit_nat_less_exp [of 5 "unat (extract_5bits h d)"] by simp
qed

lemma chunk_less [simp]: "chunk H key d < 32"
  by (simp add: chunk_def extract_5bits_less)

text \<open>Two hashes that agree on every chunk are equal: the 52 chunks cover all 256 bits.\<close>

lemma div_mod_8: "r < 8 \<Longrightarrow> (8 * j + r) div 8 = j \<and> (8 * j + r) mod 8 = (r :: nat)"
  by simp

lemma bit_extract_5bits:
  assumes "i < 5" "5 * d + i < 256"
  shows "bit (extract_5bits h d) i \<longleftrightarrow>
    bit (as_bytes h ! ((5 * d + i) div 8)) ((5 * d + i) mod 8)"
proof -
  define j where "j = d * 5 div 8"
  define r where "r = d * 5 mod 8"
  have d: "5 * d + i = 8 * j + (r + i)" "r < 8"
    by (simp_all add: j_def r_def)
  have m: "bit (0x1F :: u8) i" "bit (0x1F :: u16) i"
    using bit_mask_iff [of 5 i, where ?'a = u8] bit_mask_iff [of 5 i, where ?'a = u16] assms(1)
    by (auto simp: mask_eq_exp_minus_1)
  have j: "8 * j + (r + i) < 256"
    using assms(2) by (simp only: d)
  have e: "extract_5bits h d =
      (if j \<ge> 31 then drop_bit r (as_bytes h ! 31) AND 0x1F
       else ucast (drop_bit r (ucast (as_bytes h ! j) OR push_bit 8 (ucast (as_bytes h ! (j + 1))) :: u16)
         AND 0x1F))"
    by (simp add: extract_5bits_def Let_def j_def r_def)
  show ?thesis
  proof (cases "r + i < 8")
    case True
    then have q: "(8 * j + (r + i)) div 8 = j" "(8 * j + (r + i)) mod 8 = r + i"
      using div_mod_8 by blast+
    have "j \<le> 31" using j by linarith
    then show ?thesis
      unfolding d q e using True m assms(1) by (auto simp: bit_simps)
  next
    case False
    then have "r + i - 8 < 8" and s: "8 * j + (r + i) = 8 * (j + 1) + (r + i - 8)"
      using d(2) assms(1) by simp_all
    then have q: "(8 * j + (r + i)) div 8 = j + 1" "(8 * j + (r + i)) mod 8 = r + i - 8"
      unfolding s using div_mod_8 by blast+
    have "j < 31" using j False by linarith
    then show ?thesis
      unfolding d q e using False m assms(1) d(2) by (auto simp: bit_simps dest: bit_imp_le_length)
  qed
qed

lemma chunks_determine_hash:
  assumes "\<forall>d < 52. extract_5bits h d = extract_5bits h' d"
  shows "h = h'"
proof -
  have "as_bytes h ! n = as_bytes h' ! n" if n: "n < 32" for n
  proof (rule bit_eqI)
    fix k
    assume "possible_bit TYPE(u8) k"
    then have k: "k < 8" by (simp add: possible_bit_def)
    define d where "d = (8 * n + k) div 5"
    define i where "i = (8 * n + k) mod 5"
    have di: "5 * d + i = 8 * n + k" "i < 5"
      by (simp_all add: d_def i_def)
    with n k have "d < 52" "5 * d + i < 256" by linarith+
    moreover have "(8 * n + k) div 8 = n" "(8 * n + k) mod 8 = k"
      using k by simp_all
    ultimately show "bit (as_bytes h ! n) k \<longleftrightarrow> bit (as_bytes h' ! n) k"
      using bit_extract_5bits [of i d h] bit_extract_5bits [of i d h'] assms di by simp
  qed
  then have "as_bytes h = as_bytes h'"
    by (intro nth_equalityI) simp_all
  then show ?thesis
    by (simp add: as_bytes_inject)
qed

section \<open>Trees\<close>

datatype htree = HLeaf bytes bytes | HNode u32 "htree list"

lemma size_child: "c \<in> set cs \<Longrightarrow> size c < Suc (size_list size cs)"
  by (induction cs) auto

text \<open>The children of a bitmap node by branch.\<close>

definition kids :: "u32 \<Rightarrow> htree list \<Rightarrow> nat \<Rightarrow> htree option" where
  "kids bm cs = map_of (zip (branches bm) cs)"

function t_lookup :: "hasher \<Rightarrow> bytes \<Rightarrow> htree \<Rightarrow> nat \<Rightarrow> bytes option" where
  "t_lookup H key (HLeaf k v) d = (if k = key then Some v else None)"
| "t_lookup H key (HNode bm cs) d =
     (case kids bm cs (chunk H key d) of
        None \<Rightarrow> None
      | Some c \<Rightarrow> t_lookup H key c (d + 1))"
  by pat_completeness auto
termination
  by (relation "measure (\<lambda>(H, key, t, d). size t)")
    (auto simp: kids_def dest!: map_of_SomeD dest: set_zip_rightD size_child)

function t_leaf :: "hasher \<Rightarrow> bytes \<Rightarrow> htree \<Rightarrow> nat \<Rightarrow> htree option" where
  "t_leaf H key (HLeaf k v) d = (if k = key then Some (HLeaf k v) else None)"
| "t_leaf H key (HNode bm cs) d =
     (case kids bm cs (chunk H key d) of
        None \<Rightarrow> None
      | Some c \<Rightarrow> t_leaf H key c (d + 1))"
  by pat_completeness auto
termination
  by (relation "measure (\<lambda>(H, key, t, d). size t)")
    (auto simp: kids_def dest!: map_of_SomeD dest: set_zip_rightD size_child)

fun t_insert :: "hasher \<Rightarrow> nat \<Rightarrow> htree \<Rightarrow> bytes \<Rightarrow> bytes \<Rightarrow> nat \<Rightarrow> htree option"
  and t_expand :: "hasher \<Rightarrow> nat \<Rightarrow> bytes \<Rightarrow> bytes \<Rightarrow> bytes \<Rightarrow> bytes \<Rightarrow> nat \<Rightarrow> htree option" where
  "t_insert H 0 t key val d = None"
| "t_insert H (Suc n) (HLeaf k v) key val d =
     (if k = key then Some (HLeaf key val) else t_expand H n k v key val d)"
| "t_insert H (Suc n) (HNode bm cs) key val d =
     (let b = extract_5bits (H key) d; i = child_index bm b in
      case kids bm cs (chunk H key d) of
        Some c \<Rightarrow> map_option (\<lambda>c'. HNode bm (cs[i := c'])) (t_insert H n c key val (d + 1))
      | None \<Rightarrow> Some (HNode (bm OR bit_mask b) (take i cs @ HLeaf key val # drop i cs)))"
| "t_expand H 0 k v key val d = None"
| "t_expand H (Suc n) k v key val d =
     (let b1 = extract_5bits (H k) d; b2 = extract_5bits (H key) d in
      if b1 = b2 then t_insert H n (HLeaf k v) key val (d + 1)
      else Some (HNode (bit_mask b1 OR bit_mask b2)
             (if b1 < b2 then [HLeaf k v, HLeaf key val] else [HLeaf key val, HLeaf k v])))"

function t_remove :: "hasher \<Rightarrow> bytes \<Rightarrow> htree \<Rightarrow> nat \<Rightarrow> htree option" where
  "t_remove H key (HLeaf k v) d = (if k = key then None else Some (HLeaf k v))"
| "t_remove H key (HNode bm cs) d =
     (let b = extract_5bits (H key) d; i = child_index bm b in
      case kids bm cs (chunk H key d) of
        None \<Rightarrow> Some (HNode bm cs)
      | Some c \<Rightarrow>
          (case t_remove H key c (d + 1) of
             None \<Rightarrow>
               (if take i cs @ drop (Suc i) cs = [] then None
                else Some (HNode (bm AND NOT (bit_mask b)) (take i cs @ drop (Suc i) cs)))
           | Some c' \<Rightarrow> Some (HNode bm (cs[i := c']))))"
  by pat_completeness auto
termination
  by (relation "measure (\<lambda>(H, key, t, d). size t)")
    (auto simp: kids_def dest!: map_of_SomeD dest: set_zip_rightD size_child)

fun t_entries :: "htree \<Rightarrow> (bytes \<times> bytes) list" where
  "t_entries (HLeaf k v) = [(k, v)]"
| "t_entries (HNode bm cs) = concat (map t_entries cs)"

fun height :: "htree \<Rightarrow> nat" where
  "height (HLeaf k v) = 0"
| "height (HNode bm cs) = Suc (Max (insert 0 (set (map height cs))))"

section \<open>Invariants\<close>

definition ok_leaf :: "bytes \<Rightarrow> bytes \<Rightarrow> bool" where
  "ok_leaf k v \<longleftrightarrow> length k < 2 ^ 16 \<and> length k + length v + 51 < 2 ^ 32"

fun wf_tree :: "htree \<Rightarrow> bool" where
  "wf_tree (HLeaf k v) = ok_leaf k v"
| "wf_tree (HNode bm cs) = (length cs = length (branches bm) \<and> (\<forall>c \<in> set cs. wf_tree c))"

definition leads :: "hasher \<Rightarrow> nat list \<Rightarrow> bytes \<Rightarrow> bool" where
  "leads H p key \<longleftrightarrow> (\<forall>i < length p. chunk H key i = p ! i)"

function placed :: "hasher \<Rightarrow> nat list \<Rightarrow> htree \<Rightarrow> bool" where
  "placed H p (HLeaf k v) = leads H p k"
| "placed H p (HNode bm cs) = (\<forall>(b, c) \<in> set (zip (branches bm) cs). placed H (p @ [b]) c)"
  by pat_completeness auto
termination
  by (relation "measure (\<lambda>(H, p, t). size t)") (auto dest: set_zip_rightD size_child)

text \<open>
  The leaf a new key meets holds the same key or differs from it in the chunk of that depth.
\<close>

function no_collision :: "hasher \<Rightarrow> bytes \<Rightarrow> htree \<Rightarrow> nat \<Rightarrow> bool" where
  "no_collision H key (HLeaf k v) d = (k = key \<or> chunk H k d \<noteq> chunk H key d)"
| "no_collision H key (HNode bm cs) d =
     (case kids bm cs (chunk H key d) of
        None \<Rightarrow> True
      | Some c \<Rightarrow> no_collision H key c (d + 1))"
  by pat_completeness auto
termination
  by (relation "measure (\<lambda>(H, key, t, d). size t)")
    (auto simp: kids_def dest!: map_of_SomeD dest: set_zip_rightD size_child)

section \<open>Children by branch\<close>

lemma leads_Nil [simp]: "leads H [] key"
  by (simp add: leads_def)

lemma leads_snoc: "leads H (p @ [b]) key \<longleftrightarrow> leads H p key \<and> chunk H key (length p) = b"
  by (auto simp: leads_def nth_append less_Suc_eq)

lemma kids_in: "kids bm cs b = Some c \<Longrightarrow> c \<in> set cs"
  by (auto simp: kids_def dest!: map_of_SomeD dest: set_zip_rightD)

lemma kids_iff: "kids bm cs b = Some c \<longleftrightarrow> (b, c) \<in> set (zip (branches bm) cs)"
proof -
  have "distinct (map fst (zip (branches bm) cs))"
    by (simp add: map_fst_zip_take distinct_branches)
  then show ?thesis
    by (simp add: kids_def)
qed

lemma placed_HNode: "placed H p (HNode bm cs) \<longleftrightarrow> (\<forall>b c. kids bm cs b = Some c \<longrightarrow> placed H (p @ [b]) c)"
  by (auto simp: kids_iff)

lemma wf_children:
  assumes "length cs = length (branches bm)"
  shows "(\<forall>c \<in> set cs. P c) \<longleftrightarrow> (\<forall>b c. kids bm cs b = Some c \<longrightarrow> P c)"
proof -
  have "set cs = snd ` set (zip (branches bm) cs)"
    using assms by (metis list.set_map map_snd_zip)
  then show ?thesis
    by (auto simp: kids_iff)
qed

text \<open>
  Where a branch is, the children split at its index; this is the only place where bitmaps and
  positions meet.
\<close>

lemma kids_present:
  assumes len: "length cs = length (branches bm)" and b: "unat b < 32" and bit: "bit bm (unat b)"
  defines "i \<equiv> child_index bm b"
  shows "i < length cs" "kids bm cs (unat b) = Some (cs ! i)"
    "kids bm (cs[i := c]) = (kids bm cs)(unat b \<mapsto> c)"
    "kids (bm AND NOT (bit_mask b)) (take i cs @ drop (Suc i) cs) = (kids bm cs)(unat b := None)"
    "length (take i cs @ drop (Suc i) cs) = length (branches (bm AND NOT (bit_mask b)))"
proof -
  let ?l = "below bm (unat b)" and ?r = "above bm (unat b)"
  note br = branches_set [OF b bit] and i = child_index_below [OF b, of bm]
  have nin: "unat b \<notin> set ?l" "unat b \<notin> set ?r"
    by (auto simp: below_def above_def)
  show il: "i < length cs"
    by (simp add: len br i i_def)
  then have cs: "cs = take i cs @ cs ! i # drop (Suc i) cs"
    by (rule id_take_nth_drop)
  have tl: "length (take i cs) = length ?l"
    using il by (simp add: i_def i)
  have zip: "zip (branches bm) (take i cs @ x # drop (Suc i) cs) =
      zip ?l (take i cs) @ (unat b, x) # zip ?r (drop (Suc i) cs)" for x
    unfolding br by (subst zip_append) (simp_all add: tl del: length_take)
  have fresh: "map_of (zip ?l (take i cs)) (unat b) = None" "map_of (zip ?r (drop (Suc i) cs)) (unat b) = None"
    using nin by (auto simp: map_of_eq_None_iff dest: set_zip_leftD)
  have k: "kids bm cs = (map_of (zip ?r (drop (Suc i) cs)))(unat b \<mapsto> cs ! i) ++ map_of (zip ?l (take i cs))"
    unfolding kids_def by (subst cs, subst zip) simp
  then show "kids bm cs (unat b) = Some (cs ! i)"
    by (simp add: map_add_def fresh)
  have "kids bm (cs[i := c]) =
      (map_of (zip ?r (drop (Suc i) cs)))(unat b \<mapsto> c) ++ map_of (zip ?l (take i cs))"
    unfolding kids_def upd_conv_take_nth_drop [OF il] zip by simp
  then show "kids bm (cs[i := c]) = (kids bm cs)(unat b \<mapsto> c)"
    by (auto simp: k fresh map_add_def split: option.splits)
  have "kids (bm AND NOT (bit_mask b)) (take i cs @ drop (Suc i) cs) =
      map_of (zip ?r (drop (Suc i) cs)) ++ map_of (zip ?l (take i cs))"
    by (simp add: kids_def branches_and_not [OF b] zip_append tl del: length_take)
  then show "kids (bm AND NOT (bit_mask b)) (take i cs @ drop (Suc i) cs) = (kids bm cs)(unat b := None)"
    by (auto simp: k fresh map_add_def split: option.splits)
  show "length (take i cs @ drop (Suc i) cs) = length (branches (bm AND NOT (bit_mask b)))"
    using len il by (simp add: branches_and_not [OF b] br i i_def)
qed

lemma kids_absent:
  assumes len: "length cs = length (branches bm)" and b: "unat b < 32" and bit: "\<not> bit bm (unat b)"
  defines "i \<equiv> child_index bm b"
  shows "i \<le> length cs" "kids bm cs (unat b) = None"
    "kids (bm OR bit_mask b) (take i cs @ c # drop i cs) = (kids bm cs)(unat b \<mapsto> c)"
    "length (take i cs @ c # drop i cs) = length (branches (bm OR bit_mask b))"
proof -
  let ?l = "below bm (unat b)" and ?r = "above bm (unat b)"
  note br = branches_clear [OF b bit] and i = child_index_below [OF b, of bm]
  have nin: "unat b \<notin> set ?l" "unat b \<notin> set ?r"
    by (auto simp: below_def above_def)
  show il: "i \<le> length cs"
    by (simp add: len br i i_def)
  have tl: "length (take i cs) = length ?l"
    using il by (simp add: i_def i)
  have "zip (branches bm) (take i cs @ drop i cs) = zip ?l (take i cs) @ zip ?r (drop i cs)"
    unfolding br by (subst zip_append) (simp_all add: tl del: length_take)
  then have k: "kids bm cs = map_of (zip ?r (drop i cs)) ++ map_of (zip ?l (take i cs))"
    by (simp add: kids_def)
  have fresh: "map_of (zip ?l (take i cs)) (unat b) = None" "map_of (zip ?r (drop i cs)) (unat b) = None"
    using nin by (auto simp: map_of_eq_None_iff dest: set_zip_leftD)
  then show "kids bm cs (unat b) = None"
    by (simp add: k map_add_def)
  have "kids (bm OR bit_mask b) (take i cs @ c # drop i cs) =
      (map_of (zip ?r (drop i cs)))(unat b \<mapsto> c) ++ map_of (zip ?l (take i cs))"
    by (simp add: kids_def branches_or [OF b] zip_append tl del: length_take)
  then show "kids (bm OR bit_mask b) (take i cs @ c # drop i cs) = (kids bm cs)(unat b \<mapsto> c)"
    by (auto simp: k fresh map_add_def split: option.splits)
  show "length (take i cs @ c # drop i cs) = length (branches (bm OR bit_mask b))"
    using len il by (simp add: branches_or [OF b] br i i_def)
qed

end
