(* ===== verification/Hamt_Map.thy ===== *)
theory Hamt_Map
  imports Hamt_Tree
begin

text \<open>
  What the tree algorithms compute: insertion, removal and enumeration as operations on the finite
  map a tree denotes, the invariants they keep, and the fuel they need.
\<close>

section \<open>Nodes\<close>

abbreviation branch_of :: "hasher \<Rightarrow> bytes \<Rightarrow> nat \<Rightarrow> u8" where
  "branch_of H key d \<equiv> extract_5bits (H key) d"

lemma node_present:
  assumes "length cs = length (branches bm)" "kids bm cs (chunk H key d) = Some c"
  defines "b \<equiv> branch_of H key d" and "i \<equiv> child_index bm (branch_of H key d)"
  shows "bm AND bit_mask b \<noteq> 0" "i < length cs" "c = cs ! i"
    "kids bm (cs[i := c']) = (kids bm cs)(chunk H key d \<mapsto> c')"
    "kids (bm AND NOT (bit_mask b)) (take i cs @ drop (Suc i) cs) = (kids bm cs)(chunk H key d := None)"
    "length (take i cs @ drop (Suc i) cs) = length (branches (bm AND NOT (bit_mask b)))"
proof -
  have b: "unat b < 32"
    by (simp add: b_def extract_5bits_less)
  have bit: "bit bm (unat b)"
    using kids_absent(2) [OF assms(1) b] assms(2) by (auto simp: chunk_def b_def)
  then show "bm AND bit_mask b \<noteq> 0"
    by (simp add: and_bit_mask b)
  note k = kids_present [OF assms(1) b bit]
  show "i < length cs" "c = cs ! i"
    using k(1,2) assms(2) by (simp_all add: chunk_def b_def i_def)
  show "kids bm (cs[i := c']) = (kids bm cs)(chunk H key d \<mapsto> c')"
    "kids (bm AND NOT (bit_mask b)) (take i cs @ drop (Suc i) cs) = (kids bm cs)(chunk H key d := None)"
    "length (take i cs @ drop (Suc i) cs) = length (branches (bm AND NOT (bit_mask b)))"
    using k(3-5) by (simp_all only: chunk_def b_def i_def)
qed

lemma node_absent:
  assumes "length cs = length (branches bm)" "kids bm cs (chunk H key d) = None"
  defines "b \<equiv> branch_of H key d" and "i \<equiv> child_index bm (branch_of H key d)"
  shows "bm AND bit_mask b = 0" "i \<le> length cs"
    "kids (bm OR bit_mask b) (take i cs @ c # drop i cs) = (kids bm cs)(chunk H key d \<mapsto> c)"
    "length (take i cs @ c # drop i cs) = length (branches (bm OR bit_mask b))"
proof -
  have b: "unat b < 32"
    by (simp add: b_def extract_5bits_less)
  have bit: "\<not> bit bm (unat b)"
    using kids_present(2) [OF assms(1) b] assms(2) by (auto simp: chunk_def b_def)
  then show "bm AND bit_mask b = 0"
    by (simp add: and_bit_mask b)
  note k = kids_absent [OF assms(1) b bit]
  show "i \<le> length cs"
    "kids (bm OR bit_mask b) (take i cs @ c # drop i cs) = (kids bm cs)(chunk H key d \<mapsto> c)"
    "length (take i cs @ c # drop i cs) = length (branches (bm OR bit_mask b))"
    using k(1,3,4) by (simp_all only: chunk_def b_def i_def)
qed

lemma branches_single: "unat b < 32 \<Longrightarrow> branches (bit_mask b) = [unat b]"
  using branches_or [of b 0] by (simp add: below_def above_def)

lemma kids_pair:
  assumes b: "unat b1 < 32" "unat b2 < 32" "b1 \<noteq> b2"
  shows "kids (bit_mask b1 OR bit_mask b2) (if b1 < b2 then [x, y] else [y, x]) =
      [unat b1 \<mapsto> x, unat b2 \<mapsto> y]" (is "?k = _")
    and "length (branches (bit_mask b1 OR bit_mask b2)) = 2"
proof -
  let ?i = "child_index (bit_mask b1) b2"
  have "below (bit_mask b1) (unat b2) = (if unat b1 < unat b2 then [unat b1] else [])"
  proof (cases "unat b1 < unat b2")
    case True
    then have "[0..<unat b2] = [0..<unat b1] @ unat b1 # [Suc (unat b1)..<unat b2]"
      by (metis le_eq_less_or_eq upt_add_eq_append le_add_diff_inverse upt_conv_Cons zero_le)
    then show ?thesis
      using True b by (simp add: below_def bit_bit_mask filter_empty_conv)
  next
    case False
    then show ?thesis
      using b by (auto simp: below_def bit_bit_mask filter_empty_conv)
  qed
  then have i: "?i = (if b1 < b2 then 1 else 0)"
    using b by (simp add: child_index_below word_less_nat_alt)
  have nb: "\<not> bit (bit_mask b1) (unat b2)"
    using b by (auto simp: bit_bit_mask dest: unsigned_word_eqI)
  have one: "length [x] = length (branches (bit_mask b1))"
    using b by (simp add: branches_single)
  note k = kids_absent(3,4) [OF one b(2) nb, of y]
  have "kids (bit_mask b1) [x] = [unat b1 \<mapsto> x]"
    using b by (simp add: kids_def branches_single)
  with k i show "?k = [unat b1 \<mapsto> x, unat b2 \<mapsto> y]" "length (branches (bit_mask b1 OR bit_mask b2)) = 2"
    by (auto split: if_splits)
qed

section \<open>Insertion\<close>

lemma ball_vec:
  "\<forall>c \<in> set cs. P c \<Longrightarrow> P x \<Longrightarrow> \<forall>c \<in> set (take i cs @ x # drop i cs). P c"
  "\<forall>c \<in> set cs. P c \<Longrightarrow> P x \<Longrightarrow> \<forall>c \<in> set (cs[i := x]). P c"
  "\<forall>c \<in> set cs. P c \<Longrightarrow> \<forall>c \<in> set (take i cs @ drop j cs). P c"
  using set_take_subset [of i cs] set_drop_subset [of i cs] set_drop_subset [of j cs]
    set_update_subset_insert [of cs i x]
  by auto

lemma t_insert_wf:
  "wf_tree t \<Longrightarrow> ok_leaf key val \<Longrightarrow> t_insert H n t key val d = Some t' \<Longrightarrow> wf_tree t'"
  "ok_leaf k v \<Longrightarrow> ok_leaf key val \<Longrightarrow> t_expand H n k v key val d = Some t' \<Longrightarrow> wf_tree t'"
proof (induction H n t key val d and H n k v key val d arbitrary: t' and t'
    rule: t_insert_t_expand.induct)
  case (3 H n bm cs key val d)
  show ?case
  proof (cases "kids bm cs (chunk H key d)")
    case None
    with 3(4) have t': "t' = HNode (bm OR bit_mask (branch_of H key d))
        (take (child_index bm (branch_of H key d)) cs @ HLeaf key val
         # drop (child_index bm (branch_of H key d)) cs)"
      by (simp add: Let_def)
    show ?thesis
      using node_absent(4) [OF _ None] ball_vec(1) [of cs wf_tree "HLeaf key val"] 3(2,3)
      unfolding t' wf_tree.simps by blast
  next
    case (Some c)
    then obtain c' where c': "t_insert H n c key val (d + 1) = Some c'"
      and t': "t' = HNode bm (cs[child_index bm (branch_of H key d) := c'])"
      using 3(4) by (auto simp: Let_def)
    have "wf_tree c'"
      using 3(1) [OF refl refl Some _ 3(3) c'] 3(2) kids_in [OF Some] by simp
    then show ?thesis
      using 3(2) ball_vec(2) [of cs wf_tree c'] unfolding t' wf_tree.simps by simp
  qed
next
  case (5 H n k v key val d)
  show ?case
  proof (cases "branch_of H k d = branch_of H key d")
    case True
    then show ?thesis using 5 by simp
  next
    case False
    have "length (branches (bit_mask (branch_of H k d) OR bit_mask (branch_of H key d))) = 2"
      using kids_pair(2) [OF extract_5bits_less extract_5bits_less False] by simp
    then show ?thesis
      using 5(2-4) False by (auto simp: Let_def split: if_splits)
  qed
qed (auto split: if_splits)

text \<open>Without a collision the leaf is replaced or paired with the new one.\<close>

lemma t_insert_leaf:
  assumes "no_collision H key (HLeaf k v) d" "t_insert H n (HLeaf k v) key val d = Some t'"
  shows "(k = key \<and> t' = HLeaf key val) \<or>
    (k \<noteq> key \<and> chunk H k d \<noteq> chunk H key d \<and>
     t' = HNode (bit_mask (branch_of H k d) OR bit_mask (branch_of H key d))
       (if branch_of H k d < branch_of H key d then [HLeaf k v, HLeaf key val]
        else [HLeaf key val, HLeaf k v]))"
  using assms
  by (cases n rule: nat.exhaust; cases "n - 1" rule: nat.exhaust)
    (auto simp: Let_def chunk_def split: if_splits)

lemma t_lookup_pair:
  assumes "chunk H k d \<noteq> chunk H key d"
  shows "t_lookup H q (HNode (bit_mask (branch_of H k d) OR bit_mask (branch_of H key d))
       (if branch_of H k d < branch_of H key d then [HLeaf k v, HLeaf key val]
        else [HLeaf key val, HLeaf k v])) d =
     (if q = key then Some val else if q = k then Some v else None)"
proof -
  have "branch_of H k d \<noteq> branch_of H key d"
    using assms by (auto simp: chunk_def)
  note k = kids_pair(1) [OF extract_5bits_less extract_5bits_less this]
  show ?thesis
    unfolding t_lookup.simps k using assms by (auto simp: chunk_def)
qed

lemma t_lookup_insert:
  assumes "wf_tree t" "no_collision H key t d" "t_insert H n t key val d = Some t'"
  shows "t_lookup H q t' d = (if q = key then Some val else t_lookup H q t d)"
  using assms
proof (induction n arbitrary: t t' d)
  case 0
  then show ?case by simp
next
  case (Suc n)
  show ?case
  proof (cases t)
    case (HLeaf k v)
    consider "k = key" "t' = HLeaf key val"
      | "k \<noteq> key" "chunk H k d \<noteq> chunk H key d"
        "t' = HNode (bit_mask (branch_of H k d) OR bit_mask (branch_of H key d))
         (if branch_of H k d < branch_of H key d then [HLeaf k v, HLeaf key val]
          else [HLeaf key val, HLeaf k v])"
      using t_insert_leaf [of H key k v d "Suc n" val t'] Suc.prems unfolding HLeaf by blast
    then show ?thesis
    proof cases
      case 1
      then show ?thesis by (simp add: HLeaf)
    next
      case 2
      then show ?thesis using t_lookup_pair [OF 2(2)] by (auto simp: HLeaf)
    qed
  next
    case (HNode bm cs)
    with Suc.prems have len: "length cs = length (branches bm)" by simp
    show ?thesis
    proof (cases "kids bm cs (chunk H key d)")
      case None
      with Suc.prems(3) show ?thesis
        using node_absent(3) [OF len None] by (auto simp: HNode Let_def)
    next
      case (Some c)
      with Suc.prems obtain c' where c': "t_insert H n c key val (d + 1) = Some c'"
        and t': "t' = HNode bm (cs[child_index bm (branch_of H key d) := c'])"
        by (auto simp: HNode Let_def)
      have "wf_tree c" "no_collision H key c (d + 1)"
        using Suc.prems Some kids_in [OF Some] by (auto simp: HNode)
      note IH = Suc.IH [OF this c']
      show ?thesis
        using Some IH by (auto simp: t' HNode node_present(4) [OF len Some])
    qed
  qed
qed

lemma placed_pair:
  assumes "chunk H k (length p) \<noteq> chunk H key (length p)" "leads H p k" "leads H p key"
  shows "placed H p (HNode (bit_mask (branch_of H k (length p)) OR bit_mask (branch_of H key (length p)))
       (if branch_of H k (length p) < branch_of H key (length p) then [HLeaf k v, HLeaf key val]
        else [HLeaf key val, HLeaf k v]))"
proof -
  have "branch_of H k (length p) \<noteq> branch_of H key (length p)"
    using assms by (auto simp: chunk_def)
  note k = kids_pair(1) [OF extract_5bits_less extract_5bits_less this]
  show ?thesis
    unfolding placed_HNode k using assms by (auto simp: leads_snoc chunk_def split: if_splits)
qed

lemma t_insert_placed:
  assumes "wf_tree t" "placed H p t" "leads H p key" "no_collision H key t (length p)"
    and "t_insert H n t key val (length p) = Some t'"
  shows "placed H p t'"
  using assms
proof (induction n arbitrary: t t' p)
  case 0
  then show ?case by simp
next
  case (Suc n)
  show ?case
  proof (cases t)
    case (HLeaf k v)
    consider "t' = HLeaf key val"
      | "chunk H k (length p) \<noteq> chunk H key (length p)"
        "t' = HNode (bit_mask (branch_of H k (length p)) OR bit_mask (branch_of H key (length p)))
         (if branch_of H k (length p) < branch_of H key (length p) then [HLeaf k v, HLeaf key val]
          else [HLeaf key val, HLeaf k v])"
      using t_insert_leaf [of H key k v "length p" "Suc n" val t'] Suc.prems unfolding HLeaf by blast
    then show ?thesis
      using placed_pair [of H k p key v val] Suc.prems(2,3) by cases (simp_all add: HLeaf)
  next
    case (HNode bm cs)
    with Suc.prems have len: "length cs = length (branches bm)" by simp
    have old: "placed H (p @ [b]) c" if "kids bm cs b = Some c" for b c
      using Suc.prems(2) that by (simp add: HNode placed_HNode del: placed.simps)
    show ?thesis
    proof (cases "kids bm cs (chunk H key (length p))")
      case None
      with Suc.prems(5) have t': "t' = HNode (bm OR bit_mask (branch_of H key (length p)))
          (take (child_index bm (branch_of H key (length p))) cs @ HLeaf key val
           # drop (child_index bm (branch_of H key (length p))) cs)"
        by (simp add: HNode Let_def)
      show ?thesis
        unfolding t' placed_HNode node_absent(3) [OF len None]
        using old Suc.prems(3) by (auto simp: leads_snoc)
    next
      case (Some c)
      with Suc.prems(5) obtain c' where c': "t_insert H n c key val (length p + 1) = Some c'"
        and t': "t' = HNode bm (cs[child_index bm (branch_of H key (length p)) := c'])"
        by (auto simp: HNode Let_def)
      have "placed H (p @ [chunk H key (length p)]) c'"
        using Suc.IH [of c "p @ [chunk H key (length p)]" c'] Suc.prems Some kids_in [OF Some]
          old [OF Some] c'
        by (simp add: HNode leads_snoc)
      then show ?thesis
        unfolding t' placed_HNode node_present(4) [OF len Some] using old by auto
    qed
  qed
qed

section \<open>Removal\<close>

lemma t_remove_wf: "wf_tree t \<Longrightarrow> t_remove H key t d = Some t' \<Longrightarrow> wf_tree t'"
proof (induction H key t d arbitrary: t' rule: t_remove.induct)
  case (1 H key k v d)
  then show ?case by (auto split: if_splits)
next
  case (2 H key bm cs d)
  then have len: "length cs = length (branches bm)" by simp
  show ?case
  proof (cases "kids bm cs (chunk H key d)")
    case None
    then show ?thesis using 2(2,3) by (auto simp: Let_def)
  next
    case (Some c)
    let ?i = "child_index bm (branch_of H key d)"
    show ?thesis
    proof (cases "t_remove H key c (d + 1)")
      case None
      with Some 2(3) have t': "t' = HNode (bm AND NOT (bit_mask (branch_of H key d)))
          (take ?i cs @ drop (Suc ?i) cs)"
        by (simp add: Let_def split: if_splits)
      show ?thesis
        using node_present(6) [OF len Some] ball_vec(3) [of cs wf_tree] 2(2)
        unfolding t' wf_tree.simps by blast
    next
      case (Some c')
      with \<open>kids bm cs (chunk H key d) = Some c\<close> 2(3) have t': "t' = HNode bm (cs[?i := c'])"
        by (simp add: Let_def)
      have "wf_tree c'"
        using 2(1) [OF refl refl \<open>kids bm cs (chunk H key d) = Some c\<close> _ Some] 2(2)
          kids_in [OF \<open>kids bm cs (chunk H key d) = Some c\<close>] by simp
      then show ?thesis
        using 2(2) ball_vec(2) [of cs wf_tree c'] unfolding t' wf_tree.simps by simp
    qed
  qed
qed

lemma t_lookup_remove:
  "wf_tree t \<Longrightarrow>
     (case t_remove H key t d of
        None \<Rightarrow> \<forall>q. q \<noteq> key \<longrightarrow> t_lookup H q t d = None
      | Some t' \<Rightarrow> \<forall>q. t_lookup H q t' d = (if q = key then None else t_lookup H q t d))"
proof (induction H key t d rule: t_remove.induct)
  case (1 H key k v d)
  then show ?case by auto
next
  case (2 H key bm cs d)
  then have len: "length cs = length (branches bm)" by simp
  let ?i = "child_index bm (branch_of H key d)"
  show ?case
  proof (cases "kids bm cs (chunk H key d)")
    case None
    then show ?thesis by (auto simp: Let_def)
  next
    case (Some c)
    then have "wf_tree c" using 2(2) kids_in [OF Some] by simp
    note IH = 2(1) [OF refl refl Some this]
    note kid = node_present(4,5) [OF len Some]
    show ?thesis
    proof (cases "t_remove H key c (d + 1)")
      case None
      with IH have IH: "\<forall>q. q \<noteq> key \<longrightarrow> t_lookup H q c (d + 1) = None" by simp
      show ?thesis
      proof (cases "take ?i cs @ drop (Suc ?i) cs = []")
        case True
        then have "(kids bm cs)(chunk H key d := None) = Map.empty"
          using kid(2) [unfolded True] by (simp add: kids_def)
        then have "kids bm cs b = None" if "b \<noteq> chunk H key d" for b
          using that by (metis fun_upd_other)
        then have "\<forall>q. q \<noteq> key \<longrightarrow> t_lookup H q (HNode bm cs) d = None"
          using Some IH by (auto split: option.splits) (metis option.inject option.distinct(1))
        then show ?thesis
          using Some None True by (simp add: Let_def)
      next
        case False
        then show ?thesis
          using Some None IH kid(2) by (auto simp: Let_def)
      qed
    next
      case (Some c')
      then show ?thesis
        using \<open>kids bm cs (chunk H key d) = Some c\<close> IH kid(1) by (auto simp: Let_def)
    qed
  qed
qed

lemma t_remove_placed:
  "wf_tree t \<Longrightarrow> placed H p t \<Longrightarrow> t_remove H key t (length p) = Some t' \<Longrightarrow> placed H p t'"
proof (induction H key t "length p" arbitrary: p t' rule: t_remove.induct)
  case (1 H key k v)
  then show ?case by (auto split: if_splits)
next
  case (2 H key bm cs)
  let ?b = "chunk H key (length p)" and ?i = "child_index bm (branch_of H key (length p))"
  from 2 have len: "length cs = length (branches bm)" by simp
  have old: "placed H (p @ [b]) c" if "kids bm cs b = Some c" for b c
    using 2(3) that by (simp add: placed_HNode del: placed.simps)
  show ?case
  proof (cases "kids bm cs ?b")
    case None
    then show ?thesis using 2(3,4) by (auto simp: Let_def)
  next
    case (Some c)
    note kid = node_present(4,5) [OF len Some]
    show ?thesis
    proof (cases "t_remove H key c (length p + 1)")
      case None
      with Some 2(4) have t': "t' = HNode (bm AND NOT (bit_mask (branch_of H key (length p))))
          (take ?i cs @ drop (Suc ?i) cs)"
        by (simp add: Let_def split: if_splits)
      show ?thesis
        unfolding t' placed_HNode kid(2) using old by auto
    next
      case (Some c')
      with \<open>kids bm cs ?b = Some c\<close> 2(4) have t': "t' = HNode bm (cs[?i := c'])"
        by (simp add: Let_def)
      have "placed H (p @ [?b]) c'"
        using 2(1) [OF refl refl \<open>kids bm cs ?b = Some c\<close>, of "p @ [?b]" c'] 2(2) Some
          kids_in [OF \<open>kids bm cs ?b = Some c\<close>] old [OF \<open>kids bm cs ?b = Some c\<close>] by simp
      then show ?thesis
        unfolding t' placed_HNode kid(1) using old by auto
    qed
  qed
qed

section \<open>Enumeration\<close>

lemma distinct_concat_entries:
  assumes "length bs = length cs" "distinct bs"
    and "\<And>b c. (b, c) \<in> set (zip bs cs) \<Longrightarrow>
      distinct (map fst (t_entries c)) \<and> (\<forall>(k, v) \<in> set (t_entries c). f k = b)"
  shows "distinct (map fst (concat (map t_entries cs)))"
  using assms
proof (induction bs cs rule: list_induct2)
  case Nil
  then show ?case by simp
next
  case (Cons b bs c cs)
  have "f k \<in> set bs" if "c' \<in> set cs" "(k, v) \<in> set (t_entries c')" for k v c'
  proof -
    from that(1) obtain i where "i < length cs" "c' = cs ! i"
      by (auto simp: in_set_conv_nth)
    with Cons(1) have "(bs ! i, c') \<in> set (zip bs cs)"
      by (auto simp: set_zip)
    with Cons(4) [of "bs ! i" c'] that(2) have "f k = bs ! i" by auto
    with \<open>(bs ! i, c') \<in> set (zip bs cs)\<close> show ?thesis
      by (auto dest: set_zip_leftD)
  qed
  moreover have "f k = b" if "(k, v) \<in> set (t_entries c)" for k v
    using Cons(4) [of b c] that by auto
  ultimately have "fst ` set (t_entries c) \<inter> fst ` set (concat (map t_entries cs)) = {}"
    using Cons(3) by fastforce
  moreover have "distinct (map fst (concat (map t_entries cs)))"
    using Cons(3) by (intro Cons(2) Cons(4)) auto
  moreover have "distinct (map fst (t_entries c))"
    using Cons(4) [of b c] by simp
  ultimately show ?case
    by (simp add: image_UN)
qed

lemma t_entries_spec:
  "wf_tree t \<Longrightarrow> placed H p t \<Longrightarrow>
     distinct (map fst (t_entries t)) \<and>
     (\<forall>k v. (k, v) \<in> set (t_entries t) \<longleftrightarrow> leads H p k \<and> t_lookup H k t (length p) = Some v)"
proof (induction t arbitrary: p)
  case (HLeaf k v)
  then show ?case by auto
next
  case (HNode bm cs)
  then have len: "length cs = length (branches bm)" by simp
  have IH: "distinct (map fst (t_entries c)) \<and>
     (\<forall>k v. (k, v) \<in> set (t_entries c) \<longleftrightarrow>
        leads H p k \<and> chunk H k (length p) = b \<and> t_lookup H k c (length p + 1) = Some v)"
    if "kids bm cs b = Some c" for b c
    using HNode.IH [OF kids_in [OF that], of "p @ [b]"] HNode.prems kids_in [OF that] that
    by (simp add: placed_HNode leads_snoc del: placed.simps)
  have "distinct (map fst (concat (map t_entries cs)))"
    by (rule distinct_concat_entries [OF len [symmetric] distinct_branches,
        where f = "\<lambda>k. chunk H k (length p)"]) (use IH in \<open>auto simp: kids_iff\<close>)
  then have "distinct (map fst (t_entries (HNode bm cs)))" by simp
  moreover have "(k, v) \<in> set (t_entries (HNode bm cs)) \<longleftrightarrow>
      (\<exists>b c. kids bm cs b = Some c \<and> (k, v) \<in> set (t_entries c))" for k v
    using wf_children [OF len, of "\<lambda>c. (k, v) \<notin> set (t_entries c)"] by auto
  moreover have "(\<exists>b c. kids bm cs b = Some c \<and> (k, v) \<in> set (t_entries c)) \<longleftrightarrow>
      leads H p k \<and> t_lookup H k (HNode bm cs) (length p) = Some v" for k v
    using IH [of "chunk H k (length p)"] IH by (fastforce split: option.splits)
  ultimately show ?case by blast
qed

lemma t_leaf_lookup: "t_leaf H key t d = map_option (HLeaf key) (t_lookup H key t d)"
  by (induction H key t d rule: t_lookup.induct) (auto split: option.splits)

section \<open>Fuel\<close>

lemma height_kid: "kids bm cs b = Some c \<Longrightarrow> height c < height (HNode bm cs)"
  using kids_in [of bm cs b c] by (auto simp: less_Suc_eq_le intro: Max_ge)

lemma t_insert_fuel:
  "no_collision H key t d \<Longrightarrow> height t + 2 \<le> n \<Longrightarrow> \<exists>t'. t_insert H n t key val d = Some t'"
proof (induction n arbitrary: t d)
  case 0
  then show ?case by simp
next
  case (Suc n)
  show ?case
  proof (cases t)
    case (HLeaf k v)
    with Suc.prems obtain m where "n = Suc m" by (cases n) auto
    with Suc.prems HLeaf show ?thesis
      by (auto simp: chunk_def Let_def)
  next
    case (HNode bm cs)
    show ?thesis
    proof (cases "kids bm cs (chunk H key d)")
      case None
      then show ?thesis by (simp add: HNode Let_def)
    next
      case (Some c)
      then have "\<exists>t'. t_insert H n c key val (d + 1) = Some t'"
        using Suc height_kid [OF Some] by (intro Suc.IH) (auto simp: HNode simp del: height.simps)
      then show ?thesis
        using Some by (auto simp: HNode Let_def)
    qed
  qed
qed

text \<open>
  A collision is resolved at the first depth where the chunks differ; two units per depth.
\<close>

lemma t_expand_fuel:
  "chunk H k e \<noteq> chunk H key e \<Longrightarrow> d \<le> e \<Longrightarrow> k \<noteq> key \<Longrightarrow> 2 * (e - d) + 1 \<le> n \<Longrightarrow>
     \<exists>t'. t_expand H n k v key val d = Some t'"
proof (induction "e - d" arbitrary: d n)
  case 0
  then show ?case
    by (cases n) (auto simp: chunk_def Let_def)
next
  case (Suc x)
  then obtain m where n: "n = Suc (Suc m)"
    by (cases n; cases "n - 1") auto
  have "\<exists>t'. t_expand H m k v key val (d + 1) = Some t'"
    using Suc n by (intro Suc.hyps(1)) auto
  then show ?case
    using \<open>k \<noteq> key\<close> by (auto simp: n Let_def)
qed

lemma t_insert_terminates:
  assumes "placed H p t" "leads H p key" "\<forall>(k, v) \<in> set (t_entries t). k \<noteq> key \<longrightarrow> H k \<noteq> H key"
    and "height t + 105 \<le> n"
  shows "\<exists>t'. t_insert H n t key val (length p) = Some t'"
  using assms
proof (induction n arbitrary: t p)
  case 0
  then show ?case by simp
next
  case (Suc n)
  show ?case
  proof (cases t)
    case (HLeaf k v)
    show ?thesis
    proof (cases "k = key")
      case False
      with Suc.prems(3) obtain e where e: "e < 52" "chunk H k e \<noteq> chunk H key e"
        using chunks_determine_hash [of "H k" "H key"]
        by (auto simp: HLeaf chunk_def word_unat_eq_iff)
      moreover have "length p \<le> e"
        using Suc.prems(1,2) e by (auto simp: HLeaf leads_def intro: leI)
      ultimately show ?thesis
        using t_expand_fuel [of H k e key "length p" n v val] False Suc.prems(4) by (simp add: HLeaf)
    qed (simp add: HLeaf)
  next
    case (HNode bm cs)
    let ?b = "chunk H key (length p)"
    show ?thesis
    proof (cases "kids bm cs ?b")
      case None
      then show ?thesis by (simp add: HNode Let_def)
    next
      case (Some c)
      have "placed H (p @ [?b]) c" "leads H (p @ [?b]) key"
        using Suc.prems Some by (auto simp: HNode placed_HNode leads_snoc simp del: placed.simps)
      moreover have "\<forall>(k, v) \<in> set (t_entries c). k \<noteq> key \<longrightarrow> H k \<noteq> H key"
        using Suc.prems(3) kids_in [OF Some] by (auto simp: HNode)
      moreover have "height c + 105 \<le> n"
        using Suc.prems(4) height_kid [OF Some] by (simp add: HNode del: height.simps)
      ultimately have "\<exists>t'. t_insert H n c key val (length (p @ [?b])) = Some t'"
        by (rule Suc.IH)
      then show ?thesis
        using Some by (auto simp: HNode Let_def)
    qed
  qed
qed

section \<open>Collisions\<close>

text \<open>
  The node built for a collision is built for a deeper level than the one it is stored at: the
  levels in between are missing. One of the two keys cannot be found, although both are stored.
\<close>

lemma t_expand_shape:
  "t_expand H n k v key val d = Some t' \<Longrightarrow> k \<noteq> key \<Longrightarrow>
     \<exists>bm. t' = HNode bm [HLeaf k v, HLeaf key val] \<or> t' = HNode bm [HLeaf key val, HLeaf k v]"
proof (induction n arbitrary: d rule: less_induct)
  case (less n)
  then obtain m where n: "n = Suc m" by (cases n) auto
  show ?case
  proof (cases "branch_of H k d = branch_of H key d")
    case True
    with less.prems n obtain l where "m = Suc l" "t_expand H l k v key val (d + 1) = Some t'"
      by (cases m) auto
    then show ?thesis
      using less.IH [of l "d + 1"] less.prems(2) by (simp add: n)
  next
    case False
    with less.prems show ?thesis by (auto simp: n Let_def split: if_splits)
  qed
qed

lemma t_collision:
  assumes "k \<noteq> key" "chunk H k d = chunk H key d" "t_insert H n (HLeaf k v) key val d = Some t'"
  shows "t_lookup H k t' d = None \<or> t_lookup H key t' d = None"
    and "set (t_entries t') = {(k, v), (key, val)}"
proof -
  obtain m where "t_expand H m k v key val d = Some t'"
    using assms(1,3) by (cases n) auto
  from t_expand_shape [OF this assms(1)] obtain bm cs where
    t': "t' = HNode bm cs" "cs = [HLeaf k v, HLeaf key val] \<or> cs = [HLeaf key val, HLeaf k v]"
    by blast
  then show "set (t_entries t') = {(k, v), (key, val)}" by auto
  show "t_lookup H k t' d = None \<or> t_lookup H key t' d = None"
  proof (cases "kids bm cs (chunk H key d)")
    case None
    then show ?thesis by (simp add: t')
  next
    case (Some c)
    then have "c = HLeaf k v \<or> c = HLeaf key val"
      using kids_in [OF Some] t'(2) by auto
    with Some assms(1,2) show ?thesis by (auto simp: t')
  qed
qed

end
