(* ===== verification/Hamt_Store.thy ===== *)
theory Hamt_Store
  imports Hamt_Map
begin

text \<open>
  The trie operations on a store refine the tree algorithms. A tree is stored when the record of
  each of its nodes is in the store under the hash of its payload; the root hash of a tree is a
  Merkle hash. Everything is proved once for any store that keeps the contract \<open>cas_backend\<close>.
\<close>

section \<open>Stored trees\<close>

fun th :: "hasher \<Rightarrow> htree \<Rightarrow> hash" where
  "th H (HLeaf k v) = H (node_encode (Leaf k v))"
| "th H (HNode bm cs) = H (node_encode (Bitmap bm (map (th H) cs)))"

definition tree_node :: "hasher \<Rightarrow> htree \<Rightarrow> HamtNode" where
  "tree_node H t = (case t of HLeaf k v \<Rightarrow> Leaf k v | HNode bm cs \<Rightarrow> Bitmap bm (map (th H) cs))"

definition tree_rec :: "hasher \<Rightarrow> htree \<Rightarrow> RecordType \<times> bytes" where
  "tree_rec H t = (node_type (tree_node H t), node_encode (tree_node H t))"

fun tree_recs :: "hasher \<Rightarrow> htree \<Rightarrow> (RecordType \<times> bytes) set" where
  "tree_recs H (HLeaf k v) = {tree_rec H (HLeaf k v)}"
| "tree_recs H (HNode bm cs) = insert (tree_rec H (HNode bm cs)) (\<Union>c \<in> set cs. tree_recs H c)"

definition stored :: "hasher \<Rightarrow> objects \<Rightarrow> htree \<Rightarrow> bool" where
  "stored H m t \<longleftrightarrow> (\<forall>(ty, p) \<in> tree_recs H t. m (H p) = Some (ty, p))"

lemma tree_node_simps [simp]:
  "tree_node H (HLeaf k v) = Leaf k v"
  "tree_node H (HNode bm cs) = Bitmap bm (map (th H) cs)"
  by (simp_all add: tree_node_def)

lemma th_node: "th H t = H (node_encode (tree_node H t))"
  by (cases t) simp_all

lemma tree_rec_simps:
  "tree_rec H (HLeaf k v) = (HamtLeaf, node_encode (Leaf k v))"
  "tree_rec H (HNode bm cs) = (HamtBitmap, node_encode (Bitmap bm (map (th H) cs)))"
  by (simp_all add: tree_rec_def)

lemma tree_rec_in: "tree_rec H t \<in> tree_recs H t"
  by (cases t) simp_all

lemma map_le_Some: "m \<subseteq>\<^sub>m m' \<Longrightarrow> m a = Some b \<Longrightarrow> m' a = Some b"
  by (metis map_le_def domI)

lemma stored_mono: "stored H m t \<Longrightarrow> m \<subseteq>\<^sub>m m' \<Longrightarrow> stored H m' t"
  by (auto simp: stored_def intro: map_le_Some)

lemma stored_HNode:
  "stored H m (HNode bm cs) \<longleftrightarrow>
     m (th H (HNode bm cs)) = Some (tree_rec H (HNode bm cs)) \<and> (\<forall>c \<in> set cs. stored H m c)"
  by (auto simp: stored_def tree_rec_simps)

lemma stored_HLeaf: "stored H m (HLeaf k v) \<longleftrightarrow> m (th H (HLeaf k v)) = Some (tree_rec H (HLeaf k v))"
  by (simp add: stored_def tree_rec_simps)

lemma stored_root: "stored H m t \<Longrightarrow> m (th H t) = Some (tree_rec H t)"
  by (cases t) (simp_all add: stored_HNode stored_HLeaf del: th.simps)

lemma wf_tree_node:
  assumes "wf_tree t"
  shows "wf_node (tree_node H t)" "fits_record (node_encode (tree_node H t))"
proof -
  have "wf_node (tree_node H t) \<and> fits_record (node_encode (tree_node H t))"
  proof (cases t)
    case (HLeaf k v)
    with assms show ?thesis
      by (simp add: wf_node_def fits_record_def length_node_encode ok_leaf_def)
  next
    case (HNode bm cs)
    with assms length_branches [of bm] show ?thesis
      by (simp add: wf_node_def fits_record_def length_node_encode)
  qed
  then show "wf_node (tree_node H t)" "fits_record (node_encode (tree_node H t))" by simp_all
qed

section \<open>Reasoning about store operations\<close>

context cas_backend
begin

text \<open>
  \<open>reads m s x\<close>: the operation returns \<open>x\<close> and changes no object. \<open>writes_to U m s Q\<close>: it keeps the
  invariant, only adds objects of the universe \<open>U\<close>, and fails as \<open>put\<close> can or returns a result in \<open>Q\<close>.
\<close>

definition reads :: "('s, 'a) op \<Rightarrow> 's \<Rightarrow> 'a \<Rightarrow> bool" where
  "reads m s x \<longleftrightarrow> (\<exists>s'. m s = (Inr x, s') \<and> inv s' \<and> objs s' = objs s)"

definition ready :: "(RecordType \<times> bytes) set \<Rightarrow> 's \<Rightarrow> bool" where
  "ready U s \<longleftrightarrow> inv s \<and> collision_free H U \<and> addressed H U (objs s)"

definition writes_to :: "(RecordType \<times> bytes) set \<Rightarrow> ('s, 'a) op \<Rightarrow> 's \<Rightarrow> ('a \<Rightarrow> objects \<Rightarrow> bool) \<Rightarrow> bool" where
  "writes_to U m s Q \<longleftrightarrow>
     (case m s of (r, s') \<Rightarrow>
        ready U s' \<and> objs s \<subseteq>\<^sub>m objs s' \<and>
        (case r of Inl e \<Rightarrow> perr e | Inr x \<Rightarrow> Q x (objs s')))"

lemma reads_lift: "inv s \<Longrightarrow> reads (lift_st (Inr x)) s x"
  by (simp add: reads_def)

lemma reads_try:
  "reads m s x \<Longrightarrow> (\<And>s'. inv s' \<Longrightarrow> objs s' = objs s \<Longrightarrow> reads (f x) s' y) \<Longrightarrow>
     reads (try_st m f) s y"
  by (fastforce simp: reads_def try_st_def)

lemma writes_to_lift: "ready U s \<Longrightarrow> Q x (objs s) \<Longrightarrow> writes_to U (lift_st (Inr x)) s Q"
  by (simp add: writes_to_def)

lemma writes_to_try:
  assumes "writes_to U m s R"
    and "\<And>x s'. ready U s' \<Longrightarrow> objs s \<subseteq>\<^sub>m objs s' \<Longrightarrow> R x (objs s') \<Longrightarrow> writes_to U (f x) s' Q"
  shows "writes_to U (try_st m f) s Q"
proof -
  obtain r s1 where m: "m s = (r, s1)" by (cases "m s")
  show ?thesis
  proof (cases r)
    case (Inl e)
    with assms(1) m show ?thesis by (simp add: writes_to_def try_st_def)
  next
    case (Inr x)
    with assms(1) m have s1: "ready U s1" "objs s \<subseteq>\<^sub>m objs s1" "R x (objs s1)"
      by (simp_all add: writes_to_def)
    from assms(2) [OF s1] show ?thesis
      using m Inr s1(2) by (auto simp: writes_to_def try_st_def intro: map_le_trans split: prod.splits)
  qed
qed

lemma writes_to_weaken:
  "writes_to U m s Q \<Longrightarrow> (\<And>x m'. Q x m' \<Longrightarrow> R x m') \<Longrightarrow> writes_to U m s R"
  by (auto simp: writes_to_def split: prod.splits sum.splits)

lemma writes_to_reads:
  "ready U s \<Longrightarrow> reads m s x \<Longrightarrow> writes_to U m s (\<lambda>y m'. y = x \<and> m' = objs s)"
  by (auto simp: writes_to_def reads_def ready_def)

lemma writes_to_put:
  assumes "ready U s" "fits_record p" "(ty, p) \<in> U"
  shows "writes_to U (cas_put B ty p) s (\<lambda>h m. h = H p \<and> m h = Some (ty, p))"
proof -
  obtain r s' where put: "cas_put B ty p s = (r, s')" by (cases "cas_put B ty p s")
  have s: "inv s" "collision_free H U" "addressed H U (objs s)"
    using assms(1) by (simp_all add: ready_def)
  show ?thesis
  proof (cases r)
    case (Inl e)
    then show ?thesis
      using put_err [OF s(1) assms(2)] put s by (simp add: writes_to_def ready_def)
  next
    case (Inr h)
    then have "h = H p" "inv s'" "objs s' = put_objs H ty p (objs s)"
      using put_ok [OF s(1) assms(2)] put by simp_all
    then show ?thesis
      using put Inr s assms(3) addressed_put put_objs_hit put_objs_mono
      by (simp add: writes_to_def ready_def)
  qed
qed

lemma reads_load:
  assumes "inv s" "objs s h = Some (node_type node, node_encode node)" "wf_node node"
  shows "reads (load_node B h) s node"
proof -
  have "reads (cas_get_record B h) s (node_type node, node_encode node)"
    using get_spec [OF assms(1), of h] assms(2) by (cases "cas_get_record B h s") (simp add: reads_def)
  then show ?thesis
    unfolding load_node_def
    by (rule reads_try) (simp add: decode_encode_node assms(3) reads_lift)
qed

lemma reads_load_tree:
  "inv s \<Longrightarrow> wf_tree t \<Longrightarrow> stored H (objs s) t \<Longrightarrow> reads (load_node B (th H t)) s (tree_node H t)"
  by (rule reads_load) (simp_all add: stored_root tree_rec_def wf_tree_node)

lemma writes_to_node:
  assumes "ready U s" "wf_tree t" "tree_rec H t \<in> U"
  shows "writes_to U (cas_put B (node_type (tree_node H t)) (node_encode (tree_node H t))) s
     (\<lambda>h m. h = th H t \<and> m h = Some (tree_rec H t))"
  using writes_to_put [OF assms(1) wf_tree_node(2) [OF assms(2)]] assms(3)
  by (simp add: tree_rec_def th_node)

lemma writes_to_leaf:
  assumes "ready U s" "ok_leaf k v" "tree_rec H (HLeaf k v) \<in> U"
  shows "writes_to U (persist_leaf B k v) s (\<lambda>h m. h = th H (HLeaf k v) \<and> stored H m (HLeaf k v))"
  unfolding persist_leaf_def make_leaf_def
  using writes_to_node [of U s "HLeaf k v"] assms
  by (auto simp: stored_HLeaf simp del: th.simps elim: writes_to_weaken)

lemma writes_to_bitmap:
  assumes "ready U s" "wf_tree (HNode bm cs)" "tree_rec H (HNode bm cs) \<in> U"
    and "\<forall>c \<in> set cs. stored H (objs s) c"
  shows "writes_to U (persist_bitmap B bm (map (th H) cs)) s
     (\<lambda>h m. h = th H (HNode bm cs) \<and> stored H m (HNode bm cs))"
proof -
  have "writes_to U (persist_bitmap B bm (map (th H) cs)) s
      (\<lambda>h m. h = th H (HNode bm cs) \<and> m h = Some (tree_rec H (HNode bm cs)))"
    unfolding persist_bitmap_def using writes_to_node [OF assms(1-3)] by simp
  then show ?thesis
    using assms(4) unfolding writes_to_def
    by (auto simp: stored_HNode simp del: th.simps intro: stored_mono split: prod.splits sum.splits)
qed

section \<open>Refinement\<close>

lemma vec_get_map: "i < length cs \<Longrightarrow> vec_get (map f cs) i = lift_st (Inr (f (cs ! i)))"
  by (simp add: vec_get_def)

lemma reads_vec_get: "inv s \<Longrightarrow> i < length cs \<Longrightarrow> reads (vec_get (map f cs) i) s (f (cs ! i))"
  by (simp add: vec_get_map reads_lift)

lemma get_internal_tree:
  "inv s \<Longrightarrow> wf_tree t \<Longrightarrow> stored H (objs s) t \<Longrightarrow> height t < n \<Longrightarrow>
     reads (get_internal B n (th H t) key (H key) d) s (t_lookup H key t d)"
proof (induction n arbitrary: t d s)
  case 0
  then show ?case by simp
next
  case (Suc n)
  show ?case
    unfolding get_internal.simps
  proof (rule reads_try [OF reads_load_tree [OF Suc.prems(1-3)]])
    fix s'
    assume s': "inv s'" "objs s' = objs s"
    show "reads (case tree_node H t of
          Leaf k v \<Rightarrow> lift_st (Inr (if k = key then Some v else None))
        | Bitmap bitmap children \<Rightarrow>
            (let branch = branch_of H key d in
             if bitmap AND bit_mask branch = 0 then lift_st (Inr None)
             else try_st (vec_get children (child_index bitmap branch))
                    (\<lambda>child. get_internal B n child key (H key) (d + 1)))) s' (t_lookup H key t d)"
    proof (cases t)
      case (HLeaf k v)
      then show ?thesis using s' by (simp add: reads_lift)
    next
      case (HNode bm cs)
      with Suc.prems have len: "length cs = length (branches bm)" by simp
      show ?thesis
      proof (cases "kids bm cs (chunk H key d)")
        case None
        then show ?thesis
          using s' node_absent(1) [OF len None] by (simp add: HNode reads_lift)
      next
        case (Some c)
        note np = node_present(1-3) [OF len Some]
        have IH: "reads (get_internal B n (th H c) key (H key) (d + 1)) s'' (t_lookup H key c (d + 1))"
          if "inv s''" "objs s'' = objs s'" for s''
          using Suc.prems kids_in [OF Some] height_kid [OF Some] s' that
          by (intro Suc.IH) (auto simp: HNode stored_HNode simp del: th.simps height.simps)
        show ?thesis
          using np s' Some IH
          by (auto simp: HNode Let_def intro!: reads_try [OF reads_vec_get])
      qed
    qed
  qed
qed

lemma leaf_hash_internal_tree:
  "inv s \<Longrightarrow> wf_tree t \<Longrightarrow> stored H (objs s) t \<Longrightarrow> height t < n \<Longrightarrow>
     reads (leaf_hash_internal B n (th H t) key (H key) d) s (map_option (th H) (t_leaf H key t d))"
proof (induction n arbitrary: t d s)
  case 0
  then show ?case by simp
next
  case (Suc n)
  show ?case
    unfolding leaf_hash_internal.simps
  proof (rule reads_try [OF reads_load_tree [OF Suc.prems(1-3)]], goal_cases)
    case (1 s')
    show ?case
    proof (cases t)
      case (HLeaf k v)
      then show ?thesis using 1 by (simp add: reads_lift)
    next
      case (HNode bm cs)
      with Suc.prems have len: "length cs = length (branches bm)" by simp
      show ?thesis
      proof (cases "kids bm cs (chunk H key d)")
        case None
        then show ?thesis
          using 1 node_absent(1) [OF len None] by (simp add: HNode reads_lift)
      next
        case (Some c)
        note np = node_present(1-3) [OF len Some]
        have IH: "reads (leaf_hash_internal B n (th H c) key (H key) (d + 1)) s''
            (map_option (th H) (t_leaf H key c (d + 1)))"
          if "inv s''" "objs s'' = objs s'" for s''
          using Suc.prems kids_in [OF Some] height_kid [OF Some] 1 that
          by (intro Suc.IH) (auto simp: HNode stored_HNode simp del: th.simps height.simps)
        show ?thesis
          using np 1 Some IH
          by (auto simp: HNode Let_def simp del: th.simps intro!: reads_try [OF reads_vec_get])
      qed
    qed
  qed
qed

lemma collect_children_trees:
  assumes "\<And>c out s. c \<in> set cs \<Longrightarrow> inv s \<Longrightarrow> objs s = m \<Longrightarrow>
      reads (collect_entries B n (th H c) out) s (out @ t_entries c)"
  shows "inv s \<Longrightarrow> objs s = m \<Longrightarrow>
      reads (collect_children B n (map (th H) cs) out) s (out @ concat (map t_entries cs))"
  using assms
proof (induction cs arbitrary: out s)
  case Nil
  then show ?case by (simp add: reads_def)
next
  case (Cons c cs)
  have "reads (try_st (collect_entries B n (th H c) out) (collect_children B n (map (th H) cs))) s
      ((out @ t_entries c) @ concat (map t_entries cs))"
  proof (rule reads_try [OF Cons.prems(3)])
    show "reads (collect_children B n (map (th H) cs) (out @ t_entries c)) s'
        ((out @ t_entries c) @ concat (map t_entries cs))" if "inv s'" "objs s' = objs s" for s'
      using that Cons.prems by (intro Cons.IH) auto
  qed (use Cons.prems in auto)
  then show ?case by simp
qed

lemma collect_entries_tree:
  "inv s \<Longrightarrow> wf_tree t \<Longrightarrow> stored H (objs s) t \<Longrightarrow> height t < n \<Longrightarrow>
     reads (collect_entries B n (th H t) out) s (out @ t_entries t)"
proof (induction n arbitrary: t out s)
  case 0
  then show ?case by simp
next
  case (Suc n)
  show ?case
    unfolding collect_entries.simps
  proof (rule reads_try [OF reads_load_tree [OF Suc.prems(1-3)]], goal_cases)
    case (1 s')
    show ?case
    proof (cases t)
      case (HLeaf k v)
      then show ?thesis using 1 by (simp add: reads_lift)
    next
      case (HNode bm cs)
      have "height c < n" if "c \<in> set cs" for c
        using Suc.prems(4) that Max_ge [of "insert 0 (set (map height cs))" "height c"]
        by (simp add: HNode)
      then have "reads (collect_entries B n (th H c) out) s (out @ t_entries c)"
        if "c \<in> set cs" "inv s" "objs s = objs s'" for c out s
        using Suc.prems that 1 by (intro Suc.IH) (auto simp: HNode stored_HNode simp del: th.simps)
      from collect_children_trees [OF this 1(1) refl] show ?thesis
        by (simp add: HNode)
    qed
  qed
qed

lemma writes_to_read_try:
  assumes "ready U s" "reads m s x"
    and "\<And>s'. ready U s' \<Longrightarrow> objs s' = objs s \<Longrightarrow> writes_to U (f x) s' Q"
  shows "writes_to U (try_st m f) s Q"
  using writes_to_reads [OF assms(1,2)] by (rule writes_to_try) (use assms(3) in auto)

lemma ready_inv: "ready U s \<Longrightarrow> inv s"
  by (simp add: ready_def)

lemma expand_pair:
  assumes "ready U s" "ok_leaf k v" "ok_leaf key val" "b1 \<noteq> b2" "unat b1 < 32" "unat b2 < 32"
    and t': "t' = HNode (bit_mask b1 OR bit_mask b2)
      (if b1 < b2 then [HLeaf k v, HLeaf key val] else [HLeaf key val, HLeaf k v])"
    and U: "tree_recs H t' \<subseteq> U"
  shows "writes_to U
     (try_st (persist_leaf B k v) (\<lambda>old_leaf. try_st (persist_leaf B key val) (\<lambda>new_leaf.
        persist_bitmap B (bit_mask b1 OR bit_mask b2)
          (if b1 < b2 then [old_leaf, new_leaf] else [new_leaf, old_leaf])))) s
     (\<lambda>h m. h = th H t' \<and> stored H m t')"
proof (rule writes_to_try [OF writes_to_leaf [OF assms(1,2)]], goal_cases)
  case 1
  then show ?case using U by (auto simp: t' split: if_splits)
next
  case (2 old s1)
  show ?case
  proof (rule writes_to_try [OF writes_to_leaf [OF 2(1) assms(3)]], goal_cases)
    case 1
    then show ?case using U by (auto simp: t' split: if_splits)
  next
    case (2 new s2)
    define cs where "cs = (if b1 < b2 then [HLeaf k v, HLeaf key val] else [HLeaf key val, HLeaf k v])"
    have "stored H (objs s2) (HLeaf k v)"
      using \<open>old = _ \<and> _\<close> 2(2) stored_mono by blast
    then have st: "\<forall>c \<in> set cs. stored H (objs s2) c"
      using 2(3) by (simp add: cs_def)
    have wf: "wf_tree (HNode (bit_mask b1 OR bit_mask b2) cs)"
      using kids_pair(2) [OF assms(5,6,4)] assms(2,3) by (simp add: cs_def)
    have "map (th H) cs = (if b1 < b2 then [old, new] else [new, old])"
      using \<open>old = _ \<and> _\<close> 2(3) by (simp add: cs_def)
    then show ?case
      using writes_to_bitmap [OF 2(1) wf _ st] U tree_rec_in [of H t'] by (auto simp: t' cs_def)
  qed
qed

lemma insert_node_present:
  assumes IH: "\<And>c s c'. ready U s \<Longrightarrow> wf_tree c \<Longrightarrow> stored H (objs s) c \<Longrightarrow>
      t_insert H n c key val (d + 1) = Some c' \<Longrightarrow> tree_recs H c' \<subseteq> U \<Longrightarrow>
      writes_to U (insert_internal H B n (Some (th H c)) key val (H key) (d + 1)) s
        (\<lambda>h m. h = th H c' \<and> stored H m c')"
    and s: "ready U s" and wf: "wf_tree (HNode bm cs)" and st: "\<forall>c \<in> set cs. stored H (objs s) c"
    and ok: "ok_leaf key val" and kid: "kids bm cs (chunk H key d) = Some c"
    and c': "t_insert H n c key val (d + 1) = Some c'"
  defines "i \<equiv> child_index bm (branch_of H key d)"
  assumes U: "tree_recs H (HNode bm (cs[i := c'])) \<subseteq> U"
  shows "writes_to U
     (try_st (vec_get (map (th H) cs) i) (\<lambda>child_hash.
      try_st (insert_internal H B n (Some child_hash) key val (H key) (d + 1)) (\<lambda>new_child.
      try_st (vec_set (map (th H) cs) i new_child) (persist_bitmap B bm)))) s
     (\<lambda>h m. h = th H (HNode bm (cs[i := c'])) \<and> stored H m (HNode bm (cs[i := c'])))"
proof -
  have len: "length cs = length (branches bm)" using wf by simp
  note np = node_present(2,3) [OF len kid, folded i_def]
  have c'_in: "c' \<in> set (cs[i := c'])"
    using np(1) by (simp add: set_update_memI)
  then have Uc: "tree_recs H c' \<subseteq> U"
    using U by fastforce
  have wfc: "wf_tree c" using wf kids_in [OF kid] by simp
  have wf': "wf_tree (HNode bm (cs[i := c']))"
    using wf t_insert_wf(1) [OF wfc ok c'] ball_vec(2) [of cs wf_tree c' i] by simp
  show ?thesis
  proof (rule writes_to_read_try [OF s reads_vec_get [OF ready_inv [OF s] np(1)]], goal_cases)
    case (1 s1)
    show ?case
    proof (rule writes_to_try [where R = "\<lambda>h m. h = th H c' \<and> stored H m c'"], goal_cases)
      case 1
      then show ?case
        using IH [OF \<open>ready U s1\<close> wfc _ c' Uc] st kids_in [OF kid] np(2) \<open>objs s1 = objs s\<close> by simp
    next
      case (2 h s2)
      have st2: "\<forall>c \<in> set (cs[i := c']). stored H (objs s2) c"
        using ball_vec(2) [of cs "stored H (objs s2)" c' i] st stored_mono
          2(2) [unfolded \<open>objs s1 = objs s\<close>] 2(3) by blast
      have "vec_set (map (th H) cs) i h s2 = (Inr (map (th H) (cs[i := c'])), s2)"
        using np(1) 2(3) by (simp add: vec_set_def map_update)
      then have "try_st (vec_set (map (th H) cs) i h) (persist_bitmap B bm) s2 =
          persist_bitmap B bm (map (th H) (cs[i := c'])) s2"
        by (rule try_st_Inr)
      then show ?case
        using writes_to_bitmap [OF 2(1) wf' _ st2] U by (simp add: writes_to_def)
    qed
  qed
qed

lemma insert_node_absent:
  assumes s: "ready U s" and wf: "wf_tree (HNode bm cs)" and st: "\<forall>c \<in> set cs. stored H (objs s) c"
    and ok: "ok_leaf key val" and kid: "kids bm cs (chunk H key d) = None"
  defines "i \<equiv> child_index bm (branch_of H key d)" and "bm' \<equiv> bm OR bit_mask (branch_of H key d)"
  defines "cs' \<equiv> take i cs @ HLeaf key val # drop i cs"
  assumes U: "tree_recs H (HNode bm' cs') \<subseteq> U"
  shows "writes_to U
     (try_st (persist_leaf B key val) (\<lambda>new_leaf.
      try_st (vec_insert (map (th H) cs) i new_leaf) (persist_bitmap B bm'))) s
     (\<lambda>h m. h = th H (HNode bm' cs') \<and> stored H m (HNode bm' cs'))"
proof -
  have len: "length cs = length (branches bm)" using wf by simp
  note na = node_absent(2,4) [OF len kid, folded i_def bm'_def]
  have wf': "wf_tree (HNode bm' cs')"
    using wf ok ball_vec(1) [of cs wf_tree "HLeaf key val" i] na(2) [of "HLeaf key val"]
    unfolding cs'_def wf_tree.simps by simp
  have leaf: "tree_rec H (HLeaf key val) \<in> U"
    using U by (auto simp: cs'_def)
  show ?thesis
  proof (rule writes_to_try [OF writes_to_leaf [OF s ok leaf]], goal_cases)
    case (1 h s1)
    have st1: "\<forall>c \<in> set cs'. stored H (objs s1) c"
      unfolding cs'_def
      using ball_vec(1) [of cs "stored H (objs s1)" "HLeaf key val" i] st stored_mono 1(2,3) by blast
    have "vec_insert (map (th H) cs) i h s1 = (Inr (map (th H) cs'), s1)"
      using na(1) 1(3) by (simp add: vec_insert_def cs'_def take_map drop_map)
    then have "try_st (vec_insert (map (th H) cs) i h) (persist_bitmap B bm') s1 =
        persist_bitmap B bm' (map (th H) cs') s1"
      by (rule try_st_Inr)
    then show ?case
      using writes_to_bitmap [OF 1(1) wf' _ st1] U by (simp add: writes_to_def)
  qed
qed

lemma insert_tree:
  "ready U s \<Longrightarrow> wf_tree t \<Longrightarrow> stored H (objs s) t \<Longrightarrow> ok_leaf key val \<Longrightarrow>
     t_insert H n t key val d = Some t' \<Longrightarrow> tree_recs H t' \<subseteq> U \<Longrightarrow>
     writes_to U (insert_internal H B n (Some (th H t)) key val (H key) d) s
       (\<lambda>h m. h = th H t' \<and> stored H m t')"
  "ready U s \<Longrightarrow> ok_leaf k v \<Longrightarrow> ok_leaf key val \<Longrightarrow> k \<noteq> key \<Longrightarrow>
     t_expand H n k v key val d = Some t' \<Longrightarrow> tree_recs H t' \<subseteq> U \<Longrightarrow>
     writes_to U (expand_leaf_collision H B n k v (H k) key val (H key) d) s
       (\<lambda>h m. h = th H t' \<and> stored H m t')"
proof (induction n arbitrary: t k v d s t')
  case 0
  { case 1 then show ?case by simp }
  { case 2 then show ?case by simp }
next
  case (Suc n)
  { case 1
    show ?case
      unfolding insert_internal.simps option.case
    proof (rule writes_to_read_try [OF 1(1) reads_load_tree [OF ready_inv [OF 1(1)] 1(2,3)]], goal_cases)
      case s': (1 s')
      show ?case
      proof (cases t)
        case (HLeaf k0 v0)
        show ?thesis
        proof (cases "k0 = key")
          case True
          then show ?thesis
            using 1 writes_to_leaf [OF s'(1) 1(4)] by (auto simp: HLeaf)
        next
          case False
          have "writes_to U (expand_leaf_collision H B n k0 v0 (H k0) key val (H key) d) s'
              (\<lambda>h m. h = th H t' \<and> stored H m t')"
            by (rule Suc.IH(2) [OF s'(1) _ 1(4) False _ 1(6)]) (use 1(2,5) False in \<open>simp_all add: HLeaf\<close>)
          with False show ?thesis by (simp add: HLeaf)
        qed
      next
        case (HNode bm cs)
        with 1 have len: "length cs = length (branches bm)" by simp
        have st: "\<forall>c \<in> set cs. stored H (objs s') c"
          using 1(3) s'(2) by (simp add: HNode stored_HNode del: th.simps)
        show ?thesis
        proof (cases "kids bm cs (chunk H key d)")
          case None
          with 1(5) have t': "t' = HNode (bm OR bit_mask (branch_of H key d))
              (take (child_index bm (branch_of H key d)) cs @ HLeaf key val
               # drop (child_index bm (branch_of H key d)) cs)"
            by (simp add: HNode Let_def)
          show ?thesis
            using insert_node_absent [OF s'(1) 1(2) [unfolded HNode] st 1(4) None 1(6) [unfolded t']]
            unfolding HNode Let_def tree_node_simps HamtNode.case t' node_absent(1) [OF len None]
            by simp
        next
          case (Some c)
          then obtain c' where c': "t_insert H n c key val (d + 1) = Some c'"
            and t': "t' = HNode bm (cs[child_index bm (branch_of H key d) := c'])"
            using 1(5) by (auto simp: HNode Let_def)
          show ?thesis
            unfolding HNode Let_def tree_node_simps HamtNode.case t' if_P [OF node_present(1) [OF len Some]]
            by (rule insert_node_present [OF Suc.IH(1) [OF _ _ _ 1(4)] s'(1) 1(2) [unfolded HNode]
                st 1(4) Some c' 1(6) [unfolded t']])
        qed
      qed
    qed }
  { case 2
    show ?case
    proof (cases "branch_of H k d = branch_of H key d")
      case True
      with 2(5) have ins: "t_insert H n (HLeaf k v) key val (d + 1) = Some t'" by simp
      have leaf: "tree_rec H (HLeaf k v) \<in> U"
        using t_expand_shape [OF 2(5,4)] 2(6) by auto
      have "writes_to U (try_st (persist_leaf B k v) (\<lambda>old_leaf.
          insert_internal H B n (Some old_leaf) key val (H key) (d + 1))) s
          (\<lambda>h m. h = th H t' \<and> stored H m t')"
      proof (rule writes_to_try [OF writes_to_leaf [OF 2(1,2) leaf]], goal_cases)
        case l: (1 h s1)
        have "wf_tree (HLeaf k v)" using 2(2) by simp
        from Suc.IH(1) [OF l(1) this _ 2(3) ins 2(6)] l(3) show ?case by blast
      qed
      with True show ?thesis by simp
    next
      case False
      then show ?thesis
        using expand_pair [OF 2(1-3) False extract_5bits_less extract_5bits_less _ 2(6)] 2(5)
        by (auto simp: Let_def simp del: th.simps)
    qed }
qed

lemma remove_rebuild:
  assumes s: "ready U s" and wf: "wf_tree (HNode bm cs)" and st: "\<forall>c \<in> set cs. stored H (objs s) c"
    and U: "tree_rec H (HNode bm cs) \<in> U" and vec: "v s = (Inr (map (th H) cs), s)"
  shows "writes_to U (try_st v (\<lambda>cs'. try_st (persist_bitmap B bm cs') (\<lambda>h. lift_st (Inr (Some h))))) s
     (\<lambda>r m. r = Some (th H (HNode bm cs)) \<and> stored H m (HNode bm cs))"
proof -
  have "writes_to U (try_st (persist_bitmap B bm (map (th H) cs)) (\<lambda>h. lift_st (Inr (Some h)))) s
      (\<lambda>r m. r = Some (th H (HNode bm cs)) \<and> stored H m (HNode bm cs))"
    by (rule writes_to_try [OF writes_to_bitmap [OF s wf U st]]) (rule writes_to_lift, simp_all)
  then show ?thesis
    unfolding writes_to_def by (subst try_st_Inr [of v s, OF vec])
qed

lemma remove_node_present:
  assumes IH: "writes_to U (remove_internal B n (th H c) key (H key) (d + 1)) s
      (\<lambda>r m. r = map_option (th H) (t_remove H key c (d + 1)) \<and>
        (\<forall>c'. t_remove H key c (d + 1) = Some c' \<longrightarrow> stored H m c'))"
    and s: "ready U s" and wf: "wf_tree (HNode bm cs)" and st: "\<forall>c \<in> set cs. stored H (objs s) c"
    and kid: "kids bm cs (chunk H key d) = Some c"
    and U: "\<forall>t'. t_remove H key (HNode bm cs) d = Some t' \<longrightarrow> tree_recs H t' \<subseteq> U"
  defines "b \<equiv> branch_of H key d" and "i \<equiv> child_index bm (branch_of H key d)"
  shows "writes_to U
     (try_st (remove_internal B n (th H c) key (H key) (d + 1)) (\<lambda>removed.
      case removed of
        None \<Rightarrow>
          try_st (vec_remove (map (th H) cs) i) (\<lambda>new_children.
          if new_children = [] then lift_st (Inr None)
          else try_st (persist_bitmap B (bm AND NOT (bit_mask b)) new_children)
                 (\<lambda>h. lift_st (Inr (Some h))))
      | Some new_child \<Rightarrow>
          try_st (vec_set (map (th H) cs) i new_child) (\<lambda>new_children.
          try_st (persist_bitmap B bm new_children) (\<lambda>h. lift_st (Inr (Some h)))))) s
     (\<lambda>r m. r = map_option (th H) (t_remove H key (HNode bm cs) d) \<and>
       (\<forall>t'. t_remove H key (HNode bm cs) d = Some t' \<longrightarrow> stored H m t'))"
proof (rule writes_to_try [OF IH], goal_cases)
  case s1: (1 r s1)
  have len: "length cs = length (branches bm)" using wf by simp
  note np = node_present(2,6) [OF len kid, folded b_def i_def]
  have st1: "\<forall>c \<in> set cs. stored H (objs s1) c"
    using st stored_mono [OF _ s1(2)] by blast
  show ?case
  proof (cases "t_remove H key c (d + 1)")
    case None
    define cs' where "cs' = take i cs @ drop (Suc i) cs"
    have vec: "vec_remove (map (th H) cs) i s1 = (Inr (map (th H) cs'), s1)"
      using np(1) by (simp add: vec_remove_def cs'_def take_map drop_map)
    have st': "\<forall>c \<in> set cs'. stored H (objs s1) c"
      unfolding cs'_def by (rule ball_vec(3) [OF st1])
    show ?thesis
    proof (cases "cs' = []")
      case True
      then have "t_remove H key (HNode bm cs) d = None"
        using None kid by (simp add: cs'_def i_def)
      then show ?thesis
        using s1(1,3) None vec True by (simp add: writes_to_def try_st_def)
    next
      case False
      let ?t' = "HNode (bm AND NOT (bit_mask b)) cs'"
      have t': "t_remove H key (HNode bm cs) d = Some ?t'"
        using None kid False by (simp add: cs'_def i_def b_def Let_def)
      have wf': "wf_tree ?t'"
        by (rule t_remove_wf [OF wf t'])
      have "tree_rec H ?t' \<in> U"
        using U t' tree_rec_in by blast
      note R = remove_rebuild [OF s1(1) wf' st' this, of "vec_remove (map (th H) cs) i", OF vec]
      show ?thesis
        using R s1(3) None vec False t'
        by (simp add: writes_to_def try_st_def del: th.simps)
    qed
  next
    case (Some c')
    let ?t' = "HNode bm (cs[i := c'])"
    have t': "t_remove H key (HNode bm cs) d = Some ?t'"
      using Some kid by (simp add: i_def Let_def)
    have wf': "wf_tree ?t'"
      by (rule t_remove_wf [OF wf t'])
    have st': "\<forall>c \<in> set (cs[i := c']). stored H (objs s1) c"
      using ball_vec(2) [OF st1] s1(3) Some by blast
    have vec: "vec_set (map (th H) cs) i (th H c') s1 = (Inr (map (th H) (cs[i := c'])), s1)"
      using np(1) by (simp add: vec_set_def map_update)
    have "tree_rec H ?t' \<in> U"
      using U t' tree_rec_in by blast
    note R = remove_rebuild [OF s1(1) wf' st' this, of "vec_set (map (th H) cs) i (th H c')", OF vec]
    show ?thesis
      using R s1(3) Some unfolding t' by simp
  qed
qed

lemma remove_tree:
  "ready U s \<Longrightarrow> wf_tree t \<Longrightarrow> stored H (objs s) t \<Longrightarrow> height t < n \<Longrightarrow>
     (\<forall>t'. t_remove H key t d = Some t' \<longrightarrow> tree_recs H t' \<subseteq> U) \<Longrightarrow>
     writes_to U (remove_internal B n (th H t) key (H key) d) s
       (\<lambda>r m. r = map_option (th H) (t_remove H key t d) \<and>
         (\<forall>t'. t_remove H key t d = Some t' \<longrightarrow> stored H m t'))"
proof (induction n arbitrary: t d s)
  case 0
  then show ?case by simp
next
  case (Suc n)
  show ?case
    unfolding remove_internal.simps
  proof (rule writes_to_read_try [OF Suc.prems(1) reads_load_tree [OF ready_inv [OF Suc.prems(1)]
          Suc.prems(2,3)]], goal_cases)
    case s': (1 s')
    show ?case
    proof (cases t)
      case (HLeaf k v)
      then show ?thesis
        using s' Suc.prems(3) by (simp add: writes_to_def)
    next
      case (HNode bm cs)
      with Suc.prems have len: "length cs = length (branches bm)" by simp
      have st: "\<forall>c \<in> set cs. stored H (objs s') c"
        using Suc.prems(3) s'(2) by (simp add: HNode stored_HNode del: th.simps)
      show ?thesis
      proof (cases "kids bm cs (chunk H key d)")
        case None
        then show ?thesis
          using s' Suc.prems(3) node_absent(1) [OF len None]
          by (simp add: HNode Let_def writes_to_def)
      next
        case (Some c)
        note np = node_present(1-3) [OF len Some]
        have U: "tree_recs H c' \<subseteq> U" if c': "t_remove H key c (d + 1) = Some c'" for c'
        proof -
          have "tree_recs H (HNode bm (cs[child_index bm (branch_of H key d) := c'])) \<subseteq> U"
            using Suc.prems(5) Some c' by (simp add: HNode Let_def)
          moreover have "c' \<in> set (cs[child_index bm (branch_of H key d) := c'])"
            using np(2) by (simp add: set_update_memI)
          ultimately show ?thesis by fastforce
        qed
        have IH: "writes_to U (remove_internal B n (th H c) key (H key) (d + 1)) s''
            (\<lambda>r m. r = map_option (th H) (t_remove H key c (d + 1)) \<and>
              (\<forall>c'. t_remove H key c (d + 1) = Some c' \<longrightarrow> stored H m c'))"
          if "ready U s''" "objs s'' = objs s'" for s''
          using that Suc.prems(2,4) U st kids_in [OF Some] height_kid [OF Some]
          by (intro Suc.IH) (auto simp: HNode simp del: height.simps)
        show ?thesis
          unfolding HNode Let_def tree_node_simps HamtNode.case if_not_P [OF np(1)]
        proof (rule writes_to_read_try [OF s'(1) reads_vec_get [OF ready_inv [OF s'(1)] np(2)]], goal_cases)
          case s2: (1 s2)
          show ?case
            unfolding np(3) [symmetric]
            by (rule remove_node_present [OF IH [OF s2] s2(1) Suc.prems(2) [unfolded HNode] _ Some
                  Suc.prems(5) [unfolded HNode]]) (use st s2(2) in simp)
        qed
      qed
    qed
  qed
qed

end

end
