(* ===== verification/Hamt_Api.thy ===== *)
theory Hamt_Api
  imports Hamt_Store
begin

text \<open>
  The public trie operations \<open>insert\<close>, \<open>get\<close>, \<open>leaf_hash\<close>, \<open>remove\<close> and \<open>entries\<close> as operations on
  finite maps. A root is an optional hash; the tree it stands for is an optional \<open>htree\<close>.
\<close>

section \<open>Optional trees\<close>

definition root_of :: "hasher \<Rightarrow> htree option \<Rightarrow> hash option" where
  "root_of H ot = map_option (th H) ot"

definition o_lookup :: "hasher \<Rightarrow> htree option \<Rightarrow> bytes \<Rightarrow> bytes option" where
  "o_lookup H ot key = (case ot of None \<Rightarrow> None | Some t \<Rightarrow> t_lookup H key t 0)"

definition o_insert :: "hasher \<Rightarrow> nat \<Rightarrow> htree option \<Rightarrow> bytes \<Rightarrow> bytes \<Rightarrow> htree option" where
  "o_insert H n ot key val =
     (case ot of
        None \<Rightarrow> if n = 0 then None else Some (HLeaf key val)
      | Some t \<Rightarrow> t_insert H n t key val 0)"

definition o_remove :: "hasher \<Rightarrow> htree option \<Rightarrow> bytes \<Rightarrow> htree option" where
  "o_remove H ot key = (case ot of None \<Rightarrow> None | Some t \<Rightarrow> t_remove H key t 0)"

definition o_entries :: "htree option \<Rightarrow> (bytes \<times> bytes) list" where
  "o_entries ot = (case ot of None \<Rightarrow> [] | Some t \<Rightarrow> t_entries t)"

definition o_height :: "htree option \<Rightarrow> nat" where
  "o_height ot = (case ot of None \<Rightarrow> 0 | Some t \<Rightarrow> height t)"

definition o_clear :: "hasher \<Rightarrow> htree option \<Rightarrow> bytes \<Rightarrow> bool" where
  "o_clear H ot key = (case ot of None \<Rightarrow> True | Some t \<Rightarrow> no_collision H key t 0)"

text \<open>The tree is well formed, stored, and every leaf is where its key's hash leads.\<close>

definition o_stored :: "hasher \<Rightarrow> objects \<Rightarrow> htree option \<Rightarrow> bool" where
  "o_stored H m ot = (case ot of None \<Rightarrow> True | Some t \<Rightarrow> wf_tree t \<and> placed H [] t \<and> stored H m t)"

definition o_recs :: "hasher \<Rightarrow> htree option \<Rightarrow> (RecordType \<times> bytes) set" where
  "o_recs H ot = (case ot of None \<Rightarrow> {} | Some t \<Rightarrow> tree_recs H t)"

lemmas o_defs = root_of_def o_lookup_def o_insert_def o_remove_def o_entries_def o_height_def
  o_clear_def o_stored_def o_recs_def

lemma o_stored_mono: "o_stored H m ot \<Longrightarrow> m \<subseteq>\<^sub>m m' \<Longrightarrow> o_stored H m' ot"
  by (auto simp: o_stored_def intro: stored_mono split: option.splits)

lemma o_lookup_insert:
  "o_stored H m ot \<Longrightarrow> o_clear H ot key \<Longrightarrow> o_insert H n ot key val = Some t' \<Longrightarrow>
     o_lookup H (Some t') q = (if q = key then Some val else o_lookup H ot q)"
  by (cases ot) (auto simp: o_defs t_lookup_insert split: if_splits)

lemma o_insert_placed:
  assumes "o_stored H m ot" "o_clear H ot key" "ok_leaf key val" "o_insert H n ot key val = Some t'"
  shows "wf_tree t' \<and> placed H [] t'"
proof (cases ot)
  case None
  with assms show ?thesis by (auto simp: o_defs split: if_splits)
next
  case (Some t)
  with assms t_insert_placed [of t H "[]" key n val t'] show ?thesis
    by (auto simp: o_defs t_insert_wf(1))
qed

lemma o_lookup_remove:
  assumes "o_stored H m ot"
  shows "o_lookup H (o_remove H ot key) q = (if q = key then None else o_lookup H ot q)"
proof (cases ot)
  case None
  then show ?thesis by (simp add: o_defs)
next
  case (Some t)
  with assms t_lookup_remove [of t, where H = H and key = key and d = 0] show ?thesis
    by (auto simp: o_defs split: option.splits)
qed

lemma o_remove_placed:
  "o_stored H m ot \<Longrightarrow> o_remove H ot key = Some t' \<Longrightarrow> wf_tree t' \<and> placed H [] t'"
  using t_remove_placed [where p = "[]"]
  by (auto simp: o_defs t_remove_wf split: option.splits)

lemma o_entries_spec:
  assumes "o_stored H m ot"
  shows "distinct (map fst (o_entries ot))" "map_of (o_entries ot) = o_lookup H ot"
proof -
  have *: "distinct (map fst (o_entries ot)) \<and>
      (\<forall>k v. (k, v) \<in> set (o_entries ot) \<longleftrightarrow> o_lookup H ot k = Some v)"
    using assms t_entries_spec [where p = "[]"] by (auto simp: o_defs split: option.splits)
  then show "distinct (map fst (o_entries ot))" by blast
  show "map_of (o_entries ot) = o_lookup H ot"
  proof
    fix k
    show "map_of (o_entries ot) k = o_lookup H ot k"
    proof (cases "o_lookup H ot k")
      case None
      with * have "k \<notin> fst ` set (o_entries ot)" by auto
      with None show ?thesis by (simp add: map_of_eq_None_iff)
    next
      case (Some v)
      with * show ?thesis by (simp add: map_of_is_SomeI)
    qed
  qed
qed

section \<open>The operations on any store\<close>

context cas_backend
begin

lemma hamt_get_map:
  "inv s \<Longrightarrow> o_stored H (objs s) ot \<Longrightarrow> o_height ot < n \<Longrightarrow>
     reads (hamt_get H B n (root_of H ot) key) s (o_lookup H ot key)"
  by (cases ot) (simp_all add: hamt_get_def o_defs reads_lift get_internal_tree del: lift_st_apply)

lemma hamt_leaf_hash_map:
  "inv s \<Longrightarrow> o_stored H (objs s) ot \<Longrightarrow> o_height ot < n \<Longrightarrow>
     reads (hamt_leaf_hash H B n (root_of H ot) key) s
       (map_option (\<lambda>v. th H (HLeaf key v)) (o_lookup H ot key))"
  by (cases ot) (auto simp: hamt_leaf_hash_def o_defs reads_lift t_leaf_lookup option.map_comp comp_def
      simp del: lift_st_apply th.simps dest: leaf_hash_internal_tree [where key = key and d = 0])

lemma hamt_entries_map:
  "inv s \<Longrightarrow> o_stored H (objs s) ot \<Longrightarrow> o_height ot < n \<Longrightarrow>
     reads (hamt_entries B n (root_of H ot)) s (o_entries ot)"
  using collect_entries_tree [where out = "[]"]
  by (cases ot) (simp_all add: hamt_entries_def o_defs reads_lift del: lift_st_apply)

lemma hamt_insert_map:
  assumes "ready U s" "o_stored H (objs s) ot" "o_clear H ot key" "ok_leaf key val"
    and t': "o_insert H n ot key val = Some t'" and U: "tree_recs H t' \<subseteq> U"
  shows "writes_to U (hamt_insert H B n (root_of H ot) key val) s
     (\<lambda>h m. root_of H (Some t') = Some h \<and> o_stored H m (Some t'))"
proof -
  note w = o_insert_placed [OF assms(2-4) t']
  have "writes_to U (hamt_insert H B n (root_of H ot) key val) s (\<lambda>h m. h = th H t' \<and> stored H m t')"
  proof (cases ot)
    case None
    with t' obtain k where "n = Suc k" "t' = HLeaf key val"
      by (cases n) (auto simp: o_defs)
    with None U writes_to_leaf [OF assms(1,4)] show ?thesis
      by (simp add: hamt_insert_def root_of_def)
  next
    case (Some t)
    with assms insert_tree(1) [OF assms(1), of t key val n 0 t'] show ?thesis
      by (simp add: hamt_insert_def o_defs)
  qed
  then show ?thesis
    by (rule writes_to_weaken) (simp add: o_defs w)
qed

lemma hamt_remove_map:
  assumes "ready U s" "o_stored H (objs s) ot" "o_height ot < n" "o_recs H (o_remove H ot key) \<subseteq> U"
  shows "writes_to U (hamt_remove H B n (root_of H ot) key) s
     (\<lambda>r m. r = root_of H (o_remove H ot key) \<and> o_stored H m (o_remove H ot key))"
proof (cases ot)
  case None
  with assms show ?thesis
    by (simp add: hamt_remove_def o_defs writes_to_lift del: lift_st_apply)
next
  case (Some t)
  have "\<forall>t'. t_remove H key t 0 = Some t' \<longrightarrow> tree_recs H t' \<subseteq> U"
    using assms(4) Some by (auto simp: o_defs)
  with assms Some have "writes_to U (hamt_remove H B n (root_of H ot) key) s
      (\<lambda>r m. r = map_option (th H) (t_remove H key t 0) \<and>
        (\<forall>t'. t_remove H key t 0 = Some t' \<longrightarrow> stored H m t'))"
    using remove_tree [OF assms(1), of t n key 0] by (simp add: hamt_remove_def o_defs)
  then show ?thesis
    using o_remove_placed [OF assms(2), of key] Some
    by (auto simp: o_defs elim!: writes_to_weaken split: option.splits)
qed

end

section \<open>The operations on the in-memory store\<close>

lemma mem_ready: "mem.ready H U s \<longleftrightarrow> collision_free H U \<and> addressed H U (mem_objs s)"
  by (simp add: mem.ready_def)

lemma mem_writes_toD:
  assumes "mem.writes_to H U m s Q"
  obtains x s' where "m s = (Inr x, s')" "mem.ready H U s'" "mem_objs s \<subseteq>\<^sub>m mem_objs s'" "Q x (mem_objs s')"
  using assms by (auto simp: mem.writes_to_def split: prod.splits sum.splits)

lemma mem_readsD: "mem.reads m s x \<Longrightarrow> fst (m s) = Inr x"
  by (auto simp: mem.reads_def)

lemma o_insert_fuel: "o_clear H ot key \<Longrightarrow> o_height ot + 2 \<le> n \<Longrightarrow> \<exists>t'. o_insert H n ot key val = Some t'"
  by (cases ot) (auto simp: o_defs t_insert_fuel)

text \<open>
  C1: inserting a key that collides with no stored leaf returns a root under which that key has the
  new value and every other key has the value it had before; under the old root every key still has
  its old value. No error and no panic occurs, and fuel two above the tree's height is enough.
\<close>

theorem mem_insert_get:
  assumes "collision_free H U" "addressed H U (mem_objs s)" "o_stored H (mem_objs s) ot"
    and "o_clear H ot key" "ok_leaf key val" "o_height ot + 2 \<le> n"
    and "\<forall>t'. o_insert H n ot key val = Some t' \<longrightarrow> tree_recs H t' \<subseteq> U \<and> height t' < m"
    and "o_height ot < m"
  shows "\<exists>root' s'. hamt_insert H (mem_backend H) n (root_of H ot) key val s = (Inr root', s')
    \<and> (\<forall>q. fst (hamt_get H (mem_backend H) m (Some root') q s') =
            Inr (if q = key then Some val else o_lookup H ot q))
    \<and> (\<forall>q. fst (hamt_get H (mem_backend H) m (root_of H ot) q s') = Inr (o_lookup H ot q))"
proof -
  obtain t' where t': "o_insert H n ot key val = Some t'"
    using o_insert_fuel assms(4,6) by blast
  have r: "mem.ready H U s"
    using assms(1,2) by (simp add: mem_ready)
  obtain root' s' where ins: "hamt_insert H (mem_backend H) n (root_of H ot) key val s = (Inr root', s')"
    and s': "mem_objs s \<subseteq>\<^sub>m mem_objs s'" "root_of H (Some t') = Some root'" "o_stored H (mem_objs s') (Some t')"
    using mem_writes_toD [OF mem.hamt_insert_map [OF r assms(3-5) t']] assms(7) t' by metis
  have "fst (hamt_get H (mem_backend H) m (Some root') q s') = Inr (o_lookup H (Some t') q)" for q
    using mem_readsD [OF mem.hamt_get_map [OF TrueI s'(3)]] assms(7) t' s'(2) by (simp add: o_height_def)
  moreover have "fst (hamt_get H (mem_backend H) m (root_of H ot) q s') = Inr (o_lookup H ot q)" for q
    using mem_readsD [OF mem.hamt_get_map [OF TrueI o_stored_mono [OF assms(3) s'(1)] assms(8)]] .
  ultimately show ?thesis
    using ins o_lookup_insert [OF assms(3,4) t'] by auto
qed

text \<open>
  C2: in a trie whose leaves are placed under the chunks of their keys' hashes, removing a key returns a
  root under which that key is absent and every other key keeps its value; under the old root nothing
  changes.
\<close>

theorem mem_remove_get:
  assumes "collision_free H U" "addressed H U (mem_objs s)" "o_stored H (mem_objs s) ot"
    and "o_height ot < n" "o_recs H (o_remove H ot key) \<subseteq> U" "o_height (o_remove H ot key) < m" "o_height ot < m"
  shows "\<exists>root' s'. hamt_remove H (mem_backend H) n (root_of H ot) key s = (Inr root', s')
    \<and> (\<forall>q. fst (hamt_get H (mem_backend H) m root' q s') = Inr (if q = key then None else o_lookup H ot q))
    \<and> (\<forall>q. fst (hamt_get H (mem_backend H) m (root_of H ot) q s') = Inr (o_lookup H ot q))"
proof -
  have r: "mem.ready H U s"
    using assms(1,2) by (simp add: mem_ready)
  obtain root' s' where rem: "hamt_remove H (mem_backend H) n (root_of H ot) key s = (Inr root', s')"
    and s': "mem_objs s \<subseteq>\<^sub>m mem_objs s'" "root' = root_of H (o_remove H ot key)"
      "o_stored H (mem_objs s') (o_remove H ot key)"
    using mem_writes_toD [OF mem.hamt_remove_map [OF r assms(3-5)]] by metis
  have "fst (hamt_get H (mem_backend H) m root' q s') = Inr (o_lookup H (o_remove H ot key) q)" for q
    using mem_readsD [OF mem.hamt_get_map [OF TrueI s'(3) assms(6)]] s'(2) by simp
  moreover have "fst (hamt_get H (mem_backend H) m (root_of H ot) q s') = Inr (o_lookup H ot q)" for q
    using mem_readsD [OF mem.hamt_get_map [OF TrueI o_stored_mono [OF assms(3) s'(1)] assms(7)]] .
  ultimately show ?thesis
    using rem o_lookup_remove [OF assms(3)] by auto
qed

text \<open>
  C3: in a trie whose leaves are placed under the chunks of their keys' hashes, as insertions without a
  colliding leaf build it, \<open>entries\<close> lists every key exactly once, with the value \<open>get\<close> returns for it,
  and no other key. (\<open>collision_loses_a_key\<close> shows a trie that is not of this kind.)
\<close>

theorem mem_entries_get:
  assumes "o_stored H (mem_objs s) ot" "o_height ot < n"
  shows "\<exists>es. fst (hamt_entries (mem_backend H) n (root_of H ot) s) = Inr es \<and> distinct (map fst es)
    \<and> (\<forall>q. fst (hamt_get H (mem_backend H) n (root_of H ot) q s) = Inr (map_of es q))"
  using mem_readsD [OF mem.hamt_entries_map [OF TrueI assms]]
    mem_readsD [OF mem.hamt_get_map [OF TrueI assms]] o_entries_spec [OF assms(1)]
  by simp

text \<open>
  \<open>leaf_hash\<close> returns the hash of the stored leaf record of the key and its current value, and
  nothing for an absent key.
\<close>

theorem mem_leaf_hash:
  assumes "o_stored H (mem_objs s) ot" "o_height ot < n"
  shows "fst (hamt_leaf_hash H (mem_backend H) n (root_of H ot) key s) =
    Inr (map_option (\<lambda>v. H (node_encode (make_leaf key v))) (o_lookup H ot key))"
  using mem_readsD [OF mem.hamt_leaf_hash_map [OF TrueI assms]] by (simp add: make_leaf_def)

section \<open>Colliding keys\<close>

text \<open>
  C5: a key inserted beside a leaf whose key has a different hash is always stored: the recursion
  ends within the 52 chunks of a hash, also when the chunks at the leaf's depth are equal.
\<close>

theorem insert_terminates:
  assumes "collision_free H U" "addressed H U (mem_objs s)" "o_stored H (mem_objs s) (Some t)"
    and "\<forall>(k, v) \<in> set (t_entries t). k \<noteq> key \<longrightarrow> H k \<noteq> H key"
    and "ok_leaf key val" "height t + 105 \<le> n"
    and "\<forall>t'. t_insert H n t key val 0 = Some t' \<longrightarrow> tree_recs H t' \<subseteq> U"
  shows "\<exists>root' s'. hamt_insert H (mem_backend H) n (Some (th H t)) key val s = (Inr root', s')"
proof -
  obtain t' where t': "t_insert H n t key val 0 = Some t'"
    using t_insert_terminates [of H "[]" t key n val] assms(3,4,6) by (auto simp: o_stored_def)
  have "mem.ready H U s"
    using assms(1,2) by (simp add: mem_ready)
  from mem.insert_tree(1) [OF this _ _ assms(5) t'] show ?thesis
    using assms(3,7) t' by (auto simp: o_stored_def hamt_insert_def elim: mem_writes_toD)
qed

text \<open>
  C4: into a trie that is a single leaf, a second key is inserted whose hash differs from that of the leaf's
  key but agrees with it on the first chunk. The insertion succeeds and \<open>entries\<close> lists both keys, but
  \<open>get\<close> no longer finds one of the two.
\<close>

theorem collision_loses_a_key:
  assumes "collision_free H U" "addressed H U (mem_objs s)" "o_stored H (mem_objs s) (Some (HLeaf k v))"
    and "k \<noteq> key" "H k \<noteq> H key" "chunk H k 0 = chunk H key 0" "ok_leaf key val" "105 \<le> n" "2 \<le> m"
    and "\<forall>t'. t_insert H n (HLeaf k v) key val 0 = Some t' \<longrightarrow> tree_recs H t' \<subseteq> U"
  shows "\<exists>root' s'. hamt_insert H (mem_backend H) n (Some (th H (HLeaf k v))) key val s = (Inr root', s')
    \<and> (fst (hamt_get H (mem_backend H) m (Some root') k s') = Inr None
       \<or> fst (hamt_get H (mem_backend H) m (Some root') key s') = Inr None)
    \<and> (\<exists>es. fst (hamt_entries (mem_backend H) m (Some root') s') = Inr es
          \<and> set es = {(k, v), (key, val)})"
proof -
  obtain t' where t': "t_insert H n (HLeaf k v) key val 0 = Some t'"
    using t_insert_terminates [of H "[]" "HLeaf k v" key n val] assms(3,4,5,8) by (auto simp: o_stored_def)
  obtain j where "t_expand H j k v key val 0 = Some t'"
    using t' assms(4) by (cases n) auto
  from t_expand_shape [OF this assms(4)] have "height t' < m"
    using assms(9) by auto
  have wf: "wf_tree (HLeaf k v)" "stored H (mem_objs s) (HLeaf k v)"
    using assms(3) by (simp_all add: o_stored_def)
  have wf': "wf_tree t'"
    by (rule t_insert_wf(1) [OF wf(1) assms(7) t'])
  have "mem.ready H U s"
    using assms(1,2) by (simp add: mem_ready)
  from mem_writes_toD [OF mem.insert_tree(1) [OF this wf assms(7) t']] assms(10) t' obtain s' where
    ins: "insert_internal H (mem_backend H) n (Some (th H (HLeaf k v))) key val (H key) 0 s = (Inr (th H t'), s')"
    and st: "stored H (mem_objs s') t'" by metis
  have "fst (hamt_get H (mem_backend H) m (Some (th H t')) q s') = Inr (t_lookup H q t' 0)" for q
    using mem_readsD [OF mem.get_internal_tree [OF TrueI wf' st \<open>height t' < m\<close>]]
    by (simp add: hamt_get_def)
  moreover have "fst (hamt_entries (mem_backend H) m (Some (th H t')) s') = Inr (t_entries t')"
    using mem_readsD [OF mem.collect_entries_tree [OF TrueI wf' st \<open>height t' < m\<close>]]
    by (simp add: hamt_entries_def)
  ultimately show ?thesis
    using ins t_collision [OF assms(4,6) t'] by (simp add: hamt_insert_def del: th.simps)
qed

section \<open>Concrete runs\<close>

definition ex_leaf :: htree where
  "ex_leaf = HLeaf [1] [7]"

definition ex_mem :: MemCas where
  "ex_mem = snd (mem_put pad_hash HamtLeaf (node_encode (Leaf [1] [7])) mem_new)"

definition ex_near :: htree where
  "ex_near = HNode 6 [HLeaf [1] [7], HLeaf [2] [9]]"

definition ex_far :: htree where
  "ex_far = HNode 3 [HLeaf [1] [7], HLeaf [33] [9]]"

lemma ex_mem_objs: "mem_objs ex_mem = [th pad_hash ex_leaf \<mapsto> tree_rec pad_hash ex_leaf]"
proof -
  have "mem_objects ex_mem = [(th pad_hash ex_leaf, tree_rec pad_hash ex_leaf)]"
    by code_simp
  then show ?thesis by (simp add: mem_objs_def)
qed

lemma ex_stored: "o_stored pad_hash (mem_objs ex_mem) (Some ex_leaf)"
  by (simp add: o_stored_def ex_mem_objs stored_HLeaf [folded ex_leaf_def] ex_leaf_def [symmetric])
    (simp add: ex_leaf_def ok_leaf_def stored_HLeaf)

lemma ex_addressed: "tree_rec pad_hash ex_leaf \<in> U \<Longrightarrow> addressed pad_hash U (mem_objs ex_mem)"
  by (auto simp: addressed_def ex_mem_objs th_node tree_rec_def)

lemma ex_collision_free:
  "collision_free pad_hash (tree_recs pad_hash ex_near)"
  "collision_free pad_hash (tree_recs pad_hash ex_far)"
  by code_simp+

lemma ex_leaf_in: "tree_rec pad_hash ex_leaf \<in> tree_recs pad_hash ex_near" "tree_rec pad_hash ex_leaf \<in> tree_recs pad_hash ex_far"
  by (simp_all add: ex_near_def ex_far_def ex_leaf_def)

lemma ex_insert:
  "o_insert pad_hash 2 (Some ex_leaf) [2] [9] = Some ex_near"
  "t_insert pad_hash 105 ex_leaf [33] [9] 0 = Some ex_far"
  by code_simp+

lemma ex_shape: "height ex_leaf = 0" "height ex_near = 1" "o_clear pad_hash (Some ex_leaf) [2]"
  "chunk pad_hash [1] 0 = chunk pad_hash [33] 0" "pad_hash [1] \<noteq> pad_hash [33]"
  "ok_leaf [2] [9]" "ok_leaf [33] [9]" "o_remove pad_hash (Some ex_leaf) [1] = None"
       apply code_simp
      apply code_simp
     apply code_simp
    apply code_simp
   apply code_simp
  by (simp_all add: ok_leaf_def ex_leaf_def o_remove_def)

theorem mem_insert_get_witness:
  "\<exists>root' s'. hamt_insert pad_hash (mem_backend pad_hash) 2 (root_of pad_hash (Some ex_leaf)) [2] [9] ex_mem
      = (Inr root', s')
    \<and> (\<forall>q. fst (hamt_get pad_hash (mem_backend pad_hash) 2 (Some root') q s') =
            Inr (if q = [2] then Some [9] else o_lookup pad_hash (Some ex_leaf) q))
    \<and> (\<forall>q. fst (hamt_get pad_hash (mem_backend pad_hash) 2 (root_of pad_hash (Some ex_leaf)) q s')
          = Inr (o_lookup pad_hash (Some ex_leaf) q))"
  by (rule mem_insert_get [OF ex_collision_free(1) ex_addressed [OF ex_leaf_in(1)] ex_stored])
    (simp_all add: ex_shape ex_insert o_height_def)

theorem mem_remove_get_witness:
  "\<exists>root' s'. hamt_remove pad_hash (mem_backend pad_hash) 1 (root_of pad_hash (Some ex_leaf)) [1] ex_mem
      = (Inr root', s')
    \<and> (\<forall>q. fst (hamt_get pad_hash (mem_backend pad_hash) 1 root' q s') =
            Inr (if q = [1] then None else o_lookup pad_hash (Some ex_leaf) q))
    \<and> (\<forall>q. fst (hamt_get pad_hash (mem_backend pad_hash) 1 (root_of pad_hash (Some ex_leaf)) q s')
          = Inr (o_lookup pad_hash (Some ex_leaf) q))"
  by (rule mem_remove_get [OF ex_collision_free(1) ex_addressed [OF ex_leaf_in(1)] ex_stored])
    (simp_all add: ex_shape o_height_def o_recs_def)

theorem mem_entries_get_witness:
  "\<exists>es. fst (hamt_entries (mem_backend pad_hash) 1 (root_of pad_hash (Some ex_leaf)) ex_mem) = Inr es
    \<and> distinct (map fst es)
    \<and> (\<forall>q. fst (hamt_get pad_hash (mem_backend pad_hash) 1 (root_of pad_hash (Some ex_leaf)) q ex_mem)
          = Inr (map_of es q))"
  by (rule mem_entries_get [OF ex_stored]) (simp add: ex_shape o_height_def)

theorem mem_leaf_hash_witness:
  "fst (hamt_leaf_hash pad_hash (mem_backend pad_hash) 1 (root_of pad_hash (Some ex_leaf)) [1] ex_mem) =
    Inr (Some (pad_hash (node_encode (make_leaf [1] [7]))))"
  using mem_leaf_hash [OF ex_stored, of 1 "[1]"]
  by (simp add: ex_shape o_height_def o_lookup_def) (simp add: ex_leaf_def)

theorem insert_terminates_witness:
  "\<exists>root' s'. hamt_insert pad_hash (mem_backend pad_hash) 105 (Some (th pad_hash ex_leaf)) [33] [9] ex_mem
     = (Inr root', s')"
  by (rule insert_terminates [OF ex_collision_free(2) ex_addressed [OF ex_leaf_in(2)] ex_stored])
    (use ex_shape in \<open>simp_all add: ex_insert\<close>, simp add: ex_leaf_def)

theorem collision_loses_a_key_witness:
  "\<exists>root' s'. hamt_insert pad_hash (mem_backend pad_hash) 105 (Some (th pad_hash (HLeaf [1] [7]))) [33] [9] ex_mem
      = (Inr root', s')
    \<and> (fst (hamt_get pad_hash (mem_backend pad_hash) 2 (Some root') [1] s') = Inr None
       \<or> fst (hamt_get pad_hash (mem_backend pad_hash) 2 (Some root') [33] s') = Inr None)
    \<and> (\<exists>es. fst (hamt_entries (mem_backend pad_hash) 2 (Some root') s') = Inr es
          \<and> set es = {([1], [7]), ([33], [9])})"
  by (rule collision_loses_a_key [OF ex_collision_free(2) ex_addressed [OF ex_leaf_in(2)]
        ex_stored [unfolded ex_leaf_def]])
    (simp_all add: ex_shape ex_insert(2) [unfolded ex_leaf_def])

end
