(* ===== verification/Cas_Disk.thy ===== *)
theory Cas_Disk
  imports Cas_Store Hamt_Api
begin

text \<open>
  The on-disk store keeps the store contract: its invariant, what each operation does to the objects
  it holds, that it survives being closed and opened again, and what a crash can lose.
\<close>

section \<open>Segment names\<close>

lemma digit_char: "d < 10 \<Longrightarrow> of_char (char_of (48 + d :: nat) :: char) = 48 + d"
  by (simp add: of_char_of)

lemma parse_digits_append:
  "parse_digits bound acc (xs @ ys) =
     (case parse_digits bound acc xs of None \<Rightarrow> None | Some acc' \<Rightarrow> parse_digits bound acc' ys)"
  by (induction xs arbitrary: acc) (simp_all add: Let_def)

lemma parse_digits_show: "n \<le> bound \<Longrightarrow> parse_digits bound 0 (show_nat n) = Some n"
proof (induction n rule: show_nat.induct)
  case (1 n)
  show ?case
  proof (cases "n < 10")
    case True
    with 1 show ?thesis
      by (subst show_nat.simps) (simp add: digit_char Let_def)
  next
    case False
    then have "parse_digits bound 0 (show_nat (n div 10)) = Some (n div 10)"
      using 1 by simp
    with False 1(2) show ?thesis
      by (subst show_nat.simps) (simp add: parse_digits_append digit_char Let_def)
  qed
qed

lemma parse_digits_zeros: "parse_digits bound 0 (replicate k (CHR ''0'') @ xs) = parse_digits bound 0 xs"
  by (induction k) simp_all

lemma segment_name_id_fmt: "segment_name_id (fmt06 (unat sid) @ ''.epl'') = Some (sid :: u16)"
proof -
  have "unat sid \<le> 65535"
    using unat_u16_less [of sid] by simp
  then have p: "parse_digits 65535 0 (fmt06 (unat sid)) = Some (unat sid)"
    by (simp add: fmt06_def parse_digits_zeros parse_digits_show)
  have "show_nat (unat sid) \<noteq> []"
    by (subst show_nat.simps) simp
  then have ne: "fmt06 (unat sid) \<noteq> []"
    by (simp add: fmt06_def)
  then obtain c cs where c: "fmt06 (unat sid) = c # cs" by (cases "fmt06 (unat sid)") auto
  then have "c \<noteq> CHR ''+''"
    using p by (auto simp: Let_def)
  then have "parse_u16 (fmt06 (unat sid)) = Some sid"
    using p c by (simp add: parse_u16_def del: parse_digits.simps)
  then show ?thesis
    by (simp add: segment_name_id_def strip_suffix_def)
qed

lemma segment_path_eq_iff [simp]: "segment_path_for rp i = segment_path_for rp j \<longleftrightarrow> i = j"
  unfolding segment_path_for_def by simp (metis segment_name_id_fmt option.inject append_same_eq)

lemma segment_path_simps [simp]:
  "segment_path_for rp i \<noteq> []" "segment_path_for rp i \<noteq> rp @ [''index.epi'']"
  "butlast (segment_path_for rp i) = rp @ [''data'']"
  "last (segment_path_for rp i) = fmt06 (unat i) @ ''.epl''"
  "rp @ [''index.epi''] \<noteq> segment_path_for rp i"
  by (simp_all add: segment_path_for_def butlast_append)

lemma read_dir_names: "fst ` set (fs_read_dir d fs) = {c. fs_get fs (d @ [c]) \<noteq> None}"
proof -
  have "fst ` set (fs_read_dir d fs) = {last p |p n. (p, n) \<in> set (fs_nodes fs) \<and> p \<noteq> [] \<and> butlast p = d}"
    by (force simp: fs_read_dir_def image_iff)
  also have "\<dots> = {c. d @ [c] \<in> fst ` set (fs_nodes fs)}"
    by (force simp: snoc_eq_iff_butlast image_iff)
  also have "\<dots> = {c. fs_get fs (d @ [c]) \<noteq> None}"
    by (simp add: fs_get_def map_of_eq_None_iff)
  finally show ?thesis .
qed

section \<open>The invariant\<close>

text \<open>The bytes of a segment, those still in the writer's buffer included.\<close>

definition seg_bytes :: "CasStore \<Rightarrow> u16 \<Rightarrow> bytes option" where
  "seg_bytes s sid =
     (case fs_get (cas_fs s) (segment_path_for (repo_path s) sid) of
        Some (File c) \<Rightarrow> Some (if sid = current_segment_id s then c @ bw_buf (current_file s) else c)
      | _ \<Rightarrow> None)"

definition entry_slice :: "IndexEntry \<Rightarrow> bytes \<Rightarrow> bytes" where
  "entry_slice e b = take (unat (record_len e)) (drop (unat (offset e)) b)"

definition entry_holds :: "hasher \<Rightarrow> IndexEntry \<Rightarrow> bytes \<Rightarrow> hash \<Rightarrow> RecordType \<Rightarrow> bytes \<Rightarrow> bool" where
  "entry_holds H e b h ty p \<longleftrightarrow>
     unat (offset e) + unat (record_len e) \<le> length b \<and> entry_slice e b = encode_record ty p h
     \<and> H p = h \<and> fits_record p"

definition entry_ok :: "hasher \<Rightarrow> CasStore \<Rightarrow> hash \<Rightarrow> IndexEntry \<Rightarrow> bool" where
  "entry_ok H s h e \<longleftrightarrow> (\<exists>b ty p. seg_bytes s (segment_id e) = Some b \<and> entry_holds H e b h ty p)"

definition store_objs :: "hasher \<Rightarrow> CasStore \<Rightarrow> objects" where
  "store_objs H s h =
     (case index_get (cas_index s) h of
        None \<Rightarrow> None
      | Some e \<Rightarrow>
          (case seg_bytes s (segment_id e) of
             None \<Rightarrow> None
           | Some b \<Rightarrow>
               (case decode_record H (entry_slice e b) of
                  Inl _ \<Rightarrow> None
                | Inr r \<Rightarrow> Some (record_type r, payload r))))"

definition segments_upto :: "Fs \<Rightarrow> path \<Rightarrow> u16 \<Rightarrow> bool" where
  "segments_upto fs rp cur \<longleftrightarrow>
     (\<forall>name i. fs_exists fs (rp @ [''data'', name]) \<longrightarrow> segment_name_id name = Some i \<longrightarrow> i \<le> cur)"

definition layout_ok :: "CasStore \<Rightarrow> bool" where
  "layout_ok s \<longleftrightarrow>
     index_ok (cas_index s, cas_fs s) \<and> idx_file (cas_index s) = repo_path s @ [''index.epi'']
     \<and> is_dir_path (cas_fs s) (repo_path s @ [''data''])
     \<and> bw_path (current_file s) = segment_path_for (repo_path s) (current_segment_id s)
     \<and> (\<exists>c. fs_get (cas_fs s) (segment_path_for (repo_path s) (current_segment_id s)) = Some (File c)
          \<and> SEGMENT_HEADER_LEN \<le> length c \<and> take 4 c = SEGMENT_MAGIC
          \<and> current_offset s = length c + length (bw_buf (current_file s)))
     \<and> segments_upto (cas_fs s) (repo_path s) (current_segment_id s)"

definition caches_ok :: "hasher \<Rightarrow> CasStore \<Rightarrow> bool" where
  "caches_ok H s \<longleftrightarrow>
     lru_ok (write_cache s)
     \<and> (\<forall>h x. lru_get (write_cache s) h = Some x \<longrightarrow> store_objs H s h = Some x)
     \<and> (\<forall>sid m. map_of (segment_maps s) sid = Some m \<longrightarrow>
          sid < current_segment_id s
          \<and> fs_get (cas_fs s) (segment_path_for (repo_path s) sid) = Some (File m))"

definition cas_inv :: "hasher \<Rightarrow> CasStore \<Rightarrow> bool" where
  "cas_inv H s \<longleftrightarrow>
     layout_ok s \<and> caches_ok H s \<and> (\<forall>h e. index_get (cas_index s) h = Some e \<longrightarrow> entry_ok H s h e)"

lemma entry_decodes:
  assumes "entry_holds H e b h ty p"
  shows "decode_record H (entry_slice e b) = Inr \<lparr>record_type = ty, content_hash = h, payload = p\<rparr>"
  using decode_encode_record [of p H h ty "[]"] assms by (simp add: entry_holds_def fits_record_def)

lemma store_objs_entry:
  "index_get (cas_index s) h = Some e \<Longrightarrow> seg_bytes s (segment_id e) = Some b \<Longrightarrow>
     entry_holds H e b h ty p \<Longrightarrow> store_objs H s h = Some (ty, p)"
  by (simp add: store_objs_def entry_decodes)

lemma entry_holds_append: "entry_holds H e b h ty p \<Longrightarrow> entry_holds H e (b @ x) h ty p"
  by (simp add: entry_holds_def entry_slice_def)

text \<open>The objects of a store depend only on its index and its segments.\<close>

lemma store_objs_cong:
  assumes "cas_index s' = cas_index s" "seg_bytes s' = seg_bytes s"
  shows "store_objs H s' = store_objs H s" "entry_ok H s' = entry_ok H s"
proof -
  show "store_objs H s' = store_objs H s"
    by (rule ext) (unfold store_objs_def assms, rule refl)
  show "entry_ok H s' = entry_ok H s"
    by (intro ext) (simp add: entry_ok_def assms)
qed

section \<open>Steps that keep the objects\<close>

definition maps_ok :: "CasStore \<Rightarrow> bool" where
  "maps_ok s \<longleftrightarrow>
     (\<forall>sid m. map_of (segment_maps s) sid = Some m \<longrightarrow>
        sid < current_segment_id s
        \<and> fs_get (cas_fs s) (segment_path_for (repo_path s) sid) = Some (File m))"

lemma cas_invD:
  assumes "cas_inv H s"
  shows "layout_ok s" "lru_ok (write_cache s)" "maps_ok s"
    and "lru_get (write_cache s) h = Some x \<Longrightarrow> store_objs H s h = Some x"
    and "index_get (cas_index s) h = Some e \<Longrightarrow> entry_ok H s h e"
  using assms unfolding cas_inv_def caches_ok_def maps_ok_def by blast+

lemma cas_inv_frame:
  assumes inv: "cas_inv H s" and layout: "layout_ok s'" and maps: "maps_ok s'"
    and idx: "cas_index s' = cas_index s"
    and seg: "\<And>sid b. seg_bytes s sid = Some b \<Longrightarrow> seg_bytes s' sid = Some b"
    and lru: "lru_ok (write_cache s')"
    and cache: "\<And>h x. lru_get (write_cache s') h = Some x \<Longrightarrow> store_objs H s h = Some x"
  shows "cas_inv H s'" "store_objs H s' = store_objs H s"
proof -
  have e: "\<exists>b ty p. seg_bytes s (segment_id e) = Some b \<and> seg_bytes s' (segment_id e) = Some b
      \<and> entry_holds H e b h ty p" if "index_get (cas_index s) h = Some e" for h e
    using cas_invD(5) [OF inv that] seg by (auto simp: entry_ok_def)
  show objs: "store_objs H s' = store_objs H s"
  proof
    fix h
    show "store_objs H s' h = store_objs H s h"
    proof (cases "index_get (cas_index s) h")
      case None
      then show ?thesis by (simp add: store_objs_def idx)
    next
      case (Some e)
      with e [OF Some] show ?thesis by (auto simp: store_objs_def idx)
    qed
  qed
  have "entry_ok H s' h e" if "index_get (cas_index s') h = Some e" for h e
    using e [of h e] that unfolding entry_ok_def idx by blast
  then show "cas_inv H s'"
    using layout maps lru cache unfolding cas_inv_def caches_ok_def maps_ok_def objs by blast
qed

lemma is_dir_path_mono:
  "is_dir_path fs p \<Longrightarrow> (\<And>q. fs_get fs q = Some Dir \<Longrightarrow> fs_get fs' q = Some Dir) \<Longrightarrow> is_dir_path fs' p"
  by (simp add: is_dir_path_def)

lemma layoutE:
  assumes "layout_ok s"
  obtains c where "fs_get (cas_fs s) (segment_path_for (repo_path s) (current_segment_id s)) = Some (File c)"
    "SEGMENT_HEADER_LEN \<le> length c" "take 4 c = SEGMENT_MAGIC"
    "current_offset s = length c + length (bw_buf (current_file s))"
    "bw_path (current_file s) = segment_path_for (repo_path s) (current_segment_id s)"
    "seg_bytes s (current_segment_id s) = Some (c @ bw_buf (current_file s))"
  using assms by (auto simp: layout_ok_def seg_bytes_def)

lemma fs_exists_append [simp]: "fs_exists (fs_append p b fs) q = fs_exists fs q"
  by (simp add: fs_exists_def fs_get_append split: option.splits node.splits)

lemma flush_writer_simps [simp]:
  "repo_path (flush_writer s) = repo_path s" "cas_index (flush_writer s) = cas_index s"
  "current_segment_id (flush_writer s) = current_segment_id s" "current_offset (flush_writer s) = current_offset s"
  "dirty (flush_writer s) = dirty s" "write_cache (flush_writer s) = write_cache s"
  "segment_maps (flush_writer s) = segment_maps s" "mmap_cap (flush_writer s) = mmap_cap s"
  "bw_buf (current_file (flush_writer s)) = []"
  "bw_path (current_file (flush_writer s)) = bw_path (current_file s)"
  by (simp_all add: flush_writer_def bw_flush_def Let_def)

lemma flush_writer_fs:
  "cas_fs (flush_writer s) = fs_append (bw_path (current_file s)) (bw_buf (current_file s)) (cas_fs s)"
  by (simp add: flush_writer_def bw_flush_def Let_def)

lemma seg_bytes_flush_writer:
  assumes "layout_ok s"
  shows "seg_bytes (flush_writer s) = seg_bytes s"
  using assms
  by (auto simp: fun_eq_iff seg_bytes_def flush_writer_fs fs_get_append layout_ok_def
      split: option.splits node.splits)

lemma layout_flush_writer:
  assumes "layout_ok s"
  shows "layout_ok (flush_writer s)"
proof -
  have idx: "index_ok (cas_index s, cas_fs s)" "idx_file (cas_index s) = repo_path s @ [''index.epi'']"
    and path: "bw_path (current_file s) = segment_path_for (repo_path s) (current_segment_id s)"
    using assms by (simp_all add: layout_ok_def)
  have "index_ok (cas_index s, cas_fs (flush_writer s))"
    using idx by (auto simp: index_ok_def flush_writer_fs fs_get_append path)
  moreover have "is_dir_path (cas_fs (flush_writer s)) (repo_path s @ [''data''])"
    by (rule is_dir_path_mono [of "cas_fs s"])
      (use assms in \<open>simp_all add: layout_ok_def flush_writer_fs fs_get_append\<close>)
  moreover have "segments_upto (cas_fs (flush_writer s)) (repo_path s) (current_segment_id s)"
    using assms by (simp add: layout_ok_def segments_upto_def fs_exists_append flush_writer_fs)
  moreover obtain c where
    c: "fs_get (cas_fs s) (segment_path_for (repo_path s) (current_segment_id s)) = Some (File c)"
      "SEGMENT_HEADER_LEN \<le> length c" "take 4 c = SEGMENT_MAGIC"
      "current_offset s = length c + length (bw_buf (current_file s))"
    using assms by (rule layoutE)
  have "4 \<le> length c" using c(2) by (simp add: SEGMENT_HEADER_LEN_def)
  ultimately show ?thesis
    using idx(2) path c by (auto simp: layout_ok_def flush_writer_fs fs_get_append)
qed

lemma maps_flush_writer: "layout_ok s \<Longrightarrow> maps_ok s \<Longrightarrow> maps_ok (flush_writer s)"
  by (auto simp: maps_ok_def flush_writer_fs fs_get_append layout_ok_def)

lemma flush_writer_inv:
  assumes "cas_inv H s"
  shows "cas_inv H (flush_writer s)" "store_objs H (flush_writer s) = store_objs H s"
proof -
  note d = cas_invD [OF assms]
  show "cas_inv H (flush_writer s)" "store_objs H (flush_writer s) = store_objs H s"
    using cas_inv_frame [OF assms layout_flush_writer [OF d(1)] maps_flush_writer [OF d(1,3)]]
      seg_bytes_flush_writer [OF d(1)] d(2,4) by simp_all
qed

lemma layout_cong:
  assumes "\<And>p. fs_get (cas_fs s') p = fs_get (cas_fs s) p" "repo_path s' = repo_path s" "cas_index s' = cas_index s"
    "current_segment_id s' = current_segment_id s" "current_file s' = current_file s"
    "current_offset s' = current_offset s"
  shows "layout_ok s' = layout_ok s" "seg_bytes s' = seg_bytes s"
  unfolding layout_ok_def seg_bytes_def index_ok_def is_dir_path_def segments_upto_def fs_exists_def prod.case assms
  by (rule refl)+

lemma index_flush_get [simp]: "fs_get (index_flush (idx, fs)) p = fs_get fs p"
  by (simp add: index_flush_def)

lemma cas_flush_inv:
  assumes "cas_inv H s"
  shows "cas_inv H (cas_flush s)" "store_objs H (cas_flush s) = store_objs H s"
proof -
  note d = cas_invD [OF flush_writer_inv(1) [OF assms]]
  let ?fs = "index_flush (cas_index s, fs_sync (bw_path (current_file s)) (cas_fs (flush_writer s)))"
  let ?s = "(flush_writer s)\<lparr>cas_fs := ?fs, dirty := False,
      segment_maps := AList.delete (current_segment_id s) (segment_maps s)\<rparr>"
  have "layout_ok ?s" "seg_bytes ?s = seg_bytes (flush_writer s)"
    using d(1) by (simp_all add: layout_cong [of ?s "flush_writer s"])
  moreover have "maps_ok ?s"
    using d(3) by (auto simp: maps_ok_def map_of_delete split: if_splits)
  ultimately have "cas_inv H ?s" "store_objs H ?s = store_objs H (flush_writer s)"
    using cas_inv_frame [OF flush_writer_inv(1) [OF assms], of ?s] d(2,4) by simp_all
  then show "cas_inv H (cas_flush s)" "store_objs H (cas_flush s) = store_objs H s"
    using flush_writer_inv [OF assms] by (simp_all add: cas_flush_def Let_def)
qed

section \<open>Rotation\<close>

lemma segment_header:
  "length (encode_segment_header sid t) = SEGMENT_HEADER_LEN"
  "take 4 (encode_segment_header sid t) = SEGMENT_MAGIC"
  by (simp_all add: encode_segment_header_def SEGMENT_HEADER_LEN_def SEGMENT_MAGIC_def enc_new_def encoded_def)

lemma cas_flush_simps [simp]:
  "repo_path (cas_flush s) = repo_path s" "cas_index (cas_flush s) = cas_index s"
  "current_segment_id (cas_flush s) = current_segment_id s" "current_offset (cas_flush s) = current_offset s"
  "write_cache (cas_flush s) = write_cache s" "bw_buf (current_file (cas_flush s)) = []"
  "fs_get (cas_fs (cas_flush s)) q = fs_get (cas_fs (flush_writer s)) q"
  by (simp_all add: cas_flush_def Let_def)

lemma create_segment:
  assumes "\<not> fs_exists fs p" "fs_get fs (butlast p) = Some Dir" "p \<noteq> []"
  shows "\<exists>fs'. open_or_create_segment p sid fs = (Inr SEGMENT_HEADER_LEN, fs')
    \<and> (\<forall>q. fs_get fs' q = (if q = p then Some (File (encode_segment_header (ucast sid) (fs_clock fs div 1000)))
          else fs_get fs q))"
  using assms
  by (auto simp: open_or_create_segment_def fs_open_append_def fs_exists_def try_st_def fs_get_append
      fs_get_set split: option.splits node.splits)

lemma dir_path_last: "is_dir_path fs p \<Longrightarrow> fs_get fs p = Some Dir"
  by (auto simp: is_dir_path_def dest: spec [of _ "length p"])

lemma word_less_Suc: "(w :: u16) \<noteq> 0xFFFF \<Longrightarrow> w < w + 1"
proof -
  assume "w \<noteq> 0xFFFF"
  then have "unat w \<noteq> 65535"
    using unsigned_word_eqI [of w "0xFFFF"] by auto
  with unat_u16_less [of w] have "unat w + 1 < 2 ^ 16" by simp
  then have "unat (w + 1) = unat w + 1"
    by (simp add: unat_word_ariths)
  then show ?thesis
    by (simp add: word_less_nat_alt)
qed

lemma new_segment_inv:
  assumes inv: "cas_inv H s" and buf: "bw_buf (current_file s) = []"
    and less: "current_segment_id s < sid"
    and fs: "\<forall>q. fs_get fs q = (if q = segment_path_for (repo_path s) sid then Some (File b) else fs_get (cas_fs s) q)"
    and b: "length b = SEGMENT_HEADER_LEN" "take 4 b = SEGMENT_MAGIC"
    and only: "\<not> fs_exists (cas_fs s) (segment_path_for (repo_path s) sid)"
  defines "s' \<equiv> s\<lparr>cas_fs := fs, current_segment_id := sid,
      current_file := bw_with_capacity SEGMENT_BUF_BYTES (segment_path_for (repo_path s) sid),
      current_offset := SEGMENT_HEADER_LEN\<rparr>"
  shows "cas_inv H s'" "store_objs H s' = store_objs H s"
proof -
  note d = cas_invD [OF inv]
  note lay = d(1) [unfolded layout_ok_def]
  have seg: "seg_bytes s' i = Some c" if "seg_bytes s i = Some c" for i c
  proof -
    have "i \<noteq> sid"
      using that only by (auto simp: seg_bytes_def fs_exists_def)
    with that show ?thesis
      using buf by (auto simp: seg_bytes_def s'_def fs split: option.splits node.splits if_splits)
  qed
  have "index_ok (cas_index s', cas_fs s')"
    using lay by (auto simp: index_ok_def s'_def fs)
  moreover have "is_dir_path (cas_fs s') (repo_path s @ [''data''])"
    by (rule is_dir_path_mono [of "cas_fs s"])
      (use lay only in \<open>auto simp: s'_def fs fs_exists_def\<close>)
  moreover have "segments_upto (cas_fs s') (repo_path s) sid"
  proof -
    have "i \<le> sid" if "fs_exists fs (repo_path s @ [''data'', name])" "segment_name_id name = Some i" for name i
    proof (cases "repo_path s @ [''data'', name] = segment_path_for (repo_path s) sid")
      case True
      then show ?thesis
        using that(2) by (simp add: segment_path_for_def segment_name_id_fmt)
    next
      case False
      with that have "i \<le> current_segment_id s"
        using lay by (auto simp: segments_upto_def fs_exists_def fs)
      with less show ?thesis by simp
    qed
    then show ?thesis by (simp add: segments_upto_def s'_def)
  qed
  ultimately have layout: "layout_ok s'"
    using lay b by (simp add: layout_ok_def s'_def fs bw_with_capacity_def)
  have maps: "maps_ok s'"
    unfolding maps_ok_def
  proof (intro allI impI)
    fix i m
    assume "map_of (segment_maps s') i = Some m"
    then have i: "i < current_segment_id s" "fs_get (cas_fs s) (segment_path_for (repo_path s) i) = Some (File m)"
      using d(3) by (auto simp: maps_ok_def s'_def)
    from i(1) less have "i < sid" by (rule less_trans)
    with i show "i < current_segment_id s' \<and> fs_get (cas_fs s') (segment_path_for (repo_path s') i) = Some (File m)"
      by (auto simp: s'_def fs)
  qed
  show "cas_inv H s'" "store_objs H s' = store_objs H s"
    using cas_inv_frame [OF inv layout maps _ seg] d(2,4) by (simp_all add: s'_def)
qed

definition overflow_err :: "failure \<Rightarrow> bool" where
  "overflow_err e \<longleftrightarrow> e = Err (Storage (Corrupt ''segment id overflow''))"

text \<open>A rotation that has a number left creates the next segment.\<close>

lemma rotate_creates:
  assumes inv: "cas_inv H s" and sid: "current_segment_id s \<noteq> 0xFFFF"
  defines "p \<equiv> segment_path_for (repo_path s) (current_segment_id s + 1)"
  obtains fs where "\<not> fs_exists (cas_fs (cas_flush s)) p"
    "open_or_create_segment p (current_segment_id s + 1) (cas_fs (cas_flush s)) = (Inr SEGMENT_HEADER_LEN, fs)"
    "\<forall>q. fs_get fs q = (if q = p then Some (File (encode_segment_header (ucast (current_segment_id s + 1))
          (fs_clock (cas_fs (cas_flush s)) div 1000))) else fs_get (cas_fs (cas_flush s)) q)"
    "rotate_segment s = (Inr (), (cas_flush s)\<lparr>cas_fs := fs, current_segment_id := current_segment_id s + 1,
        current_file := bw_with_capacity SEGMENT_BUF_BYTES p, current_offset := SEGMENT_HEADER_LEN\<rparr>)"
proof -
  note lay = cas_invD(1) [OF cas_flush_inv(1) [OF inv], unfolded layout_ok_def]
  have only: "\<not> fs_exists (cas_fs (cas_flush s)) p"
  proof
    assume "fs_exists (cas_fs (cas_flush s)) p"
    then have "current_segment_id s + 1 \<le> current_segment_id s"
      using lay by (auto simp: segments_upto_def segment_path_for_def segment_name_id_fmt p_def
          simp del: cas_flush_simps(7))
    with word_less_Suc [OF sid] show False by simp
  qed
  have "fs_get (cas_fs (cas_flush s)) (butlast p) = Some Dir"
    using lay by (simp add: dir_path_last p_def del: cas_flush_simps(7))
  from create_segment [OF only this] obtain fs where
    op: "open_or_create_segment p (current_segment_id s + 1) (cas_fs (cas_flush s)) = (Inr SEGMENT_HEADER_LEN, fs)"
    and fs: "\<forall>q. fs_get fs q = (if q = p then Some (File (encode_segment_header (ucast (current_segment_id s + 1))
        (fs_clock (cas_fs (cas_flush s)) div 1000))) else fs_get (cas_fs (cas_flush s)) q)"
    by (auto simp: p_def)
  show ?thesis
    by (rule that [OF only op fs]) (use op sid in \<open>simp add: rotate_segment_def Let_def p_def\<close>)
qed

lemma rotate_spec:
  assumes inv: "cas_inv H s" and rot: "rotate_segment s = (r, s')"
  shows "cas_inv H s' \<and> store_objs H s' = store_objs H s \<and> write_cache s' = write_cache s
     \<and> cas_index s' = cas_index s
     \<and> (case r of Inr _ \<Rightarrow> current_offset s' = SEGMENT_HEADER_LEN | Inl e \<Rightarrow> overflow_err e)
     \<and> (isl r \<longleftrightarrow> current_segment_id s = 0xFFFF)"
proof (cases "current_segment_id s = 0xFFFF")
  case True
  then show ?thesis
    using rot cas_flush_inv [OF inv] by (auto simp: rotate_segment_def overflow_err_def)
next
  case False
  note fl = cas_flush_inv [OF inv]
  obtain fs where fs: "\<not> fs_exists (cas_fs (cas_flush s)) (segment_path_for (repo_path s) (current_segment_id s + 1))"
    "\<forall>q. fs_get fs q = (if q = segment_path_for (repo_path s) (current_segment_id s + 1)
        then Some (File (encode_segment_header (ucast (current_segment_id s + 1))
          (fs_clock (cas_fs (cas_flush s)) div 1000))) else fs_get (cas_fs (cas_flush s)) q)"
    "rotate_segment s = (Inr (), (cas_flush s)\<lparr>cas_fs := fs, current_segment_id := current_segment_id s + 1,
        current_file := bw_with_capacity SEGMENT_BUF_BYTES (segment_path_for (repo_path s) (current_segment_id s + 1)),
        current_offset := SEGMENT_HEADER_LEN\<rparr>)"
    by (rule rotate_creates [OF inv False])
  then show ?thesis
    using new_segment_inv [OF fl(1) _ _ _ segment_header, of "current_segment_id s + 1" fs]
      word_less_Suc [OF False] fl(2) rot False
    by (auto simp del: cas_flush_simps(7))
qed

section \<open>Appending a record\<close>

lemma append_record_unfold:
  assumes "bw_write_all (encode_record ty p h) (current_file s, cas_fs s) = (w, fs1)"
    and "\<not> index_contains (cas_index s) h"
  defines "e \<equiv> \<lparr>segment_id = current_segment_id s, offset = of_nat (current_offset s),
      record_len = of_nat (length (encode_record ty p h))\<rparr>"
  shows "append_record ty p h s =
    s\<lparr>current_file := w, cas_fs := fs_append (idx_file (cas_index s)) (encode_entry h e) fs1,
      cas_index := (cas_index s)\<lparr>idx_entries := AList.update h e (idx_entries (cas_index s))\<rparr>,
      current_offset := current_offset s + unat (record_len e), dirty := True,
      write_cache := lru_insert h (ty, p) (write_cache s)\<rparr>"
  using assms by (simp add: append_record_def Let_def index_insert_def index_contains_def)

lemma record_len_word: "fits_record p \<Longrightarrow> unat (45 + of_nat (length p) :: u32) = 45 + length p"
  using unat_u32_len [of "45 + length p"] by (simp add: fits_record_def)

lemma unat_u64_small: "n < 2 ^ 48 \<Longrightarrow> unat (of_nat n :: u64) = n"
  by (simp add: unat_of_nat)

text \<open>What adding one entry does when segments only grow.\<close>

lemma added_entry:
  assumes inv: "cas_inv H s" and get: "index_get (cas_index s') = (index_get (cas_index s))(h \<mapsto> e)"
    and holds: "seg_bytes s' (segment_id e) = Some b" "entry_holds H e b h ty p"
    and grow: "\<And>i c. seg_bytes s i = Some c \<Longrightarrow> \<exists>x. seg_bytes s' i = Some (c @ x)"
  shows "store_objs H s' = (store_objs H s)(h \<mapsto> (ty, p))"
    and "index_get (cas_index s') k = Some e' \<Longrightarrow> entry_ok H s' k e'"
proof -
  have keep: "\<exists>c x ty p. seg_bytes s (segment_id e') = Some c \<and> seg_bytes s' (segment_id e') = Some (c @ x)
      \<and> entry_holds H e' c k ty p" if "index_get (cas_index s) k = Some e'" for k e'
    using cas_invD(5) [OF inv that] grow by (fastforce simp: entry_ok_def)
  show "store_objs H s' = (store_objs H s)(h \<mapsto> (ty, p))"
  proof
    fix k
    show "store_objs H s' k = ((store_objs H s)(h \<mapsto> (ty, p))) k"
    proof (cases "k = h \<or> index_get (cas_index s) k = None")
      case True
      then show ?thesis
        using store_objs_entry [OF _ holds] get by (auto simp: store_objs_def)
    next
      case False
      then obtain e' where e': "index_get (cas_index s) k = Some e'" "k \<noteq> h" by auto
      from keep [OF e'(1)] obtain c x ty' p' where c: "seg_bytes s (segment_id e') = Some c"
        "entry_holds H e' c k ty' p'" "seg_bytes s' (segment_id e') = Some (c @ x)" by blast
      then show ?thesis
        using store_objs_entry [OF e'(1) c(1,2)]
          store_objs_entry [of s' k e', OF _ c(3) entry_holds_append [OF c(2)]] e' get by simp
    qed
  qed
  show "entry_ok H s' k e'" if "index_get (cas_index s') k = Some e'"
  proof (cases "k = h")
    case True
    then show ?thesis
      using that get holds by (auto simp: entry_ok_def)
  next
    case False
    then have "index_get (cas_index s) k = Some e'"
      using that get by simp
    from keep [OF this] show ?thesis
      using entry_holds_append unfolding entry_ok_def by blast
  qed
qed

lemma added_cache:
  assumes inv: "cas_inv H s" and objs: "store_objs H s' = (store_objs H s)(h \<mapsto> x)"
    and cache: "write_cache s' = lru_insert h x (write_cache s)" and "lru_get (write_cache s') k = Some y"
  shows "store_objs H s' k = Some y"
  using assms(4) lru_get_insert_same [OF cas_invD(2) [OF inv], of h x] objs
    lru_get_insert_other [OF cas_invD(2) [OF inv], of h x k y] cas_invD(4) [OF inv]
  by (cases "k = h") (simp_all add: cache)

text \<open>The files after the record is written and the index entry appended.\<close>

lemma append_record_files:
  assumes lay: "layout_ok s" and new: "\<not> index_contains (cas_index s) h" and fits: "fits_record p"
    and off: "current_offset s < 2 ^ 48"
    and s': "s' = append_record ty p h s"
    and e: "e = \<lparr>segment_id = current_segment_id s, offset = of_nat (current_offset s),
      record_len = of_nat (length (encode_record ty p h))\<rparr>"
  shows "layout_ok s'" "index_get (cas_index s') = (index_get (cas_index s))(h \<mapsto> e)"
    and "\<exists>b. seg_bytes s (current_segment_id s) = Some b \<and> length b = current_offset s
      \<and> seg_bytes s' (current_segment_id s) = Some (b @ encode_record ty p h)"
    and "i \<noteq> current_segment_id s \<Longrightarrow> seg_bytes s' i = seg_bytes s i"
    and "i \<noteq> current_segment_id s \<Longrightarrow>
      fs_get (cas_fs s') (segment_path_for (repo_path s) i) = fs_get (cas_fs s) (segment_path_for (repo_path s) i)"
proof -
  obtain w fs1 where wr: "bw_write_all (encode_record ty p h) (current_file s, cas_fs s) = (w, fs1)"
    by (cases "bw_write_all (encode_record ty p h) (current_file s, cas_fs s)")
  note s' = s' [unfolded append_record_unfold [OF wr new], folded e]
  have fld: "repo_path s' = repo_path s" "current_segment_id s' = current_segment_id s" "current_file s' = w"
    "current_offset s' = current_offset s + unat (record_len e)" "idx_file (cas_index s') = idx_file (cas_index s)"
    by (simp_all add: s')
  have rl: "unat (record_len e) = 45 + length p" and ok: "ok_entry e"
    using off fits by (simp_all add: e unat_u64_small record_len_word ok_entry_def)
  obtain c where c: "fs_get (cas_fs s) (segment_path_for (repo_path s) (current_segment_id s)) = Some (File c)"
    "SEGMENT_HEADER_LEN \<le> length c" "take 4 c = SEGMENT_MAGIC"
    "current_offset s = length c + length (bw_buf (current_file s))"
    and path: "bw_path (current_file s) = segment_path_for (repo_path s) (current_segment_id s)"
    and cur: "seg_bytes s (current_segment_id s) = Some (c @ bw_buf (current_file s))"
    using lay by (rule layoutE)
  note lay = lay [unfolded layout_ok_def]
  obtain x where x: "fs_get fs1 (segment_path_for (repo_path s) (current_segment_id s)) = Some (File (c @ x))"
    "x @ bw_buf w = bw_buf (current_file s) @ encode_record ty p h"
    using bw_write_all_file [of "(current_file s, cas_fs s)", OF _ wr] c(1) path by auto
  have other: "fs_get fs1 q = fs_get (cas_fs s) q" if "q \<noteq> segment_path_for (repo_path s) (current_segment_id s)" for q
    using bw_other_file(2) [of q "(current_file s, cas_fs s)" "encode_record ty p h"] that path wr by simp
  have keep: "fs_get (cas_fs s') q = fs_get fs1 q" if "q \<noteq> repo_path s @ [''index.epi'']" for q
    using that lay by (simp add: s' fs_get_append split: option.splits node.splits)
  show "i \<noteq> current_segment_id s \<Longrightarrow> seg_bytes s' i = seg_bytes s i"
    "i \<noteq> current_segment_id s \<Longrightarrow>
      fs_get (cas_fs s') (segment_path_for (repo_path s) i) = fs_get (cas_fs s) (segment_path_for (repo_path s) i)"
    by (simp_all add: seg_bytes_def keep fld other split: option.split node.split)
  show "\<exists>b. seg_bytes s (current_segment_id s) = Some b \<and> length b = current_offset s
      \<and> seg_bytes s' (current_segment_id s) = Some (b @ encode_record ty p h)"
    using x c cur by (simp add: seg_bytes_def keep fld)
  show "index_get (cas_index s') = (index_get (cas_index s))(h \<mapsto> e)"
    by (simp add: s' index_get_def map_of_update fun_eq_iff)
  have "index_ok (cas_index s, fs1)"
    using lay other by (auto simp: index_ok_def)
  from index_insert_ok [OF this ok, of h] have "index_ok (cas_index s', cas_fs s')"
    using new by (simp add: s' index_insert_def index_contains_def)
  moreover have "is_dir_path (cas_fs s') (repo_path s @ [''data''])"
    by (rule is_dir_path_mono [of "cas_fs s"])
      (use lay bw_write_all_exists(2) [OF wr] in \<open>auto simp: s' fs_get_append\<close>)
  moreover have "segments_upto (cas_fs s') (repo_path s) (current_segment_id s)"
    using lay bw_write_all_exists(1) [OF wr] by (simp add: s' segments_upto_def)
  moreover have "bw_path w = bw_path (current_file s)"
    using bw_write_all_simps(1) [of "encode_record ty p h" "(current_file s, cas_fs s)"] wr by simp
  moreover have "length x + length (bw_buf w) = length (bw_buf (current_file s)) + (45 + length p)"
    using arg_cong [OF x(2), of length] by (simp add: length_encode_record)
  moreover have "4 \<le> length c"
    using c(2) by (simp add: SEGMENT_HEADER_LEN_def)
  ultimately show "layout_ok s'"
    using lay c x(1) path rl by (simp add: layout_ok_def keep fld)
qed

lemma append_record_simps [simp]:
  "repo_path (append_record ty p h s) = repo_path s"
  "current_segment_id (append_record ty p h s) = current_segment_id s"
  "segment_maps (append_record ty p h s) = segment_maps s"
  "write_cache (append_record ty p h s) = lru_insert h (ty, p) (write_cache s)"
  by (simp_all add: append_record_def Let_def split: prod.splits)

lemma append_record_inv:
  assumes inv: "cas_inv H s" and new: "\<not> index_contains (cas_index s) h"
    and h: "H p = h" and fits: "fits_record p" and off: "current_offset s < 2 ^ 48"
    and s': "s' = append_record ty p h s"
  shows "cas_inv H s'" "store_objs H s' = (store_objs H s)(h \<mapsto> (ty, p))"
proof -
  note d = cas_invD [OF inv]
  define e where "e = \<lparr>segment_id = current_segment_id s, offset = of_nat (current_offset s) :: u64,
      record_len = of_nat (length (encode_record ty p h)) :: u32\<rparr>"
  note f = append_record_files [OF d(1) new fits off s' e_def]
  obtain b where b: "seg_bytes s (current_segment_id s) = Some b" "length b = current_offset s"
    "seg_bytes s' (current_segment_id s) = Some (b @ encode_record ty p h)"
    using f(3) by blast
  have "unat (offset e) = length b" "unat (record_len e) = 45 + length p" "segment_id e = current_segment_id s"
    using b(2) off fits by (simp_all add: e_def unat_u64_small record_len_word)
  then have holds: "entry_holds H e (b @ encode_record ty p h) h ty p"
    using fits h by (simp add: entry_holds_def entry_slice_def length_encode_record)
  have grow: "\<exists>x. seg_bytes s' i = Some (c @ x)" if "seg_bytes s i = Some c" for i c
    using that b f(4) by (cases "i = current_segment_id s") auto
  note added = added_entry [OF inv f(2) _ holds grow]
  show objs: "store_objs H s' = (store_objs H s)(h \<mapsto> (ty, p))"
    using added(1) b(3) by (simp add: e_def)
  have "entry_ok H s' k e'" if "index_get (cas_index s') k = Some e'" for k e'
    using added(2) that b(3) by (simp add: e_def)
  moreover have "maps_ok s'"
    unfolding maps_ok_def
  proof (intro allI impI)
    fix i m
    assume "map_of (segment_maps s') i = Some m"
    then have "i < current_segment_id s" "fs_get (cas_fs s) (segment_path_for (repo_path s) i) = Some (File m)"
      using d(3) by (simp_all add: maps_ok_def s')
    then show "i < current_segment_id s' \<and> fs_get (cas_fs s') (segment_path_for (repo_path s') i) = Some (File m)"
      using f(5) [of i] by (auto simp: s')
  qed
  moreover have "lru_ok (write_cache s')"
    using lru_ok_insert [OF d(2)] by (simp add: s')
  moreover have "store_objs H s' k = Some y" if "lru_get (write_cache s') k = Some y" for k y
    using added_cache [OF inv objs _ that] by (simp add: s')
  ultimately show "cas_inv H s'"
    using f(1) unfolding cas_inv_def caches_ok_def maps_ok_def by blast
qed

section \<open>Writing\<close>

lemma contains_objs:
  assumes "cas_inv H s"
  shows "index_contains (cas_index s) h \<longleftrightarrow> store_objs H s h \<noteq> None"
proof (cases "index_get (cas_index s) h")
  case None
  then show ?thesis by (simp add: index_contains_def index_get_def store_objs_def)
next
  case (Some e)
  with cas_invD(5) [OF assms Some] show ?thesis
    by (auto simp: entry_ok_def store_objs_entry index_contains_def index_get_def)
qed

lemma ensure_capacity_spec:
  assumes inv: "cas_inv H s" and run: "ensure_segment_capacity needed s = (r, s')"
  shows "cas_inv H s' \<and> store_objs H s' = store_objs H s \<and> cas_index s' = cas_index s
     \<and> (case r of Inr _ \<Rightarrow> current_offset s' < 2 ^ 48 | Inl e \<Rightarrow> overflow_err e)
     \<and> (isl r \<longleftrightarrow> current_offset s + needed > SEGMENT_MAX_BYTES \<and> current_segment_id s = 0xFFFF)"
proof (cases "current_offset s + needed > SEGMENT_MAX_BYTES")
  case True
  then show ?thesis
    using rotate_spec [OF inv] run
    by (auto simp: ensure_segment_capacity_def SEGMENT_HEADER_LEN_def split: sum.splits)
next
  case False
  then show ?thesis
    using inv run by (auto simp: ensure_segment_capacity_def SEGMENT_MAX_BYTES_def)
qed

lemma put_spec:
  assumes inv: "cas_inv H s" and fits: "fits_record p" and run: "cas_store_put H ty p s = (r, s')"
  shows "cas_inv H s' \<and>
     (case r of
        Inr h \<Rightarrow> h = H p \<and> store_objs H s' = put_objs H ty p (store_objs H s)
      | Inl e \<Rightarrow> overflow_err e \<and> store_objs H s' = store_objs H s)"
proof (cases "index_contains (cas_index s) (H p)")
  case True
  then show ?thesis
    using run inv contains_objs [OF inv] by (auto simp: cas_store_put_def put_objs_def)
next
  case False
  then have none: "store_objs H s (H p) = None"
    using contains_objs [OF inv, of "H p"] by blast
  obtain r1 s1 where en: "ensure_segment_capacity (41 + length p + 4) s = (r1, s1)"
    by (cases "ensure_segment_capacity (41 + length p + 4) s")
  note spec = ensure_capacity_spec [OF inv en]
  show ?thesis
  proof (cases r1)
    case (Inl e)
    then show ?thesis
      using run en spec False by (auto simp: cas_store_put_def try_st_def)
  next
    case (Inr u)
    then have r: "r = Inr (H p)" "s' = append_record ty p (H p) s1"
      using run en False by (auto simp: cas_store_put_def try_st_def Let_def)
    have "cas_inv H s'" "store_objs H s' = (store_objs H s1)(H p \<mapsto> (ty, p))"
      using append_record_inv [of H s1 "H p" p s' ty] spec Inr False fits r by auto
    then show ?thesis
      using r spec none by (simp add: put_objs_def)
  qed
qed

section \<open>Reading\<close>

lemma map_of_shrink: "map_of (shrink_maps n maps) k = Some v \<Longrightarrow> map_of maps k = Some v"
proof (induction n maps rule: shrink_maps.induct)
  case (1 n maps)
  then show ?case
    by (cases "length maps > n")
      (auto simp: shrink_maps.simps [of n maps] remove_oldest_def map_of_delete split: if_splits)
qed

lemma set_maps_inv:
  assumes "cas_inv H s" "maps_ok (s\<lparr>segment_maps := ms\<rparr>)"
  shows "cas_inv H (s\<lparr>segment_maps := ms\<rparr>)" "store_objs H (s\<lparr>segment_maps := ms\<rparr>) = store_objs H s"
  using cas_inv_frame [OF assms(1) _ assms(2)] cas_invD [OF assms(1)]
    layout_cong [of "s\<lparr>segment_maps := ms\<rparr>" s] by simp_all

lemma cache_insert_inv:
  assumes inv: "cas_inv H s" and x: "store_objs H s h = Some x"
  defines "s' \<equiv> s\<lparr>write_cache := lru_insert h x (write_cache s)\<rparr>"
  shows "cas_inv H s'" "store_objs H s' = store_objs H s"
proof -
  note d = cas_invD [OF inv]
  have "store_objs H s k = Some y" if "lru_get (lru_insert h x (write_cache s)) k = Some y" for k y
    using that lru_get_insert_same [OF d(2), of h x] lru_get_insert_other [OF d(2), of h x k y] x d(4)
    by (cases "k = h") simp_all
  moreover have "layout_ok s'" "seg_bytes s' = seg_bytes s" "maps_ok s'"
    using d(1,3) layout_cong [of s' s] by (simp_all add: s'_def maps_ok_def)
  ultimately show "cas_inv H s'" "store_objs H s' = store_objs H s"
    using cas_inv_frame [OF inv, of s'] lru_ok_insert [OF d(2)] by (simp_all add: s'_def)
qed

lemma ensure_mmap_spec:
  assumes inv: "cas_inv H s" and M: "mmap_ok M" and less: "sid < current_segment_id s"
    and c: "fs_get (cas_fs s) (segment_path_for (repo_path s) sid) = Some (File c)"
    and run: "ensure_mmap M sid s = (r, s')"
  shows "cas_inv H s' \<and> store_objs H s' = store_objs H s \<and> (\<forall>m. r = Inr m \<longrightarrow> m = c)
    \<and> cas_fs s' = cas_fs s \<and> repo_path s' = repo_path s"
proof -
  note maps = cas_invD(3) [OF inv]
  let ?ms = "AList.update sid c (shrink_maps (mmap_cap s - 1) (segment_maps s))"
  have "maps_ok (s\<lparr>segment_maps := ?ms\<rparr>)"
    using maps less c by (auto simp: maps_ok_def map_of_update dest: map_of_shrink split: if_splits)
  note new = set_maps_inv [OF inv this]
  show ?thesis
  proof (cases "map_of (segment_maps s) sid")
    case (Some m)
    then have "m = c" using maps c by (auto simp: maps_ok_def)
    then show ?thesis
      using run inv Some by (auto simp: ensure_mmap_def split: if_splits)
  next
    case None
    have "m = c" if "M c = Inr m" for m
      using M that by (simp add: mmap_ok_def)
    then show ?thesis
      using run inv None c new by (cases "M c") (auto simp: ensure_mmap_def fs_read_def split: if_splits)
  qed
qed

lemma read_segment_ok:
  assumes "fs_get (cas_fs s) (segment_path_for (repo_path s) (segment_id e)) = Some (File c)"
    and "entry_holds H e c h ty p"
  shows "read_segment e s = (Inr (encode_record ty p h), s)"
  using assms by (simp add: read_segment_def fs_read_def entry_holds_def entry_slice_def)

lemma read_record_spec:
  assumes inv: "cas_inv H s" and M: "mmap_ok M" and b: "seg_bytes s (segment_id e) = Some b"
    and holds: "entry_holds H e b h ty p"
  shows "\<exists>s'. read_record_bytes M e s = (Inr (encode_record ty p h), s') \<and> cas_inv H s'
    \<and> store_objs H s' = store_objs H s"
proof (cases "segment_id e = current_segment_id s")
  case True
  have "seg_bytes (flush_writer s) (segment_id e) = Some b"
    using b seg_bytes_flush_writer [OF cas_invD(1) [OF inv]] by simp
  then have "fs_get (cas_fs (flush_writer s)) (segment_path_for (repo_path s) (segment_id e)) = Some (File b)"
    using True by (auto simp: seg_bytes_def split: option.splits node.splits)
  then show ?thesis
    using True flush_writer_inv [OF inv] read_segment_ok [of "flush_writer s" e b H h ty p] holds
    by (simp add: read_record_bytes_def)
next
  case False
  then have f: "fs_get (cas_fs s) (segment_path_for (repo_path s) (segment_id e)) = Some (File b)"
    using b by (auto simp: seg_bytes_def split: option.splits node.splits if_splits)
  then have "segment_id e \<le> current_segment_id s"
    using cas_invD(1) [OF inv] segment_name_id_fmt [of "segment_id e"]
    unfolding layout_ok_def segments_upto_def fs_exists_def segment_path_for_def by fastforce
  with False have less: "segment_id e < current_segment_id s" by simp
  obtain r s1 where en: "ensure_mmap M (segment_id e) s = (r, s1)" by (cases "ensure_mmap M (segment_id e) s")
  note sp = ensure_mmap_spec [OF inv M less f en]
  have f1: "fs_get (cas_fs s1) (segment_path_for (repo_path s1) (segment_id e)) = Some (File b)"
    using sp f by simp
  show ?thesis
    using en sp inv False read_segment_ok [OF f holds] read_segment_ok [OF f1 holds] holds
    by (auto simp: read_record_bytes_def entry_holds_def entry_slice_def Let_def split: sum.splits)
qed

lemma get_payload_spec:
  assumes inv: "cas_inv H s" and M: "mmap_ok M" and run: "get_payload H M h s = (r, s')"
  shows "cas_inv H s' \<and> store_objs H s' = store_objs H s \<and>
     r = (case store_objs H s h of None \<Rightarrow> Inl (Err (Storage (NotFound h))) | Some x \<Rightarrow> Inr x)"
proof (cases "lru_get (write_cache s) h")
  case (Some x)
  then show ?thesis
    using run inv cas_invD(4) [OF inv] by (auto simp: get_payload_def)
next
  case None
  show ?thesis
  proof (cases "index_get (cas_index s) h")
    case None
    then show ?thesis
      using run inv \<open>lru_get _ _ = None\<close> by (auto simp: get_payload_def store_objs_def)
  next
    case (Some e)
    then obtain b ty p where b: "seg_bytes s (segment_id e) = Some b" "entry_holds H e b h ty p"
      using cas_invD(5) [OF inv Some] unfolding entry_ok_def by blast
    from read_record_spec [OF inv M b] obtain s1 where s1: "read_record_bytes M e s = (Inr (encode_record ty p h), s1)"
      "cas_inv H s1" "store_objs H s1 = store_objs H s" by blast
    have x: "store_objs H s h = Some (ty, p)"
      by (rule store_objs_entry [OF Some b])
    have "decode_record H (encode_record ty p h) = Inr \<lparr>record_type = ty, content_hash = h, payload = p\<rparr>"
      using entry_decodes [OF b(2)] b(2) by (simp add: entry_holds_def)
    then show ?thesis
      using run s1 \<open>lru_get _ _ = None\<close> Some x cache_insert_inv [OF s1(2), of h "(ty, p)"]
      by (auto simp: get_payload_def try_st_def)
  qed
qed

section \<open>The contract\<close>

interpretation disk: cas_backend H "store_backend H M" "store_objs H" "\<lambda>s. mmap_ok M \<and> cas_inv H s" overflow_err
  for H :: hasher and M :: mmap
proof
  fix s s' p ty h
  assume "mmap_ok M \<and> cas_inv H s" "fits_record p" "cas_put (store_backend H M) ty p s = (Inr h, s')"
  then show "h = H p \<and> (mmap_ok M \<and> cas_inv H s') \<and> store_objs H s' = put_objs H ty p (store_objs H s)"
    using put_spec [of H s p ty "Inr h" s'] by (simp add: store_backend_def)
next
  fix s s' p ty e
  assume "mmap_ok M \<and> cas_inv H s" "fits_record p" "cas_put (store_backend H M) ty p s = (Inl e, s')"
  then show "overflow_err e \<and> (mmap_ok M \<and> cas_inv H s') \<and> store_objs H s' = store_objs H s"
    using put_spec [of H s p ty "Inl e" s'] by (simp add: store_backend_def)
next
  fix s s' h r
  assume "mmap_ok M \<and> cas_inv H s" "cas_get_record (store_backend H M) h s = (r, s')"
  then show "(mmap_ok M \<and> cas_inv H s') \<and> store_objs H s' = store_objs H s \<and>
      r = (case store_objs H s h of None \<Rightarrow> Inl (Err (Storage (NotFound h))) | Some x \<Rightarrow> Inr x)"
    using get_payload_spec [of H s M h r s'] by (simp add: store_backend_def)
qed

end
