(* ===== verification/Cas_Reopen.thy ===== *)
theory Cas_Reopen
  imports Cas_Disk
begin

text \<open>
  Opening the on-disk store: a fresh directory, a store that was flushed, and a store whose process
  died before flushing.
\<close>

section \<open>The latest segment\<close>

lemma find_latest_fold:
  assumes "\<forall>(name, n) \<in> set xs. \<forall>i. segment_name_id name = Some i \<longrightarrow> i \<le> cur"
    and "\<forall>m. acc = Some m \<longrightarrow> m \<le> cur"
    and "acc = Some cur \<or> (\<exists>(name, n) \<in> set xs. segment_name_id name = Some cur)"
  shows "fold (\<lambda>(name, _) max_id.
      case segment_name_id name of
        None \<Rightarrow> max_id
      | Some i \<Rightarrow> Some (case max_id of None \<Rightarrow> i | Some m \<Rightarrow> max m i)) xs acc = Some cur"
  using assms
proof (induction xs arbitrary: acc)
  case Nil
  then show ?case by simp
next
  case (Cons x xs)
  obtain name n where x: "x = (name, n)" by (cases x)
  show ?case
  proof (cases "segment_name_id name")
    case None
    then show ?thesis
      using Cons.prems Cons.IH [of acc] by (auto simp: x)
  next
    case (Some i)
    with Cons.prems have "i \<le> cur" by (simp add: x)
    define acc' where "acc' = Some (case acc of None \<Rightarrow> i | Some m \<Rightarrow> max m i)"
    have "\<forall>m. acc' = Some m \<longrightarrow> m \<le> cur"
      using Cons.prems(2) \<open>i \<le> cur\<close> by (auto simp: acc'_def split: option.splits)
    moreover have "acc' = Some cur" if "acc = Some cur \<or> i = cur"
      using that Cons.prems(2) \<open>i \<le> cur\<close> by (auto simp: acc'_def max_def split: option.splits)
    then have "acc' = Some cur \<or> (\<exists>(name, n) \<in> set xs. segment_name_id name = Some cur)"
      using Cons.prems(3) Some by (auto simp: x)
    ultimately have "fold (\<lambda>(name, _) max_id.
        case segment_name_id name of
          None \<Rightarrow> max_id
        | Some i \<Rightarrow> Some (case max_id of None \<Rightarrow> i | Some m \<Rightarrow> max m i)) xs acc' = Some cur"
      using Cons.prems(1) by (intro Cons.IH) (simp_all add: x)
    then show ?thesis
      by (simp add: x Some acc'_def)
  qed
qed

lemma find_latest_segment_eq:
  assumes "segments_upto fs rp cur" "fs_exists fs (segment_path_for rp cur)"
  shows "find_latest_segment rp fs = Some cur"
  unfolding find_latest_segment_def
proof (rule find_latest_fold)
  have names: "fs_exists fs (rp @ [''data'', name])" if "(name, n) \<in> set (fs_read_dir (rp @ [''data'']) fs)" for name n
  proof -
    from that have "name \<in> fst ` set (fs_read_dir (rp @ [''data'']) fs)" by force
    then show ?thesis by (simp add: read_dir_names fs_exists_def)
  qed
  then show "\<forall>(name, n) \<in> set (fs_read_dir (rp @ [''data'']) fs). \<forall>i. segment_name_id name = Some i \<longrightarrow> i \<le> cur"
    using assms(1) by (auto simp: segments_upto_def)
  have "fmt06 (unat cur) @ ''.epl'' \<in> fst ` set (fs_read_dir (rp @ [''data'']) fs)"
    using assms(2) by (simp add: read_dir_names fs_exists_def segment_path_for_def)
  then show "None = Some cur \<or> (\<exists>(name, n) \<in> set (fs_read_dir (rp @ [''data'']) fs). segment_name_id name = Some cur)"
    using segment_name_id_fmt [of cur] by force
qed simp

section \<open>Opening existing files\<close>

definition opened :: "path \<Rightarrow> Fs \<Rightarrow> Index \<Rightarrow> u16 \<Rightarrow> nat \<Rightarrow> CasStore" where
  "opened rp fs idx sid off =
     \<lparr>cas_fs = fs, repo_path = rp, cas_index = idx, current_segment_id = sid,
      current_file = bw_with_capacity SEGMENT_BUF_BYTES (segment_path_for rp sid), current_offset = off,
      dirty = False, write_cache = lru_new WRITE_CACHE_CAP, segment_maps = [], mmap_cap = MMAP_SEGMENTS_CAP\<rparr>"

lemma opened_simps [simp]:
  "cas_fs (opened rp fs idx sid off) = fs" "repo_path (opened rp fs idx sid off) = rp"
  "cas_index (opened rp fs idx sid off) = idx" "current_segment_id (opened rp fs idx sid off) = sid"
  "current_offset (opened rp fs idx sid off) = off" "write_cache (opened rp fs idx sid off) = lru_new WRITE_CACHE_CAP"
  "segment_maps (opened rp fs idx sid off) = []" "mmap_cap (opened rp fs idx sid off) = MMAP_SEGMENTS_CAP"
  "bw_buf (current_file (opened rp fs idx sid off)) = []"
  "bw_cap (current_file (opened rp fs idx sid off)) = SEGMENT_BUF_BYTES"
  "bw_path (current_file (opened rp fs idx sid off)) = segment_path_for rp sid"
  by (simp_all add: opened_def bw_with_capacity_def)

lemma is_dir_path_snoc: "is_dir_path fs (p @ [c]) \<longleftrightarrow> is_dir_path fs p \<and> fs_get fs (p @ [c]) = Some Dir"
  unfolding is_dir_path_def by (auto simp: le_Suc_eq)

lemmas is_dir_path_butlast = is_dir_path_snoc [THEN iffD1, THEN conjunct1]

lemma take_neq_snoc: "take n p \<noteq> p @ [c]"
proof
  assume "take n p = p @ [c]"
  from arg_cong [OF this, of length] show False by simp
qed

lemma cas_open_existing:
  assumes "index_ok (idx, fs)" "idx_file idx = rp @ [''index.epi'']" "is_dir_path fs (rp @ [''data''])"
    and "segments_upto fs rp cur" "fs_get fs (segment_path_for rp cur) = Some (File c)"
    and "SEGMENT_HEADER_LEN \<le> length c" "take 4 c = SEGMENT_MAGIC"
  shows "cas_open rp fs = (Inr (opened rp fs idx cur (length c)), fs)"
proof -
  have "index_open (rp @ [''index.epi'']) fs = (Inr idx, fs)"
    using index_open_ok [OF assms(1)] is_dir_path_butlast [OF assms(3)] assms(2) by simp
  moreover have "find_latest_segment rp fs = Some cur"
    using find_latest_segment_eq [OF assms(4)] assms(5) by (simp add: fs_exists_def)
  moreover have "open_or_create_segment (segment_path_for rp cur) cur fs = (Inr (length c), fs)"
    using assms(5-7) by (simp add: open_or_create_segment_def fs_exists_def fs_open_append_def fs_read_def
        try_st_def)
  ultimately show ?thesis
    using create_dir_all_existing [OF assms(3)]
    by (simp add: cas_open_def try_st_def opened_def)
qed

section \<open>After a flush\<close>

lemma seg_bytes_opened:
  "seg_bytes (opened rp fs idx sid off) i =
     (case fs_get fs (segment_path_for rp i) of Some (File c) \<Rightarrow> Some c | _ \<Rightarrow> None)"
  by (simp add: seg_bytes_def split: option.split node.split)

lemma opened_inv:
  assumes inv: "cas_inv H s" and buf: "bw_buf (current_file s) = []"
  shows "\<exists>s'. cas_open (repo_path s) (cas_fs s) = (Inr s', cas_fs s) \<and> cas_inv H s'
    \<and> store_objs H s' = store_objs H s"
proof -
  note d = cas_invD [OF inv]
  note lay = d(1) [unfolded layout_ok_def]
  obtain c where c: "fs_get (cas_fs s) (segment_path_for (repo_path s) (current_segment_id s)) = Some (File c)"
    "SEGMENT_HEADER_LEN \<le> length c" "take 4 c = SEGMENT_MAGIC"
    using d(1) by (rule layoutE)
  let ?s = "opened (repo_path s) (cas_fs s) (cas_index s) (current_segment_id s) (length c)"
  have op: "cas_open (repo_path s) (cas_fs s) = (Inr ?s, cas_fs s)"
    using lay c by (intro cas_open_existing) auto
  have "layout_ok ?s"
    using lay c by (auto simp: layout_ok_def)
  moreover have "maps_ok ?s"
    by (simp add: maps_ok_def)
  moreover have "seg_bytes ?s i = seg_bytes s i" for i
    unfolding seg_bytes_opened by (simp add: seg_bytes_def buf split: option.split node.split)
  ultimately have "cas_inv H ?s" "store_objs H ?s = store_objs H s"
    using cas_inv_frame [OF inv, of ?s] by (simp_all add: lru_ok_new lru_get_new)
  with op show ?thesis by blast
qed

section \<open>A fresh directory\<close>

definition fresh_dir :: "Fs \<Rightarrow> path \<Rightarrow> bool" where
  "fresh_dir fs rp \<longleftrightarrow> is_dir_path fs rp \<and> (\<forall>q. q \<noteq> [] \<longrightarrow> fs_get fs (rp @ q) = None)"

lemma create_dirs_split:
  "\<forall>n \<le> length p. fs_get fs (pre @ take n p) = Some Dir \<Longrightarrow>
     create_dirs pre (p @ q) fs = create_dirs (pre @ p) q fs"
proof (induction p arbitrary: pre)
  case Nil
  then show ?case by simp
next
  case (Cons c cs)
  have "fs_get fs (pre @ [c]) = Some Dir"
    using Cons.prems [rule_format, of 1] by simp
  moreover have "create_dirs (pre @ [c]) (cs @ q) fs = create_dirs ((pre @ [c]) @ cs) q fs"
    using Cons.prems [rule_format, of "Suc _"] by (intro Cons.IH) simp
  ultimately show ?case by simp
qed

lemma fresh_open_index:
  assumes "fresh_dir fs rp"
  defines "fs1 \<equiv> fs_set (rp @ [''data'']) Dir fs"
  defines "fs2 \<equiv> fs_set (rp @ [''index.epi'']) (File []) fs1"
  shows "create_dir_all (rp @ [''data'']) fs = (Inr (), fs1)"
    and "index_open (rp @ [''index.epi'']) fs1 = (Inr \<lparr>idx_file = rp @ [''index.epi''], idx_entries = []\<rparr>, fs2)"
    and "is_dir_path fs2 (rp @ [''data''])" and "\<not> fs_exists fs2 (rp @ ''data'' # q # qs)"
proof -
  have dir: "is_dir_path fs rp"
    using assms(1) by (simp add: fresh_dir_def)
  have none: "fs_get fs (rp @ q) = None" if "q \<noteq> []" for q
    using assms(1) that by (simp add: fresh_dir_def)
  show "create_dir_all (rp @ [''data'']) fs = (Inr (), fs1)"
    using create_dirs_split [of rp fs "[]" "[''data'']"] dir none [of "[''data'']"]
    by (simp add: create_dir_all_def is_dir_path_def fs1_def)
  have g1: "fs_get fs1 (take n rp) = fs_get fs (take n rp)" for n
    by (simp add: fs1_def fs_get_set take_neq_snoc)
  have dir1: "is_dir_path fs1 rp"
    using dir g1 by (simp add: is_dir_path_def)
  have "load_entries [] [] = Inr []"
    by (subst load_entries.simps) (simp add: INDEX_ENTRY_LEN_def)
  moreover have "fs_get fs1 (rp @ [''index.epi'']) = None" "fs_get fs1 rp = Some Dir"
    using none dir_path_last [OF dir1] by (simp_all add: fs1_def fs_get_set)
  ultimately show "index_open (rp @ [''index.epi'']) fs1 =
      (Inr \<lparr>idx_file = rp @ [''index.epi''], idx_entries = []\<rparr>, fs2)"
    using create_dir_all_existing [OF dir1]
    by (simp add: index_open_def fs_open_append_def fs_read_def try_st_def fs2_def fs_get_set)
  show "is_dir_path fs2 (rp @ [''data''])"
  proof -
    have "is_dir_path fs2 rp"
      using dir1 by (simp add: is_dir_path_def fs2_def fs_get_set take_neq_snoc)
    then show ?thesis
      by (simp add: is_dir_path_snoc fs2_def fs1_def fs_get_set)
  qed
  show "\<not> fs_exists fs2 (rp @ ''data'' # q # qs)"
    using none by (simp add: fs_exists_def fs2_def fs1_def fs_get_set)
qed

lemma opened_fresh:
  assumes "fresh_dir fs rp"
  shows "\<exists>s. cas_open rp fs = (Inr s, cas_fs s) \<and> cas_inv H s \<and> store_objs H s = Map.empty
    \<and> repo_path s = rp \<and> current_offset s = SEGMENT_HEADER_LEN
    \<and> bw_buf (current_file s) = [] \<and> bw_cap (current_file s) = SEGMENT_BUF_BYTES"
proof -
  note f = fresh_open_index [OF assms]
  let ?fs2 = "fs_set (rp @ [''index.epi'']) (File []) (fs_set (rp @ [''data'']) Dir fs)"
  let ?idx = "\<lparr>idx_file = rp @ [''index.epi''], idx_entries = []\<rparr>"
  let ?p = "segment_path_for rp 0"
  have "\<not> fs_exists ?fs2 ?p"
    using f(4) by (simp add: segment_path_for_def)
  then obtain fs3 where fs3: "open_or_create_segment ?p 0 ?fs2 = (Inr SEGMENT_HEADER_LEN, fs3)"
    "\<forall>q. fs_get fs3 q = (if q = ?p then Some (File (encode_segment_header (ucast (0 :: u16)) (fs_clock ?fs2 div 1000)))
          else fs_get ?fs2 q)"
    using create_segment [of ?fs2 ?p 0] dir_path_last [OF f(3)] by auto
  have "fst ` set (fs_read_dir (rp @ [''data'']) ?fs2) = {}"
    using f(4) by (auto simp: read_dir_names fs_exists_def)
  then have "find_latest_segment rp ?fs2 = None"
    by (simp add: find_latest_segment_def)
  then have op: "cas_open rp fs = (Inr (opened rp fs3 ?idx 0 SEGMENT_HEADER_LEN), fs3)"
    using f(1,2) fs3(1) by (simp add: cas_open_def try_st_def opened_def)
  have "i \<le> 0" if "fs_exists fs3 (rp @ [''data'', name])" "segment_name_id name = Some i" for name i
    using that f(4) segment_name_id_fmt [of 0] fs3(2)
    by (auto simp: fs_exists_def segment_path_for_def split: if_splits)
  then have "segments_upto fs3 rp 0"
    by (simp add: segments_upto_def)
  moreover have "is_dir_path fs3 (rp @ [''data''])"
    by (rule is_dir_path_mono [OF f(3)]) (use f(4) fs3(2) in \<open>auto simp: fs_exists_def segment_path_for_def\<close>)
  moreover have "index_ok (?idx, fs3)"
    using fs3(2) by (simp add: index_ok_def wf_map_def index_bytes_def fs_get_set)
  ultimately have "layout_ok (opened rp fs3 ?idx 0 SEGMENT_HEADER_LEN)"
    using fs3(2) segment_header by (simp add: layout_ok_def)
  then have "cas_inv H (opened rp fs3 ?idx 0 SEGMENT_HEADER_LEN)"
    by (simp add: cas_inv_def caches_ok_def lru_ok_new lru_get_new index_get_def)
  moreover have "store_objs H (opened rp fs3 ?idx 0 SEGMENT_HEADER_LEN) = Map.empty"
    by (auto simp: store_objs_def index_get_def)
  ultimately show ?thesis
    by (intro exI [of _ "opened rp fs3 ?idx 0 SEGMENT_HEADER_LEN"]) (simp add: op)
qed

section \<open>Runs of a store\<close>

text \<open>
  Every operation on an open store, and closing it (which flushes) and opening its directory again.
\<close>

inductive cas_step :: "hasher \<Rightarrow> mmap \<Rightarrow> CasStore \<Rightarrow> CasStore \<Rightarrow> bool" for H M where
  step_put: "fits_record p \<Longrightarrow> cas_step H M s (snd (cas_store_put H ty p s))"
| step_get: "cas_step H M s (snd (get_payload H M h s))"
| step_flush: "cas_step H M s (cas_flush s)"
| step_cache: "cas_step H M s (set_object_cache_cap n s)"
| step_mmap: "cas_step H M s (set_mmap_cap n s)"
| step_reopen: "cas_open (repo_path s) (cas_fs (cas_flush s)) = (Inr s', fs') \<Longrightarrow> cas_step H M s s'"

lemma set_caps_inv:
  assumes inv: "cas_inv H s"
  shows "cas_inv H (set_object_cache_cap n s)" "store_objs H (set_object_cache_cap n s) = store_objs H s"
    and "cas_inv H (set_mmap_cap n s)" "store_objs H (set_mmap_cap n s) = store_objs H s"
proof -
  note d = cas_invD [OF inv]
  let ?c = "s\<lparr>write_cache := lru_new n\<rparr>" and ?m = "s\<lparr>mmap_cap := n, segment_maps := shrink_maps n (segment_maps s)\<rparr>"
  have "layout_ok ?c" "seg_bytes ?c = seg_bytes s" "maps_ok ?c" "layout_ok ?m" "seg_bytes ?m = seg_bytes s"
    using d(1,3) layout_cong [of ?c s] layout_cong [of ?m s] by (simp_all add: maps_ok_def)
  moreover have "maps_ok ?m"
    using d(3) by (auto simp: maps_ok_def dest: map_of_shrink)
  ultimately show "cas_inv H (set_object_cache_cap n s)" "store_objs H (set_object_cache_cap n s) = store_objs H s"
    "cas_inv H (set_mmap_cap n s)" "store_objs H (set_mmap_cap n s) = store_objs H s"
    using cas_inv_frame [OF inv, of ?c] cas_inv_frame [OF inv, of ?m] d(2,4)
    by (simp_all add: set_object_cache_cap_def set_mmap_cap_def lru_ok_new lru_get_new)
qed

lemma cas_step_inv:
  assumes "cas_step H M s s'" "mmap_ok M" "cas_inv H s"
  shows "cas_inv H s' \<and> store_objs H s \<subseteq>\<^sub>m store_objs H s'"
  using assms(1)
proof (cases rule: cas_step.cases)
  case (step_put p ty)
  then show ?thesis
    using put_spec [OF assms(3) step_put(2), of ty "fst (cas_store_put H ty p s)" s']
    by (cases "cas_store_put H ty p s"; cases "fst (cas_store_put H ty p s)") (auto simp: put_objs_mono)
next
  case (step_get h)
  then show ?thesis
    using get_payload_spec [OF assms(3,2), of h "fst (get_payload H M h s)" s'] by simp
next
  case step_flush
  then show ?thesis using cas_flush_inv [OF assms(3)] by simp
next
  case (step_cache n)
  then show ?thesis using set_caps_inv [OF assms(3)] by simp
next
  case (step_mmap n)
  then show ?thesis using set_caps_inv [OF assms(3)] by simp
next
  case (step_reopen fs')
  then show ?thesis
    using opened_inv [OF cas_flush_inv(1) [OF assms(3)]] cas_flush_inv [OF assms(3)] by fastforce
qed

lemma cas_steps_inv:
  assumes "(cas_step H M)\<^sup>*\<^sup>* s s'" "mmap_ok M" "cas_inv H s"
  shows "cas_inv H s' \<and> store_objs H s \<subseteq>\<^sub>m store_objs H s'"
  using assms(1)
proof (induction rule: rtranclp_induct)
  case base
  then show ?case using assms(3) by simp
next
  case (step s1 s2)
  then show ?case
    using cas_step_inv [OF step(2) assms(2)] map_le_trans by blast
qed

section \<open>Losing the buffer\<close>

text \<open>A record that fits the buffer leaves the segment file as it was, but its index entry is written.\<close>

lemma append_record_lost:
  assumes lay: "layout_ok s" and new: "\<not> index_contains (cas_index s) h" and fits: "fits_record p"
    and off: "current_offset s < 2 ^ 48"
    and buf: "bw_buf (current_file s) = []" "45 + length p < bw_cap (current_file s)"
    and s': "s' = append_record ty p h s"
  shows "\<exists>s2. cas_open (repo_path s) (cas_fs s') = (Inr s2, cas_fs s') \<and> lru_get (write_cache s2) h = None
    \<and> current_segment_id s2 = current_segment_id s \<and> bw_buf (current_file s2) = []
    \<and> (\<exists>e c. index_get (cas_index s2) h = Some e \<and> segment_id e = current_segment_id s
         \<and> fs_get (cas_fs s2) (segment_path_for (repo_path s2) (current_segment_id s)) = Some (File c)
         \<and> length c < unat (offset e) + unat (record_len e))"
proof -
  let ?rec = "encode_record ty p h"
  define e where "e = \<lparr>segment_id = current_segment_id s, offset = of_nat (current_offset s) :: u64,
      record_len = of_nat (length ?rec) :: u32\<rparr>"
  note f = append_record_files [OF lay new fits off s' e_def]
  obtain w fs1 where wr: "bw_write_all ?rec (current_file s, cas_fs s) = (w, fs1)"
    by (cases "bw_write_all ?rec (current_file s, cas_fs s)")
  have fs1: "fs1 = cas_fs s"
    using bw_write_all_buffered [of ?rec "(current_file s, cas_fs s)"] buf wr by (simp add: length_encode_record)
  have fs': "fs_get (cas_fs s') (segment_path_for (repo_path s) i) = fs_get (cas_fs s) (segment_path_for (repo_path s) i)" for i
    using lay unfolding s' append_record_unfold [OF wr new] fs1
    by (simp add: layout_ok_def fs_get_append split: option.split node.split)
  have rp: "repo_path s' = repo_path s" "current_segment_id s' = current_segment_id s"
    by (simp_all add: s')
  note lay' = f(1) [unfolded layout_ok_def rp]
  obtain c where c: "fs_get (cas_fs s) (segment_path_for (repo_path s) (current_segment_id s)) = Some (File c)"
    "SEGMENT_HEADER_LEN \<le> length c" "take 4 c = SEGMENT_MAGIC" "current_offset s = length c"
    using lay buf(1) by (auto simp: layout_ok_def)
  have "cas_open (repo_path s) (cas_fs s') =
      (Inr (opened (repo_path s) (cas_fs s') (cas_index s') (current_segment_id s) (length c)), cas_fs s')"
    using lay' c by (intro cas_open_existing) (auto simp: fs')
  moreover have "length c < unat (offset e) + unat (record_len e)"
    using off fits c(4) by (simp add: e_def unat_u64_small record_len_word length_encode_record)
  ultimately show ?thesis
    using f(2) c(1) by (simp add: fs' lru_get_new) (simp add: e_def)
qed

section \<open>Properties\<close>

text \<open>
  C7: opening a fresh directory gives an empty store, and every state that puts, reads, flushes,
  capacity changes and restarts lead to keeps the store's invariant: every index entry points at a
  complete record whose payload has the indexed hash, caches and maps agree with the files, and the
  next write goes to the end of the latest segment.
\<close>

theorem store_reachable_inv:
  assumes "fresh_dir fs rp" "cas_open rp fs = (Inr s0, fs0)" "mmap_ok M" "(cas_step H M)\<^sup>*\<^sup>* s0 s"
  shows "store_objs H s0 = Map.empty \<and> cas_inv H s"
proof -
  have "cas_inv H s0" "store_objs H s0 = Map.empty"
    using opened_fresh [OF assms(1), of H] assms(2) by auto
  then show ?thesis
    using cas_steps_inv [OF assms(4,3)] by blast
qed

text \<open>
  C6: an object acknowledged by \<open>put\<close> is read back with its type and payload after any further
  operations and restarts, provided the hash function has no collision on the objects involved.
\<close>

theorem store_put_durable:
  assumes "mmap_ok M" "cas_inv H s" "fits_record p" "cas_store_put H ty p s = (Inr h, s1)"
    and "collision_free H U" "addressed H U (store_objs H s)" "(ty, p) \<in> U"
    and "(cas_step H M)\<^sup>*\<^sup>* s1 s2"
  shows "h = H p \<and> fst (get_payload H M h s2) = Inr (ty, p)"
proof -
  have p1: "cas_inv H s1" "h = H p" "store_objs H s1 = put_objs H ty p (store_objs H s)"
    using put_spec [OF assms(2-4)] by simp_all
  then have "store_objs H s1 h = Some (ty, p)"
    using put_objs_hit [OF assms(5-7)] by simp
  moreover have s2: "cas_inv H s2" "store_objs H s1 \<subseteq>\<^sub>m store_objs H s2"
    using cas_steps_inv [OF assms(8,1) p1(1)] by simp_all
  ultimately have "store_objs H s2 h = Some (ty, p)"
    by (meson map_le_Some)
  then show ?thesis
    using get_payload_spec [OF s2(1) assms(1), of h "fst (get_payload H M h s2)" "snd (get_payload H M h s2)"] p1(2) by simp
qed

text \<open>
  C8: flushing and reopening changes nothing: the reopened store holds exactly the same objects.
\<close>

theorem store_reopen:
  assumes "cas_inv H s"
  shows "\<exists>s'. cas_open (repo_path s) (cas_fs (cas_flush s)) = (Inr s', cas_fs (cas_flush s))
    \<and> cas_inv H s' \<and> store_objs H s' = store_objs H s"
  using opened_inv [OF cas_flush_inv(1) [OF assms]] cas_flush_inv(2) [OF assms] by simp

text \<open>
  C10: apart from I/O errors, which the file model does not produce, writing an object fails exactly
  when the object is new, does not fit the current segment and that segment has the last of the 65536
  numbers. The error says so and leaves every object as it was.
\<close>

theorem store_put_error:
  assumes "cas_inv H s" "fits_record p" "cas_store_put H ty p s = (r, s')"
  shows "(isl r \<longleftrightarrow> \<not> cas_contains s (H p) \<and> current_offset s + 45 + length p > SEGMENT_MAX_BYTES
      \<and> current_segment_id s = 0xFFFF)
    \<and> (\<forall>e. r = Inl e \<longrightarrow> e = Err (Storage (Corrupt ''segment id overflow'')) \<and> cas_inv H s'
      \<and> store_objs H s' = store_objs H s)"
proof
  show "\<forall>e. r = Inl e \<longrightarrow> e = Err (Storage (Corrupt ''segment id overflow'')) \<and> cas_inv H s'
      \<and> store_objs H s' = store_objs H s"
    using put_spec [OF assms] by (auto simp: overflow_err_def)
  obtain r1 s1 where en: "ensure_segment_capacity (41 + length p + 4) s = (r1, s1)"
    by (cases "ensure_segment_capacity (41 + length p + 4) s")
  have "isl r \<longleftrightarrow> \<not> cas_contains s (H p) \<and> isl r1"
    using assms(3) en
    by (cases r1) (auto simp: cas_store_put_def cas_contains_def try_st_def Let_def split: if_splits)
  then show "isl r \<longleftrightarrow> \<not> cas_contains s (H p) \<and> current_offset s + 45 + length p > SEGMENT_MAX_BYTES
      \<and> current_segment_id s = 0xFFFF"
    using ensure_capacity_spec [OF assms(1) en] by (auto simp: add.commute add.left_commute)
qed

text \<open>
  C9: the death of the process can lose an object for good. \<open>put\<close> appends the index entry to its file at
  once while a record of a new object that fits the empty 64 KiB buffer and the current segment waits
  there. If the process dies before the next flush, the reopened store claims to contain the object,
  fails to read it, and does not write it when it is put again.
\<close>

theorem store_crash_loses:
  assumes "cas_inv H s" "\<not> cas_contains s (H p)" "bw_buf (current_file s) = []"
    and "bw_cap (current_file s) = SEGMENT_BUF_BYTES" "45 + length p < SEGMENT_BUF_BYTES"
    and "current_offset s + 45 + length p \<le> SEGMENT_MAX_BYTES"
  shows "\<exists>s1 s2. cas_store_put H ty p s = (Inr (H p), s1)
    \<and> cas_open (repo_path s) (cas_fs s1) = (Inr s2, cas_fs s1)
    \<and> cas_contains s2 (H p) \<and> fst (get_payload H M (H p) s2) = Inl UnexpectedEof
    \<and> cas_store_put H ty p s2 = (Inr (H p), s2)"
proof -
  let ?s1 = "append_record ty p (H p) s"
  have put: "cas_store_put H ty p s = (Inr (H p), ?s1)"
    using assms(2,6) by (simp add: cas_store_put_def ensure_segment_capacity_def cas_contains_def try_st_def Let_def)
  obtain s2 e c where s2: "cas_open (repo_path s) (cas_fs ?s1) = (Inr s2, cas_fs ?s1)" "lru_get (write_cache s2) (H p) = None"
    "current_segment_id s2 = current_segment_id s" "bw_buf (current_file s2) = []"
    and e: "index_get (cas_index s2) (H p) = Some e" "segment_id e = current_segment_id s"
      "fs_get (cas_fs s2) (segment_path_for (repo_path s2) (current_segment_id s)) = Some (File c)"
      "length c < unat (offset e) + unat (record_len e)"
    using append_record_lost [OF cas_invD(1) [OF assms(1)], of "H p" p ?s1 ty] assms(2-6)
    by (auto simp: cas_contains_def fits_record_def SEGMENT_BUF_BYTES_def SEGMENT_MAX_BYTES_def)
  have con: "cas_contains s2 (H p)" "index_contains (cas_index s2) (H p)"
    using e(1) by (simp_all add: cas_contains_def index_contains_def index_get_def)
  have "fs_get (cas_fs (flush_writer s2)) (segment_path_for (repo_path s2) (current_segment_id s)) = Some (File c)"
    using s2(4) e(3) by (simp add: flush_writer_def bw_flush_def fs_get_append)
  then have "fst (read_record_bytes M e s2) = Inl UnexpectedEof"
    using e s2(3) by (simp add: read_record_bytes_def read_segment_def fs_read_def)
  then have "fst (get_payload H M (H p) s2) = Inl UnexpectedEof"
    using s2(2) e(1) by (cases "read_record_bytes M e s2") (simp add: get_payload_def try_st_def)
  with put s2(1) con show ?thesis
    by (simp add: cas_store_put_def)
qed

section \<open>Witnesses\<close>

definition ex_fs :: Fs where
  "ex_fs = \<lparr>fs_nodes = [], fs_clock = 0, fs_synced = []\<rparr>"

definition ex_store :: CasStore where
  "ex_store = (case cas_open [] ex_fs of (Inr s, _) \<Rightarrow> s | (Inl _, _) \<Rightarrow> undefined)"

lemma ex_fresh: "fresh_dir ex_fs []"
  by (simp add: fresh_dir_def ex_fs_def is_dir_path_def fs_get_def)

lemma ex_store:
  "cas_open [] ex_fs = (Inr ex_store, cas_fs ex_store)" "cas_inv H ex_store" "store_objs H ex_store = Map.empty"
  "repo_path ex_store = []" "current_offset ex_store = SEGMENT_HEADER_LEN" "bw_buf (current_file ex_store) = []"
  "bw_cap (current_file ex_store) = SEGMENT_BUF_BYTES"
  using opened_fresh [OF ex_fresh, of H] by (auto simp: ex_store_def)

lemma ex_store_new: "\<not> index_contains (cas_index ex_store) h"
  using contains_objs [OF ex_store(2) [of pad_hash]] by (simp add: ex_store(3))

lemma ex_mmap: "mmap_ok Inr"
  by (simp add: mmap_ok_def)

lemma ex_put: "cas_store_put H HamtLeaf [1] ex_store = (Inr (H [1]), append_record HamtLeaf [1] (H [1]) ex_store)"
  by (simp add: cas_store_put_def ensure_segment_capacity_def try_st_def Let_def ex_store_new ex_store(5)
      SEGMENT_MAX_BYTES_def SEGMENT_HEADER_LEN_def)

theorem store_reachable_inv_witness:
  "store_objs pad_hash ex_store = Map.empty \<and> cas_inv pad_hash (snd (cas_store_put pad_hash HamtLeaf [1] ex_store))"
  by (rule store_reachable_inv [OF ex_fresh ex_store(1) ex_mmap])
    (rule r_into_rtranclp, rule step_put, simp add: fits_record_def)

theorem store_put_durable_witness:
  "pad_hash [1] = pad_hash [1] \<and>
   fst (get_payload pad_hash Inr (pad_hash [1]) (cas_flush (append_record HamtLeaf [1] (pad_hash [1]) ex_store))) = Inr (HamtLeaf, [1])"
  by (rule store_put_durable [OF ex_mmap ex_store(2) _ ex_put, where U = "{(HamtLeaf, [1])}"])
    (auto simp: fits_record_def collision_free_def addressed_def ex_store(3) intro: step_flush)

theorem store_reopen_witness:
  "\<exists>s'. cas_open (repo_path ex_store) (cas_fs (cas_flush ex_store)) = (Inr s', cas_fs (cas_flush ex_store))
    \<and> cas_inv pad_hash s' \<and> store_objs pad_hash s' = store_objs pad_hash ex_store"
  by (rule store_reopen [OF ex_store(2)])

theorem store_crash_loses_witness:
  "\<exists>s1 s2. cas_store_put pad_hash HamtLeaf [1] ex_store = (Inr (pad_hash [1]), s1)
    \<and> cas_open (repo_path ex_store) (cas_fs s1) = (Inr s2, cas_fs s1)
    \<and> cas_contains s2 (pad_hash [1]) \<and> fst (get_payload pad_hash Inr (pad_hash [1]) s2) = Inl UnexpectedEof
    \<and> cas_store_put pad_hash HamtLeaf [1] s2 = (Inr (pad_hash [1]), s2)"
  by (rule store_crash_loses [OF ex_store(2)])
    (simp_all add: cas_contains_def ex_store_new ex_store SEGMENT_BUF_BYTES_def SEGMENT_MAX_BYTES_def
      SEGMENT_HEADER_LEN_def)

text \<open>The last of the 65536 segments, full: the next record has nowhere to go.\<close>

definition ex_full_bytes :: bytes where
  "ex_full_bytes = SEGMENT_MAGIC @ replicate SEGMENT_MAX_BYTES 0"

definition ex_full :: CasStore where
  "ex_full = opened [] \<lparr>fs_nodes = [([''data''], Dir), ([''index.epi''], File []),
       (segment_path_for [] 0xFFFF, File ex_full_bytes)], fs_clock = 0, fs_synced = []\<rparr>
     \<lparr>idx_file = [''index.epi''], idx_entries = []\<rparr> 0xFFFF (length ex_full_bytes)"

lemma ex_full_inv: "cas_inv H ex_full" "store_objs H ex_full = Map.empty"
proof -
  have "length SEGMENT_MAGIC = 4"
    by (simp add: SEGMENT_MAGIC_def)
  moreover have "i \<le> 0xFFFF" for i :: u16
    by (simp add: word_le_nat_alt) (use unat_u16_less [of i] in simp)
  ultimately have "layout_ok ex_full"
    by (auto simp: layout_ok_def ex_full_def index_ok_def wf_map_def index_bytes_def fs_get_def is_dir_path_def
        segments_upto_def ex_full_bytes_def SEGMENT_HEADER_LEN_def SEGMENT_MAX_BYTES_def le_Suc_eq segment_path_for_def)
  then show "cas_inv H ex_full"
    by (simp add: cas_inv_def caches_ok_def ex_full_def lru_ok_new lru_get_new index_get_def)
  show "store_objs H ex_full = Map.empty"
    by (auto simp: store_objs_def index_get_def ex_full_def)
qed

theorem store_put_error_witness:
  "\<exists>s'. cas_store_put pad_hash HamtLeaf [1] ex_full = (Inl (Err (Storage (Corrupt ''segment id overflow''))), s')
     \<and> cas_inv pad_hash s' \<and> store_objs pad_hash s' = store_objs pad_hash ex_full"
proof -
  obtain r s' where run: "cas_store_put pad_hash HamtLeaf [1] ex_full = (r, s')"
    by (cases "cas_store_put pad_hash HamtLeaf [1] ex_full")
  have "fits_record [1]"
    by (simp add: fits_record_def)
  note err = store_put_error [OF ex_full_inv(1) this run]
  have "current_offset ex_full + 45 + 1 > SEGMENT_MAX_BYTES" "current_segment_id ex_full = 0xFFFF"
    "\<not> cas_contains ex_full (pad_hash [1])"
    using contains_objs [OF ex_full_inv(1) [of pad_hash]] ex_full_inv(2)
    by (simp_all add: ex_full_def ex_full_bytes_def cas_contains_def)
  with err run show ?thesis
    by (cases r) simp_all
qed

end
