(* ===== verification/Repo.thy ===== *)
theory Repo
  imports Rust_Str Cas_Reopen
begin

text \<open>
  Branches and HEAD as files of a repository (\<open>epochs-core/src/repo/manifest.rs\<close>). A branch name is
  joined to \<open>refs/heads\<close> as a relative path would be: it may contain slashes, dots and double dots, so
  the model follows a name component by component through the file system.
\<close>

section \<open>Names as paths\<close>

text \<open>
  \<open>base.join(name)\<close>: where to start and the components still to follow; an absolute name starts at
  the root.
\<close>

type_synonym raw_path = "path \<times> string list"

definition path_join :: "path \<Rightarrow> string \<Rightarrow> raw_path" where
  "path_join base name =
     (if name \<noteq> [] \<and> hd name = CHR ''/'' then ([], split_at (CHR ''/'') (tl name))
      else (base, split_at (CHR ''/'') name))"

text \<open>Each component is looked up in a directory.\<close>

fun resolve :: "Fs \<Rightarrow> path \<Rightarrow> string list \<Rightarrow> path res" where
  "resolve fs cur [] = Inr cur"
| "resolve fs cur (c # cs) =
     (case fs_get fs cur of
        Some Dir \<Rightarrow>
          if c = '''' \<or> c = ''.'' then resolve fs cur cs
          else if c = ''..'' then resolve fs (butlast cur) cs
          else resolve fs (cur @ [c]) cs
      | Some (File _) \<Rightarrow> Inl ENOTDIR
      | None \<Rightarrow> Inl ENOENT)"

definition raw_exists :: "Fs \<Rightarrow> raw_path \<Rightarrow> bool" where
  "raw_exists fs = (\<lambda>(start, parts).
     case resolve fs start parts of Inl _ \<Rightarrow> False | Inr p \<Rightarrow> fs_exists fs p)"

definition raw_read :: "raw_path \<Rightarrow> Fs \<Rightarrow> bytes res" where
  "raw_read = (\<lambda>(start, parts) fs. try_res (resolve fs start parts) (\<lambda>p. fs_read p fs))"

definition raw_remove_file :: "raw_path \<Rightarrow> (Fs, unit) op" where
  "raw_remove_file = (\<lambda>(start, parts) fs.
     try_st (lift_st (resolve fs start parts)) (\<lambda>p. fs_remove_file p) fs)"

text \<open>A path that ends in a slash or a dot cannot be created as a file.\<close>

definition strip_trailing :: "string set \<Rightarrow> string list \<Rightarrow> string list" where
  "strip_trailing junk parts = rev (dropWhile (\<lambda>c. c \<in> junk) (rev parts))"

definition raw_write :: "raw_path \<Rightarrow> bytes \<Rightarrow> (Fs, unit) op" where
  "raw_write = (\<lambda>(start, parts) b fs.
     (let q = strip_trailing {''''} parts in
      try_st (lift_st (resolve fs start q)) (\<lambda>p fs.
        if q = parts \<and> q \<noteq> [] \<and> last q \<noteq> ''.'' \<and> last q \<noteq> ''..'' then fs_write p b fs
        else (case fs_get fs p of Some (File _) \<Rightarrow> (Inl ENOTDIR, fs) | _ \<Rightarrow> (Inl EISDIR, fs))) fs))"

text \<open>\<open>Path::parent\<close> removes the last component, trailing slashes and dots aside.\<close>

definition raw_parent :: "raw_path \<Rightarrow> raw_path" where
  "raw_parent = (\<lambda>(start, parts).
     (let q = strip_trailing {'''', ''.''} parts in
      if q = [] then (butlast start, []) else (start, butlast q)))"

fun create_raw :: "path \<Rightarrow> string list \<Rightarrow> (Fs, unit) op" where
  "create_raw cur [] fs = (Inr (), fs)"
| "create_raw cur (c # cs) fs =
     (if c = '''' \<or> c = ''.'' then create_raw cur cs fs
      else if c = ''..'' then create_raw (butlast cur) cs fs
      else
        (case fs_get fs (cur @ [c]) of
           Some Dir \<Rightarrow> create_raw (cur @ [c]) cs fs
         | Some (File _) \<Rightarrow> (Inl (if cs = [] then EEXIST else ENOTDIR), fs)
         | None \<Rightarrow> create_raw (cur @ [c]) cs (fs_set (cur @ [c]) Dir fs)))"

definition raw_create_dir_all :: "raw_path \<Rightarrow> (Fs, unit) op" where
  "raw_create_dir_all = (\<lambda>(start, parts). create_raw [] (start @ parts))"

section \<open>Repositories\<close>

record Repo =
  repo_root :: path
  repo_head :: "string option"

definition show_path :: "path \<Rightarrow> string" where
  "show_path p = (if p = [] then ''/'' else concat (map ((#) (CHR ''/'')) p))"

definition newline :: string where
  "newline = [CHR 0x0A]"

definition read_to_string :: "bytes \<Rightarrow> string res" where
  "read_to_string b = map_err (\<lambda>_. Err (Io ''stream did not contain valid UTF-8'')) (from_utf8 b)"

definition read_head :: "path \<Rightarrow> Fs \<Rightarrow> (string option) res" where
  "read_head rp fs =
     (if \<not> fs_exists fs (rp @ [''HEAD'']) then Inr None
      else try_res (fs_read (rp @ [''HEAD'']) fs) (\<lambda>b.
           try_res (read_to_string b) (\<lambda>contents.
           Inr (strip_prefix (trim contents) ''ref: refs/heads/''))))"

definition repo_init :: "path \<Rightarrow> (Fs, Repo) op" where
  "repo_init rp =
     try_st (create_dir_all (rp @ [''data''])) (\<lambda>_.
     try_st (create_dir_all (rp @ [''refs'', ''heads''])) (\<lambda>_.
     try_st (\<lambda>fs. if \<not> fs_exists fs (rp @ [''HEAD''])
                   then fs_write (rp @ [''HEAD'']) (as_bytes_str (''ref: refs/heads/main'' @ newline)) fs
                   else (Inr (), fs)) (\<lambda>_.
     lift_st (Inr \<lparr>repo_root = rp, repo_head = Some ''main''\<rparr>))))"

definition repo_open :: "path \<Rightarrow> Fs \<Rightarrow> Repo res" where
  "repo_open rp fs =
     (if \<not> fs_exists fs (rp @ [''data'']) then Inl (Err (Io (''not an epochs repository: '' @ show_path rp)))
      else try_res (read_head rp fs) (\<lambda>h. Inr \<lparr>repo_root = rp, repo_head = h\<rparr>))"

definition head_branch :: "Repo \<Rightarrow> string option" where
  "head_branch r = repo_head r"

definition branch_ref_path :: "Repo \<Rightarrow> string \<Rightarrow> raw_path" where
  "branch_ref_path r name = path_join (repo_root r @ [''refs'', ''heads'']) name"

definition repo_set_head :: "string \<Rightarrow> (Repo \<times> Fs, unit) op" where
  "repo_set_head branch = (\<lambda>(r, fs).
     if \<not> raw_exists fs (branch_ref_path r branch) then (Inl (Err (BranchNotFound branch)), r, fs)
     else
       (case fs_write (repo_root r @ [''HEAD''])
               (as_bytes_str (''ref: refs/heads/'' @ branch @ newline)) fs of
          (Inl e, fs) \<Rightarrow> (Inl e, r, fs)
        | (Inr _, fs) \<Rightarrow> (Inr (), r\<lparr>repo_head := Some branch\<rparr>, fs)))"

definition read_branch :: "Repo \<Rightarrow> string \<Rightarrow> Fs \<Rightarrow> Branch res" where
  "read_branch r name fs =
     (if \<not> raw_exists fs (branch_ref_path r name) then Inl (Err (BranchNotFound name))
      else try_res (raw_read (branch_ref_path r name) fs) (\<lambda>b.
           try_res (read_to_string b) (\<lambda>contents.
           try_res (from_hex (trim contents)) (\<lambda>target.
           Inr \<lparr>branch_name = name, branch_target = target\<rparr>))))"

definition write_branch :: "Repo \<Rightarrow> string \<Rightarrow> hash \<Rightarrow> (Fs, unit) op" where
  "write_branch r name target =
     try_st (raw_create_dir_all (raw_parent (branch_ref_path r name))) (\<lambda>_.
     raw_write (branch_ref_path r name) (as_bytes_str (to_string target @ newline)))"

definition create_branch :: "Repo \<Rightarrow> string \<Rightarrow> hash \<Rightarrow> (Fs, unit) op" where
  "create_branch r name target fs =
     (if raw_exists fs (branch_ref_path r name) then (Inl (Err (BranchExists name)), fs)
      else write_branch r name target fs)"

definition update_branch :: "Repo \<Rightarrow> string \<Rightarrow> hash \<Rightarrow> (Fs, unit) op" where
  "update_branch r name target fs =
     (if \<not> raw_exists fs (branch_ref_path r name) then (Inl (Err (BranchNotFound name)), fs)
      else write_branch r name target fs)"

definition delete_branch :: "Repo \<Rightarrow> string \<Rightarrow> (Fs, unit) op" where
  "delete_branch r name fs =
     (if repo_head r = Some name
      then (Inl (Err (InvalidTarget (''cannot delete HEAD branch '' @ [CHR 0x27] @ name @ [CHR 0x27]))), fs)
      else if \<not> raw_exists fs (branch_ref_path r name) then (Inl (Err (BranchNotFound name)), fs)
      else raw_remove_file (branch_ref_path r name) fs)"

definition list_branches :: "Repo \<Rightarrow> Fs \<Rightarrow> (string list) res" where
  "list_branches r fs =
     (let heads = repo_root r @ [''refs'', ''heads''] in
      case fs_get fs heads of
        None \<Rightarrow> Inr []
      | Some (File _) \<Rightarrow> Inl ENOTDIR
      | Some Dir \<Rightarrow> Inr (sort (map fst (filter (\<lambda>(_, n). n \<noteq> Dir) (fs_read_dir heads fs)))))"

section \<open>File trees\<close>

text \<open>Everything that exists is in a directory.\<close>

definition fs_tree :: "Fs \<Rightarrow> bool" where
  "fs_tree fs \<longleftrightarrow> fs_ok fs \<and> (\<forall>p. p \<noteq> [] \<longrightarrow> fs_exists fs p \<longrightarrow> fs_get fs (butlast p) = Some Dir)"

lemma fs_tree_prefix:
  assumes "fs_tree fs" "fs_exists fs (p @ q)" "q \<noteq> []"
  shows "fs_get fs p = Some Dir"
  using assms(2,3)
proof (induction q rule: rev_induct)
  case (snoc c q)
  then have "fs_get fs (p @ q) = Some Dir"
    using assms(1) unfolding fs_tree_def by (metis append_assoc append_is_Nil_conv butlast_snoc not_Cons_self2)
  then show ?case
    using snoc.IH by (cases "q = []") (auto simp: fs_exists_def)
qed simp

lemma fs_tree_set:
  assumes "fs_tree fs" "p \<noteq> []" "fs_get fs (butlast p) = Some Dir" "fs_get fs p \<noteq> Some Dir"
  shows "fs_tree (fs_set p n fs)"
  unfolding fs_tree_def
proof (intro conjI allI impI)
  show "fs_ok (fs_set p n fs)"
    using assms(1) by (simp add: fs_tree_def)
next
  fix q :: path
  assume q: "q \<noteq> []" "fs_exists (fs_set p n fs) q"
  show "fs_get (fs_set p n fs) (butlast q) = Some Dir"
  proof (cases "q = p")
    case True
    then show ?thesis
      using assms(2,3) take_butlast_neq [OF assms(2), of "length p"] by (simp add: fs_get_set)
  next
    case False
    then have "fs_get fs (butlast q) = Some Dir"
      using q assms(1,2) by (simp add: fs_tree_def fs_exists_def fs_get_set)
    then show ?thesis
      using assms(2,4) by (auto simp: fs_get_set)
  qed
qed

lemma fs_get_delete: "p \<noteq> [] \<Longrightarrow>
  fs_get (fs\<lparr>fs_nodes := AList.delete p (fs_nodes fs)\<rparr>) q = (if q = p then None else fs_get fs q)"
  by (simp add: fs_get_def map_of_delete)

lemma fs_tree_delete:
  assumes "fs_tree fs" "p \<noteq> []" "fs_get fs p \<noteq> Some Dir"
  shows "fs_tree (fs\<lparr>fs_nodes := AList.delete p (fs_nodes fs)\<rparr>)"
  using assms
  by (auto simp: fs_tree_def fs_ok_def wf_map_def fs_exists_def fs_get_delete distinct_delete split: if_splits)

section \<open>Plain names\<close>

definition plain_part :: "string \<Rightarrow> bool" where
  "plain_part c \<longleftrightarrow> c \<noteq> '''' \<and> c \<noteq> ''.'' \<and> c \<noteq> ''..''"

definition plain_name :: "string \<Rightarrow> bool" where
  "plain_name name \<longleftrightarrow> list_all plain_part (split_at (CHR ''/'') name)"

definition ref_file :: "Repo \<Rightarrow> string \<Rightarrow> path" where
  "ref_file r name = repo_root r @ [''refs'', ''heads''] @ split_at (CHR ''/'') name"

lemma plain_ref_path:
  assumes "plain_name name"
  shows "branch_ref_path r name = (repo_root r @ [''refs'', ''heads''], split_at (CHR ''/'') name)"
proof -
  have "name \<noteq> [] \<and> hd name \<noteq> CHR ''/''"
    using assms by (cases name) (auto simp: plain_name_def plain_part_def)
  then show ?thesis
    by (simp add: branch_ref_path_def path_join_def)
qed

lemma ref_file_inj: "ref_file r m = ref_file r n \<longleftrightarrow> m = n"
  by (simp add: ref_file_def split_at_inj)

lemma resolve_plain: "list_all plain_part parts \<Longrightarrow> resolve fs cur parts = Inr p \<Longrightarrow> p = cur @ parts"
  by (induction parts arbitrary: cur) (fastforce simp: plain_part_def split: option.splits node.splits)+

lemma resolve_existing:
  assumes "fs_tree fs" "list_all plain_part parts" "parts \<noteq> [] \<Longrightarrow> fs_get fs (cur @ butlast parts) = Some Dir"
  shows "resolve fs cur parts = Inr (cur @ parts)"
  using assms(2,3)
proof (induction parts arbitrary: cur)
  case (Cons c cs)
  have "fs_get fs cur = Some Dir"
    using Cons.prems(2) fs_tree_prefix [OF assms(1), of cur "butlast (c # cs)"]
    by (cases cs) (auto simp: fs_exists_def)
  then show ?case
    using Cons.IH [of "cur @ [c]"] Cons.prems by (cases "cs = []") (simp_all add: plain_part_def)
qed simp

lemma raw_exists_plain:
  assumes "fs_tree fs" "list_all plain_part parts"
  shows "raw_exists fs (cur, parts) \<longleftrightarrow> fs_exists fs (cur @ parts)"
proof
  assume "raw_exists fs (cur, parts)"
  then show "fs_exists fs (cur @ parts)"
    using resolve_plain [OF assms(2)] by (auto simp: raw_exists_def split: sum.splits)
next
  assume ex: "fs_exists fs (cur @ parts)"
  have "fs_get fs (cur @ butlast parts) = Some Dir" if "parts \<noteq> []"
    using fs_tree_prefix [OF assms(1), of "cur @ butlast parts" "[last parts]"] ex that by simp
  then have "resolve fs cur parts = Inr (cur @ parts)"
    using assms by (intro resolve_existing) auto
  with ex show "raw_exists fs (cur, parts)"
    by (simp add: raw_exists_def)
qed

section \<open>Branches as a map\<close>

definition file_hash :: "node option \<Rightarrow> hash option" where
  "file_hash n =
     (case n of
        Some (File b) \<Rightarrow>
          (case try_res (read_to_string b) (\<lambda>c. from_hex (trim c)) of Inl _ \<Rightarrow> None | Inr h \<Rightarrow> Some h)
      | _ \<Rightarrow> None)"

definition branch_of :: "Repo \<Rightarrow> Fs \<Rightarrow> string \<Rightarrow> hash option" where
  "branch_of r fs name = (case read_branch r name fs of Inl _ \<Rightarrow> None | Inr b \<Rightarrow> Some (branch_target b))"

definition repo_ok :: "Repo \<Rightarrow> Fs \<Rightarrow> bool" where
  "repo_ok r fs \<longleftrightarrow> fs_tree fs \<and> list_all plain_part (repo_root r)
     \<and> fs_get fs (repo_root r @ [''refs'', ''heads'']) = Some Dir"

lemma branch_of_plain:
  assumes "fs_tree fs" "plain_name name"
  shows "branch_of r fs name = file_hash (fs_get fs (ref_file r name))"
proof (cases "fs_exists fs (ref_file r name)")
  case False
  then show ?thesis
    using raw_exists_plain [OF assms(1), of "split_at (CHR ''/'') name" "repo_root r @ [''refs'', ''heads'']"] assms(2)
    by (simp add: branch_of_def read_branch_def plain_ref_path ref_file_def plain_name_def fs_exists_def file_hash_def)
next
  case True
  then have "raw_exists fs (branch_ref_path r name)"
    using raw_exists_plain [OF assms(1), of "split_at (CHR ''/'') name" "repo_root r @ [''refs'', ''heads'']"] assms(2)
    by (simp add: plain_ref_path ref_file_def plain_name_def)
  moreover from this obtain p where p: "resolve fs (fst (branch_ref_path r name)) (snd (branch_ref_path r name)) = Inr p"
    by (cases "resolve fs (fst (branch_ref_path r name)) (snd (branch_ref_path r name))")
      (auto simp: raw_exists_def split: prod.splits)
  moreover have "p = ref_file r name"
    using resolve_plain [OF _ p] assms(2) by (simp add: plain_ref_path ref_file_def plain_name_def)
  ultimately show ?thesis
    by (auto simp: branch_of_def read_branch_def raw_read_def fs_read_def file_hash_def try_res_def
        split: prod.splits option.splits node.splits sum.splits)
qed

text \<open>Creating directories only turns missing paths into directories.\<close>

lemma create_raw_plain:
  assumes "fs_tree fs" "list_all plain_part parts" "fs_get fs cur = Some Dir"
    and "create_raw cur parts fs = (res, fs')"
  shows "fs_tree fs' \<and> (\<forall>q. fs_get fs' q = fs_get fs q \<or> fs_get fs q = None \<and> fs_get fs' q = Some Dir)
    \<and> (res = Inr () \<longrightarrow> fs_get fs' (cur @ parts) = Some Dir)"
  using assms
proof (induction parts arbitrary: cur fs)
  case (Cons c cs)
  have c: "c \<noteq> ''''" "c \<noteq> ''.''" "c \<noteq> ''..''" "list_all plain_part cs"
    using Cons.prems(2) by (simp_all add: plain_part_def [of c])
  show ?case
  proof (cases "fs_get fs (cur @ [c])")
    case None
    let ?fs = "fs_set (cur @ [c]) Dir fs"
    have "fs_tree ?fs" "fs_get ?fs (cur @ [c]) = Some Dir"
      using Cons.prems None by (simp_all add: fs_tree_set fs_get_set)
    then have ih: "fs_tree fs'" "\<And>q. fs_get fs' q = fs_get ?fs q \<or> fs_get ?fs q = None \<and> fs_get fs' q = Some Dir"
      "res = Inr () \<longrightarrow> fs_get fs' (cur @ c # cs) = Some Dir"
      using Cons.IH [of ?fs "cur @ [c]"] Cons.prems(4) c None by simp_all
    have "fs_get fs' q = fs_get fs q \<or> fs_get fs q = None \<and> fs_get fs' q = Some Dir" for q
      using ih(2) [of q] None by (cases "q = cur @ [c]") (auto simp: fs_get_set)
    with ih(1,3) show ?thesis by blast
  next
    case (Some n)
    then show ?thesis
      using Cons.IH [of fs "cur @ [c]"] Cons.prems c by (cases n) auto
  qed
qed simp

lemma strip_trailing_id: "parts = [] \<or> last parts \<notin> junk \<Longrightarrow> strip_trailing junk parts = parts"
  by (cases parts rule: rev_cases) (auto simp: strip_trailing_def)

lemma printable_hex: "n < 16 \<Longrightarrow> printable (hex_digit n)"
  by (simp add: printable_def hex_digit_def of_char_of)

lemma printable_hash: "c \<in> set (to_string h) \<Longrightarrow> printable c"
  using printable_hex by (auto simp: to_string_def hex_pair_def less_mult_imp_div_less)

lemma printable_ascii: "\<forall>c \<in> set s. printable c \<Longrightarrow> ascii_str (s @ newline)"
  by (auto simp: ascii_str_def as_bytes_str_def newline_def printable_def byte_of_char_def word_less_nat_alt unat_of_nat)

lemma read_to_string_valid: "valid_str s \<Longrightarrow> read_to_string (as_bytes_str s) = Inr s"
  by (simp add: read_to_string_def)

lemma read_to_string_hash: "read_to_string (as_bytes_str (to_string h @ newline)) = Inr (to_string h @ newline)"
  using printable_hash printable_ascii valid_str_ascii read_to_string_valid by blast

lemma trim_hash: "trim (to_string h @ newline) = to_string h"
proof -
  have "to_string h \<noteq> []"
    using length_to_string [of h] by (cases "to_string h") simp_all
  then show ?thesis
    using trim_printable_line printable_hash unfolding newline_def by blast
qed

lemma file_hash_written: "file_hash (Some (File (as_bytes_str (to_string h @ newline)))) = Some h"
  using read_to_string_hash [of h] trim_hash [of h] by (simp only: file_hash_def option.case node.case try_res_simps
      from_hex_to_string sum.case)

lemma write_branch_spec:
  assumes ok: "repo_ok r fs" and plain: "plain_name name" and run: "write_branch r name h fs = (res, fs')"
  shows "repo_ok r fs' \<and> (\<forall>q. fs_get fs' q = fs_get fs q \<or> fs_get fs q = None \<and> fs_get fs' q = Some Dir
      \<or> res = Inr () \<and> q = ref_file r name)
    \<and> (res = Inr () \<longrightarrow> fs_get fs' (ref_file r name) = Some (File (as_bytes_str (to_string h @ newline))))"
proof -
  let ?base = "repo_root r @ [''refs'', ''heads'']" and ?parts = "split_at (CHR ''/'') name"
  note ok = ok [unfolded repo_ok_def]
  have pl: "list_all plain_part ?parts" "?parts \<noteq> []" "plain_part (last ?parts)"
    using plain by (simp_all add: plain_name_def list_all_iff)
  then have st: "strip_trailing {'''', ''.''} ?parts = ?parts" "strip_trailing {''''} ?parts = ?parts"
    by (auto simp: plain_part_def intro!: strip_trailing_id)
  obtain r1 fs1 where mk: "create_raw [] (?base @ butlast ?parts) fs = (r1, fs1)"
    by (cases "create_raw [] (?base @ butlast ?parts) fs")
  have pb: "list_all plain_part (?base @ butlast ?parts)"
    using ok pl(1) by (auto simp: plain_part_def list_all_iff dest: in_set_butlastD)
  have fs1: "fs_tree fs1" "\<And>q. fs_get fs1 q = fs_get fs q \<or> fs_get fs q = None \<and> fs_get fs1 q = Some Dir"
    "r1 = Inr () \<Longrightarrow> fs_get fs1 (?base @ butlast ?parts) = Some Dir"
    using create_raw_plain [OF _ pb _ mk] ok by (auto simp: fs_get_def)
  have base: "fs_get fs1 ?base = Some Dir"
    using fs1(2) [of ?base] ok by auto
  have dirs: "raw_create_dir_all (raw_parent (branch_ref_path r name)) fs = (r1, fs1)"
    using mk st(1) pl(2) plain by (simp add: raw_create_dir_all_def raw_parent_def plain_ref_path)
  show ?thesis
  proof (cases r1)
    case (Inl e)
    then show ?thesis
      using run dirs fs1 base ok by (auto simp: write_branch_def try_st_def repo_ok_def)
  next
    case (Inr u)
    then have "resolve fs1 ?base ?parts = Inr (ref_file r name)"
      using resolve_existing [OF fs1(1) pl(1), of ?base] fs1(3) by (simp add: ref_file_def)
    then have w: "fs_write (ref_file r name) (as_bytes_str (to_string h @ newline)) fs1 = (res, fs')"
      using run dirs Inr st(2) pl plain
      by (simp add: write_branch_def try_st_def raw_write_def plain_ref_path plain_part_def Let_def)
    have par: "fs_get fs1 (butlast (ref_file r name)) = Some Dir"
      using fs1(3) Inr pl(2) by (simp add: ref_file_def butlast_append)
    show ?thesis
    proof (cases "fs_get fs1 (ref_file r name) = Some Dir")
      case True
      then show ?thesis
        using w fs1 base ok by (auto simp: fs_write_def repo_ok_def)
    next
      case False
      then have fs': "res = Inr ()" "fs' = fs_set (ref_file r name) (File (as_bytes_str (to_string h @ newline))) fs1"
        using w par by (auto simp: fs_write_def split: option.splits node.splits)
      moreover have ne: "ref_file r name \<noteq> []"
        by (simp add: ref_file_def)
      moreover have "?base \<noteq> ref_file r name"
        using not_sym [OF pl(2)] by (auto simp: ref_file_def)
      ultimately show ?thesis
        using fs1 base ok fs_tree_set [OF fs1(1) ne par False] fs1(2)
        by (simp add: repo_ok_def fs_get_set)
    qed
  qed
qed

section \<open>Properties\<close>

lemma branches_after:
  assumes "fs_tree fs" "fs_tree fs'"
    and "\<forall>q. fs_get fs' q = fs_get fs q \<or> fs_get fs q = None \<and> fs_get fs' q = Some Dir \<or> q = ref_file r name"
    and "plain_name m" "m \<noteq> name"
  shows "branch_of r fs' m = branch_of r fs m"
  using assms(3) [rule_format, of "ref_file r m"] assms
  by (auto simp: branch_of_plain ref_file_inj file_hash_def)

lemma branch_write_map:
  assumes "repo_ok r fs" "plain_name name"
    and "create_branch r name h fs = (res, fs') \<or> update_branch r name h fs = (res, fs')"
  shows "repo_ok r fs' \<and> (\<forall>m. plain_name m \<longrightarrow>
    branch_of r fs' m = (if res = Inr () \<and> m = name then Some h else branch_of r fs m))"
proof -
  have tree: "fs_tree fs"
    using assms(1) by (simp add: repo_ok_def)
  consider (same) e where "res = Inl e" "fs' = fs" | (written) "write_branch r name h fs = (res, fs')"
    using assms(3) by (auto simp: create_branch_def update_branch_def split: if_splits)
  then show ?thesis
  proof cases
    case same
    then show ?thesis using assms(1) by simp
  next
    case written
    note w = write_branch_spec [OF assms(1,2) written]
    then have tree': "fs_tree fs'"
      by (simp add: repo_ok_def)
    have "branch_of r fs' m = (if res = Inr () \<and> m = name then Some h else branch_of r fs m)" if "plain_name m" for m
    proof (cases "m = name")
      case False
      with branches_after [OF tree tree' _ that] w show ?thesis by (auto simp del: Inl_Inr_False)
    next
      case True
      from w have "res = Inr () \<Longrightarrow> branch_of r fs' name = Some h"
        using tree' assms(2) by (simp add: branch_of_plain file_hash_written del: as_bytes_str_simps)
      moreover from w have "res \<noteq> Inr () \<Longrightarrow> branch_of r fs' name = branch_of r fs name"
        using tree tree' assms(2) by (auto simp: branch_of_plain file_hash_def dest!: spec [of _ "ref_file r name"])
      ultimately show ?thesis
        using True by simp
    qed
    with w show ?thesis by blast
  qed
qed

lemma read_dir_files:
  assumes "fs_ok fs"
  shows "(c, n) \<in> set (fs_read_dir d fs) \<longleftrightarrow> fs_get fs (d @ [c]) = Some n"
proof -
  have "(c, n) \<in> set (fs_read_dir d fs) \<longleftrightarrow> (d @ [c], n) \<in> set (fs_nodes fs)"
  proof
    assume "(d @ [c], n) \<in> set (fs_nodes fs)"
    then show "(c, n) \<in> set (fs_read_dir d fs)"
      unfolding fs_read_dir_def by (auto intro!: image_eqI [of _ _ "(d @ [c], n)"])
  qed (auto simp: fs_read_dir_def)
  then show ?thesis
    using assms by (simp add: fs_ok_def wf_map_def fs_get_def)
qed

lemma list_branches_files:
  assumes "repo_ok r fs"
  shows "\<exists>ns. list_branches r fs = Inr ns \<and> sorted ns
    \<and> set ns = {n. \<exists>b. fs_get fs (repo_root r @ [''refs'', ''heads'', n]) = Some (File b)}"
proof -
  have "n \<noteq> Dir \<longleftrightarrow> (\<exists>b. n = File b)" for n
    by (cases n) simp_all
  then have "fst ` {x \<in> set (fs_read_dir (repo_root r @ [''refs'', ''heads'']) fs). snd x \<noteq> Dir} =
      {n. \<exists>b. fs_get fs (repo_root r @ [''refs'', ''heads'', n]) = Some (File b)}"
    using assms by (force simp: repo_ok_def fs_tree_def read_dir_files image_iff)
  then show ?thesis
    using assms by (simp add: list_branches_def repo_ok_def split_beta)
qed

lemma split_at_two: "c \<in> set s \<Longrightarrow> split_at c s \<noteq> [p]"
proof
  assume c: "c \<in> set s" and one: "split_at c s = [p]"
  then have "p = s"
    using join_split [of c s] by (simp add: join_with_def)
  then show False
    using split_at_parts [of p c s] c one by simp
qed

text \<open>An existing path made of plain components resolves to the file it names.\<close>

lemma raw_remove_plain:
  assumes "fs_tree fs" "plain_name name" "fs_exists fs (ref_file r name)"
  shows "raw_exists fs (branch_ref_path r name)"
    "raw_remove_file (branch_ref_path r name) fs = fs_remove_file (ref_file r name) fs"
proof -
  have parts: "list_all plain_part (split_at (CHR ''/'') name)"
    using assms(2) by (simp add: plain_name_def)
  show ex: "raw_exists fs (branch_ref_path r name)"
    using raw_exists_plain [OF assms(1) parts] assms(2,3) by (simp add: plain_ref_path ref_file_def)
  then obtain p where p: "resolve fs (repo_root r @ [''refs'', ''heads'']) (split_at (CHR ''/'') name) = Inr p"
    using assms(2) by (auto simp: raw_exists_def plain_ref_path split: sum.splits)
  then have "p = ref_file r name"
    using resolve_plain [OF parts p] by (simp add: ref_file_def)
  then show "raw_remove_file (branch_ref_path r name) fs = fs_remove_file (ref_file r name) fs"
    using assms(2) p by (simp add: raw_remove_file_def plain_ref_path)
qed

lemma repo_ok_delete:
  assumes "repo_ok r fs" "fs_get fs (ref_file r name) = Some (File b)"
  shows "repo_ok r (fs\<lparr>fs_nodes := AList.delete (ref_file r name) (fs_nodes fs)\<rparr>)"
proof -
  have "ref_file r name \<noteq> []" "ref_file r name \<noteq> repo_root r @ [''refs'', ''heads'']"
    using assms by (auto simp: ref_file_def repo_ok_def)
  with assms fs_tree_delete [of fs "ref_file r name"] show ?thesis
    by (simp add: repo_ok_def fs_get_delete)
qed

text \<open>
  C33: with a name made of plain components, \<open>delete_branch\<close> refuses the branch HEAD names and a name
  that does not exist, each with its error; when the branch is a file it succeeds and removes that
  file and no other path, so that branch and no other is gone; when it fails nothing has changed.
\<close>

theorem delete_branch_removes:
  assumes "repo_ok r fs" "plain_name name" "delete_branch r name fs = (res, fs')"
  shows "if repo_head r = Some name then
      res = Inl (Err (InvalidTarget (''cannot delete HEAD branch '' @ [CHR 0x27] @ name @ [CHR 0x27]))) \<and> fs' = fs
    else case fs_get fs (ref_file r name) of
        None \<Rightarrow> res = Inl (Err (BranchNotFound name)) \<and> fs' = fs
      | Some Dir \<Rightarrow> (\<exists>e. res = Inl (Err (Io e))) \<and> fs' = fs
      | Some (File b) \<Rightarrow> res = Inr () \<and> repo_ok r fs'
          \<and> (\<forall>p. fs_get fs' p = (if p = ref_file r name then None else fs_get fs p))
          \<and> (\<forall>m. plain_name m \<longrightarrow> branch_of r fs' m = (if m = name then None else branch_of r fs m))"
proof (cases "repo_head r = Some name")
  case True
  with assms(3) show ?thesis by (simp add: delete_branch_def)
next
  case False
  have tree: "fs_tree fs" and ne: "ref_file r name \<noteq> []"
    using assms(1) by (simp_all add: repo_ok_def ref_file_def)
  note plain = raw_remove_plain [OF tree assms(2), of r]
  consider (none) "fs_get fs (ref_file r name) = None" | (dir) "fs_get fs (ref_file r name) = Some Dir"
    | (is_file) b where "fs_get fs (ref_file r name) = Some (File b)"
    by (cases "fs_get fs (ref_file r name)") (auto intro: node.exhaust)
  then show ?thesis
  proof cases
    case none
    then have "\<not> raw_exists fs (branch_ref_path r name)"
      using raw_exists_plain [OF tree, of "split_at (CHR ''/'') name" "repo_root r @ [''refs'', ''heads'']"] assms(2)
      by (simp add: plain_ref_path ref_file_def plain_name_def fs_exists_def)
    with none False assms(3) show ?thesis by (auto simp: delete_branch_def)
  next
    case dir
    then show ?thesis
      using False plain assms(3) by (auto simp: delete_branch_def fs_exists_def fs_remove_file_def EISDIR_def)
  next
    case is_file
    then have fs': "res = Inr ()" "fs' = fs\<lparr>fs_nodes := AList.delete (ref_file r name) (fs_nodes fs)\<rparr>"
      using False plain assms(3) by (auto simp: delete_branch_def fs_exists_def fs_remove_file_def)
    then have ok: "repo_ok r fs'"
      using repo_ok_delete [OF assms(1) is_file] by simp
    have get: "fs_get fs' p = (if p = ref_file r name then None else fs_get fs p)" for p
      using fs'(2) ne by (simp add: fs_get_delete)
    have "branch_of r fs' m = (if m = name then None else branch_of r fs m)" if "plain_name m" for m
      using that tree ok by (simp add: repo_ok_def branch_of_plain get ref_file_inj file_hash_def)
    with fs' ok get False is_file show ?thesis by simp
  qed
qed

text \<open>
  HEAD survives a restart: opening the repository again gives the branch that was set, provided
  its name does not end in white space, which reading the file trims away.
\<close>

theorem head_roundtrip:
  assumes "repo_set_head b (r, fs) = (Inr (), r', fs')" "valid_str b" "trim_end b = b"
    and "fs_exists fs (repo_root r @ [''data''])"
  shows "repo_open (repo_root r) fs' = Inr r' \<and> head_branch r' = Some b"
proof -
  let ?head = "repo_root r @ [''HEAD'']" and ?text = "''ref: refs/heads/'' @ b @ newline"
  have w: "fs_write ?head (as_bytes_str ?text) fs = (Inr (), fs')" "r' = r\<lparr>repo_head := Some b\<rparr>"
    using assms(1) by (auto simp: repo_set_head_def split: if_splits prod.splits sum.splits)
  then have fs': "fs' = fs_set ?head (File (as_bytes_str ?text)) fs"
    by (auto simp: fs_write_def split: option.splits node.splits if_splits)
  have "ascii_str ''ref: refs/heads/''" "ascii_str newline"
    by (simp_all add: ascii_str_def byte_of_char_def newline_def)
  then have "valid_str ?text"
    using assms(2) by (intro valid_str_append) (simp_all add: valid_str_ascii)
  then have "read_to_string (as_bytes_str ?text) = Inr ?text"
    by (rule read_to_string_valid)
  moreover have "trim_end (''ref: refs/heads'' @ CHR ''/'' # b) = ''ref: refs/heads'' @ CHR ''/'' # b"
    by (rule trim_end_printable) (simp_all add: assms(3) printable_def)
  then have "trim ?text = ''ref: refs/heads/'' @ b"
    using trim_line [of "CHR ''r''" "''ef: refs/heads/'' @ b"] by (simp add: newline_def printable_def)
  ultimately have "read_head (repo_root r) fs' = Inr (Some b)"
    using strip_prefix_append [of "''ref: refs/heads/''" b] unfolding read_head_def
    by (simp add: fs' fs_exists_def fs_read_def fs_get_set del: as_bytes_str_simps append.simps)
  then show ?thesis
    using assms(4) w(2) by (simp add: repo_open_def fs' fs_exists_def fs_get_set head_branch_def)
qed

text \<open>
  \<open>list_branches\<close> lists in order the branches that are files directly in \<open>refs/heads\<close>. A branch
  with a slash in its name can be created and read but is not listed.
\<close>

theorem list_branches_top_level:
  assumes "repo_ok r fs" "plain_name n" "CHR ''/'' \<in> set n" "create_branch r n h fs = (Inr (), fs')"
  shows "\<exists>ns ns'. list_branches r fs = Inr ns \<and> sorted ns
    \<and> set ns = {n. \<exists>b. fs_get fs (repo_root r @ [''refs'', ''heads'', n]) = Some (File b)}
    \<and> branch_of r fs' n = Some h \<and> list_branches r fs' = Inr ns' \<and> set ns' = set ns"
proof -
  have w: "repo_ok r fs'" "branch_of r fs' n = Some h"
    using branch_write_map [OF assms(1,2) disjI1 [OF assms(4)]] assms(2) by simp_all
  have "write_branch r n h fs = (Inr (), fs')"
    using assms(4) by (simp add: create_branch_def split: if_splits)
  note spec = write_branch_spec [OF assms(1,2) this]
  have "repo_root r @ [''refs'', ''heads'', m] \<noteq> ref_file r n" for m
    using split_at_two [OF assms(3), THEN not_sym] by (simp add: ref_file_def)
  then have "(\<exists>b. fs_get fs' (repo_root r @ [''refs'', ''heads'', m]) = Some (File b)) \<longleftrightarrow>
      (\<exists>b. fs_get fs (repo_root r @ [''refs'', ''heads'', m]) = Some (File b))" for m
    using spec [THEN conjunct2, THEN conjunct1, rule_format, of "repo_root r @ [''refs'', ''heads'', m]"]
    by (auto dest: sym)
  then show ?thesis
    using list_branches_files [OF assms(1)] list_branches_files [OF w(1)] w(2) by auto
qed

text \<open>
  C32: on names without empty, dot or double-dot components, branches behave as a map from names to
  hashes: \<open>create_branch\<close> and \<open>update_branch\<close> bind their name when they succeed and change no branch
  when they fail. Creating refuses a name that exists and updating one that does not, each with its error.
\<close>

theorem branches_are_a_map:
  assumes "repo_ok r fs" "plain_name name"
    and "create_branch r name h fs = (res, fs') \<or> update_branch r name h fs = (res, fs')"
  shows "repo_ok r fs' \<and> (\<forall>m. plain_name m \<longrightarrow>
      branch_of r fs' m = (if res = Inr () \<and> m = name then Some h else branch_of r fs m))
    \<and> (fs_exists fs (ref_file r name) \<longrightarrow> create_branch r name h fs = (Inl (Err (BranchExists name)), fs))
    \<and> (\<not> fs_exists fs (ref_file r name) \<longrightarrow> update_branch r name h fs = (Inl (Err (BranchNotFound name)), fs))"
proof -
  have "raw_exists fs (branch_ref_path r name) \<longleftrightarrow> fs_exists fs (ref_file r name)"
    using raw_exists_plain [of fs "split_at (CHR ''/'') name" "repo_root r @ [''refs'', ''heads'']"] assms(1,2)
    by (simp add: plain_ref_path ref_file_def plain_name_def repo_ok_def)
  then show ?thesis
    using branch_write_map [OF assms] by (simp add: create_branch_def update_branch_def)
qed

section \<open>Names that leave the directory\<close>

lemma create_raw_existing:
  assumes "fs_tree fs" "list_all plain_part parts" "fs_get fs (cur @ parts) = Some Dir"
  shows "create_raw cur (parts @ rest) fs = create_raw (cur @ parts) rest fs"
  using assms(2,3)
proof (induction parts arbitrary: cur)
  case (Cons c cs)
  have "fs_get fs (cur @ [c]) = Some Dir"
    using fs_tree_prefix [OF assms(1), of "cur @ [c]" cs] Cons.prems(2) by (cases "cs = []") (auto simp: fs_exists_def)
  then show ?case
    using Cons.IH [of "cur @ [c]"] Cons.prems by (simp add: plain_part_def [of c])
qed simp

lemma repo_dirs:
  assumes "repo_ok r fs"
  shows "fs_get fs (repo_root r) = Some Dir" "fs_get fs (repo_root r @ [''refs'']) = Some Dir"
    "fs_get fs (repo_root r @ [''refs'', ''heads'']) = Some Dir"
  using assms fs_tree_prefix [of fs "repo_root r" "[''refs'', ''heads'']"]
    fs_tree_prefix [of fs "repo_root r @ [''refs'']" "[''heads'']"]
  by (auto simp: repo_ok_def fs_exists_def)

text \<open>
  C34: branch names are not checked. Updating the branch \<open>../../index.epi\<close>, which exists in every
  repository that has stored an object, overwrites the object index.
\<close>

theorem branch_name_escapes:
  assumes "repo_ok r fs" "fs_get fs (repo_root r @ [''index.epi'']) = Some (File c)"
  shows "\<exists>fs'. update_branch r ''../../index.epi'' h fs = (Inr (), fs')
    \<and> fs_get fs' (repo_root r @ [''index.epi'']) = Some (File (as_bytes_str (to_string h @ newline)))"
proof -
  let ?name = "''../../index.epi''" and ?base = "repo_root r @ [''refs'', ''heads'']"
  note dirs = repo_dirs [OF assms(1)]
  have path: "branch_ref_path r ?name = (?base, [''..'', ''..'', ''index.epi''])"
    by (simp add: branch_ref_path_def path_join_def)
  have res: "resolve fs ?base [''..'', ''..'', ''index.epi''] = Inr (repo_root r @ [''index.epi''])"
    using dirs by (simp add: butlast_append)
  have "create_raw [] (?base @ [''..'', ''..'']) fs = (Inr (), fs)"
    using create_raw_existing [of fs ?base "[]" "[''..'', ''..'']"] assms(1) dirs(3)
    by (simp add: repo_ok_def plain_part_def)
  then have mk: "raw_create_dir_all (raw_parent (branch_ref_path r ?name)) fs = (Inr (), fs)"
    by (simp add: path raw_create_dir_all_def raw_parent_def strip_trailing_def)
  have ex: "raw_exists fs (branch_ref_path r ?name)"
    unfolding path raw_exists_def using res assms(2) by (simp add: fs_exists_def del: resolve.simps)
  have "raw_write (branch_ref_path r ?name) b fs = (Inr (), fs_set (repo_root r @ [''index.epi'']) (File b) fs)" for b
    unfolding path raw_write_def using res assms(2)
    by (simp add: strip_trailing_def fs_write_def del: resolve.simps)
  with mk ex show ?thesis
    by (simp add: update_branch_def write_branch_def try_st_def fs_get_set del: as_bytes_str_simps)
qed

text \<open>
  The check that protects HEAD compares names, not files: with HEAD on \<open>main\<close>, deleting \<open>./main\<close>
  deletes the branch of HEAD.
\<close>

theorem delete_head_alias:
  assumes "repo_ok r fs" "repo_head r = Some ''main''" "fs_get fs (ref_file r ''main'') = Some (File c)"
  shows "\<exists>fs'. delete_branch r ''./main'' fs = (Inr (), fs') \<and> branch_of r fs' ''main'' = None"
proof -
  let ?base = "repo_root r @ [''refs'', ''heads'']"
  have path: "branch_ref_path r ''./main'' = (?base, [''.'', ''main''])"
    by (simp add: branch_ref_path_def path_join_def)
  have fl: "ref_file r ''main'' = ?base @ [''main'']"
    by (simp add: ref_file_def)
  have res: "resolve fs ?base [''.'', ''main''] = Inr (ref_file r ''main'')"
    using repo_dirs [OF assms(1)] by (simp add: fl)
  let ?fs' = "fs\<lparr>fs_nodes := AList.delete (ref_file r ''main'') (fs_nodes fs)\<rparr>"
  have del: "delete_branch r ''./main'' fs = (Inr (), ?fs')"
    unfolding delete_branch_def path raw_exists_def raw_remove_file_def using res assms(2,3)
    by (simp add: fs_exists_def fs_remove_file_def del: resolve.simps)
  moreover have "fs_tree ?fs'"
    using fs_tree_delete [of fs "ref_file r ''main''"] assms(1,3) by (simp add: repo_ok_def fl)
  then have "branch_of r ?fs' ''main'' = None"
    by (simp add: branch_of_plain plain_name_def plain_part_def fs_get_delete fl file_hash_def)
  ultimately show ?thesis by blast
qed

section \<open>Witnesses\<close>

definition ex_repo :: Repo where
  "ex_repo = \<lparr>repo_root = [], repo_head = Some ''main''\<rparr>"

definition ex_repo_fs :: Fs where
  "ex_repo_fs = \<lparr>fs_nodes = [([''data''], Dir), ([''refs''], Dir), ([''refs'', ''heads''], Dir),
     ([''refs'', ''heads'', ''main''], File (as_bytes_str (to_string ZERO @ newline))),
     ([''index.epi''], File [])], fs_clock = 0, fs_synced = []\<rparr>"

lemma ex_repo_ok: "repo_ok ex_repo ex_repo_fs"
  by (auto simp: repo_ok_def ex_repo_def ex_repo_fs_def fs_tree_def fs_ok_def wf_map_def fs_exists_def fs_get_def
      split: if_splits)

lemma ex_repo_files:
  "fs_get ex_repo_fs [''refs'', ''heads'', ''main''] = Some (File (as_bytes_str (to_string ZERO @ newline)))"
  "fs_get ex_repo_fs [''index.epi''] = Some (File [])" "ref_file ex_repo ''main'' = [''refs'', ''heads'', ''main'']"
  "repo_root ex_repo = []" "repo_head ex_repo = Some ''main''" "fs_exists ex_repo_fs [''data'']"
  by (simp_all add: ex_repo_fs_def fs_get_def ref_file_def ex_repo_def fs_exists_def)

lemma ex_create: "fst (create_branch ex_repo ''feature/foo'' ZERO ex_repo_fs) = Inr ()"
  by (simp add: create_branch_def write_branch_def branch_ref_path_def path_join_def raw_exists_def raw_parent_def
      raw_create_dir_all_def raw_write_def strip_trailing_def ex_repo_def ex_repo_fs_def fs_get_def fs_exists_def
      try_st_def fs_write_def fs_set_def)

lemma ex_create_run:
  "create_branch ex_repo ''feature/foo'' ZERO ex_repo_fs =
     (Inr (), snd (create_branch ex_repo ''feature/foo'' ZERO ex_repo_fs))"
  using ex_create by (metis prod.collapse)

lemma ex_plain: "plain_name ''feature/foo''"
  by (simp add: plain_name_def plain_part_def)

theorem branches_are_a_map_witness:
  "branch_of ex_repo (snd (create_branch ex_repo ''feature/foo'' ZERO ex_repo_fs)) ''feature/foo'' = Some ZERO"
  using branches_are_a_map [OF ex_repo_ok ex_plain disjI1 [OF ex_create_run]] ex_plain by simp

lemma ex_created_file:
  "fs_get (snd (create_branch ex_repo ''feature/foo'' ZERO ex_repo_fs)) (ref_file ex_repo ''feature/foo'') =
     Some (File (as_bytes_str (to_string ZERO @ newline)))"
  "repo_ok ex_repo (snd (create_branch ex_repo ''feature/foo'' ZERO ex_repo_fs))"
proof -
  have "write_branch ex_repo ''feature/foo'' ZERO ex_repo_fs =
      (Inr (), snd (create_branch ex_repo ''feature/foo'' ZERO ex_repo_fs))"
    using ex_create_run by (simp add: create_branch_def split: if_splits)
  from write_branch_spec [OF ex_repo_ok ex_plain this]
  show "fs_get (snd (create_branch ex_repo ''feature/foo'' ZERO ex_repo_fs)) (ref_file ex_repo ''feature/foo'') =
     Some (File (as_bytes_str (to_string ZERO @ newline)))"
    by (simp del: as_bytes_str_simps)
  show "repo_ok ex_repo (snd (create_branch ex_repo ''feature/foo'' ZERO ex_repo_fs))"
    using branch_write_map [OF ex_repo_ok ex_plain disjI1 [OF ex_create_run]] by simp
qed

text \<open>The branch just created is deleted and \<open>main\<close> stays.\<close>

theorem delete_branch_removes_witness:
  "\<exists>fs'. delete_branch ex_repo ''feature/foo'' (snd (create_branch ex_repo ''feature/foo'' ZERO ex_repo_fs)) = (Inr (), fs')
    \<and> branch_of ex_repo fs' ''feature/foo'' = None \<and> branch_of ex_repo fs' ''main'' = Some ZERO"
proof -
  let ?fs = "snd (create_branch ex_repo ''feature/foo'' ZERO ex_repo_fs)"
  obtain res fs' where run: "delete_branch ex_repo ''feature/foo'' ?fs = (res, fs')"
    by (cases "delete_branch ex_repo ''feature/foo'' ?fs")
  have main: "plain_name ''main''"
    by (simp add: plain_name_def plain_part_def)
  have "branch_of ex_repo ?fs ''main'' = branch_of ex_repo ex_repo_fs ''main''"
    using branch_write_map [OF ex_repo_ok ex_plain disjI1 [OF ex_create_run]] main by simp
  also have "\<dots> = Some ZERO"
    using ex_repo_ok main by (simp add: branch_of_plain repo_ok_def ex_repo_files file_hash_written del: as_bytes_str_simps)
  finally have tip: "branch_of ex_repo ?fs ''main'' = Some ZERO" .
  from delete_branch_removes [OF ex_created_file(2) ex_plain run] ex_created_file(1) main tip ex_plain
  show ?thesis
    unfolding run by (simp add: ex_repo_files del: as_bytes_str_simps)
qed

theorem list_branches_top_level_witness:
  "\<exists>ns ns'. list_branches ex_repo ex_repo_fs = Inr ns
    \<and> list_branches ex_repo (snd (create_branch ex_repo ''feature/foo'' ZERO ex_repo_fs)) = Inr ns' \<and> set ns' = set ns"
  using list_branches_top_level [OF ex_repo_ok ex_plain _ ex_create_run] by auto

theorem branch_name_escapes_witness:
  "\<exists>fs'. update_branch ex_repo ''../../index.epi'' ZERO ex_repo_fs = (Inr (), fs')
    \<and> fs_get fs' [''index.epi''] = Some (File (as_bytes_str (to_string ZERO @ newline)))"
  using branch_name_escapes [OF ex_repo_ok, of "[]" ZERO] by (simp only: ex_repo_files append.simps)

theorem delete_head_alias_witness:
  "\<exists>fs'. delete_branch ex_repo ''./main'' ex_repo_fs = (Inr (), fs') \<and> branch_of ex_repo fs' ''main'' = None"
  by (rule delete_head_alias [OF ex_repo_ok]) (simp_all only: ex_repo_files)

lemma ex_set_head: "fst (repo_set_head ''main'' (ex_repo, ex_repo_fs)) = Inr ()"
  by (simp add: repo_set_head_def branch_ref_path_def path_join_def raw_exists_def ex_repo_def ex_repo_fs_def fs_get_def
      fs_exists_def fs_write_def)

theorem head_roundtrip_witness:
  "repo_open [] (snd (snd (repo_set_head ''main'' (ex_repo, ex_repo_fs)))) =
    Inr (fst (snd (repo_set_head ''main'' (ex_repo, ex_repo_fs))))"
proof -
  have "repo_set_head ''main'' (ex_repo, ex_repo_fs) =
      (Inr (), fst (snd (repo_set_head ''main'' (ex_repo, ex_repo_fs))), snd (snd (repo_set_head ''main'' (ex_repo, ex_repo_fs))))"
    using ex_set_head by (metis prod.collapse)
  moreover have "valid_str ''main''"
    by (intro valid_str_ascii) (simp add: ascii_str_def byte_of_char_def)
  moreover have "trim_end ''main'' = ''main''"
    using trim_end_printable [of "CHR ''n''" "[]" "''mai''"]
    by (simp add: printable_def trim_end_def trim_with_id starts_none_Nil)
  ultimately show ?thesis
    using head_roundtrip ex_repo_files by fastforce
qed

end
