(* ===== verification/Dag.thy ===== *)
theory Dag
  imports Commits "HOL-Library.Monad_Syntax"
begin

text \<open>
  Graph algorithms over commit histories (\<open>epochs-core/src/dag/algorithms.rs\<close>). The store they read is
  the argument \<open>gc\<close>, its \<open>get_commit\<close>. A queue is a list, a hash set a set. The loops take fuel: one
  unit per commit taken from the queue; the lemmas say how much is enough.
\<close>

section \<open>The code\<close>

type_synonym 's get_commit = "hash \<Rightarrow> ('s, Commit) op"

fun collect_loop :: "'s get_commit \<Rightarrow> nat \<Rightarrow> hash list \<Rightarrow> hash set \<Rightarrow> ('s, hash set) op" where
  "collect_loop gc 0 queue ancestors s = (Inl OutOfFuel, s)"
| "collect_loop gc (Suc n) [] ancestors s = (Inr ancestors, s)"
| "collect_loop gc (Suc n) (current # queue) ancestors s =
     (if current \<in> ancestors then collect_loop gc n queue ancestors s
      else try_st (gc current) (\<lambda>commit.
             collect_loop gc n (queue @ parents commit) (insert current ancestors)) s)"

definition collect_ancestors :: "'s get_commit \<Rightarrow> nat \<Rightarrow> hash \<Rightarrow> ('s, hash set) op" where
  "collect_ancestors gc n start = collect_loop gc n [start] {}"

text \<open>\<open>if visited.insert(parent) { queue.push_back(...) }\<close> for each parent.\<close>

fun enqueue :: "(hash \<Rightarrow> 'a) \<Rightarrow> hash list \<Rightarrow> 'a list \<times> hash set \<Rightarrow> 'a list \<times> hash set" where
  "enqueue f [] qv = qv"
| "enqueue f (p # ps) (queue, visited) =
     (if p \<in> visited then enqueue f ps (queue, visited)
      else enqueue f ps (queue @ [f p], insert p visited))"

fun merge_loop :: "'s get_commit \<Rightarrow> nat \<Rightarrow> hash set \<Rightarrow> hash list \<Rightarrow> hash set \<Rightarrow> ('s, hash option) op" where
  "merge_loop gc 0 ancestors_a queue visited s = (Inl OutOfFuel, s)"
| "merge_loop gc (Suc n) ancestors_a [] visited s = (Inr None, s)"
| "merge_loop gc (Suc n) ancestors_a (current # queue) visited s =
     (if current \<in> ancestors_a then (Inr (Some current), s)
      else try_st (gc current) (\<lambda>commit.
             case enqueue id (parents commit) (queue, visited) of
               (queue, visited) \<Rightarrow> merge_loop gc n ancestors_a queue visited) s)"

definition merge_base :: "'s get_commit \<Rightarrow> nat \<Rightarrow> hash \<Rightarrow> hash \<Rightarrow> ('s, hash option) op" where
  "merge_base gc n a b =
     (if a = b then lift_st (Inr (Some a))
      else try_st (collect_ancestors gc n a) (\<lambda>ancestors_a. merge_loop gc n ancestors_a [b] {b}))"

definition is_ancestor :: "'s get_commit \<Rightarrow> nat \<Rightarrow> hash \<Rightarrow> hash \<Rightarrow> ('s, bool) op" where
  "is_ancestor gc n anc descendant =
     (if anc = descendant then lift_st (Inr True)
      else try_st (collect_ancestors gc n descendant) (\<lambda>ancestors. lift_st (Inr (anc \<in> ancestors))))"

fun depth_loop :: "'s get_commit \<Rightarrow> nat \<Rightarrow> nat \<Rightarrow> (hash \<times> nat) list \<Rightarrow> hash set \<Rightarrow> hash list
    \<Rightarrow> ('s, hash list) op" where
  "depth_loop gc 0 max_depth queue visited result s = (Inl OutOfFuel, s)"
| "depth_loop gc (Suc n) max_depth [] visited result s = (Inr result, s)"
| "depth_loop gc (Suc n) max_depth ((current, depth) # queue) visited result s =
     (let result = (if depth > 0 then result @ [current] else result) in
      if depth \<ge> max_depth then depth_loop gc n max_depth queue visited result s
      else
        try_st (\<lambda>s. case gc current s of (r, s) \<Rightarrow> (map_err (\<lambda>_. Err (CommitNotFound current)) r, s)) (\<lambda>commit.
          case enqueue (\<lambda>p. (p, depth + 1)) (parents commit) (queue, visited) of
            (queue, visited) \<Rightarrow> depth_loop gc n max_depth queue visited result) s)"

definition ancestors_within_depth :: "'s get_commit \<Rightarrow> nat \<Rightarrow> hash \<Rightarrow> nat \<Rightarrow> ('s, hash list) op" where
  "ancestors_within_depth gc n start max_depth =
     (if max_depth = 0 then lift_st (Inr [])
      else depth_loop gc n max_depth [(start, 0)] {start} [])"

section \<open>Histories\<close>

text \<open>The parent relation of a map of commits, and the commits at a given distance.\<close>

type_synonym history = "hash \<Rightarrow> Commit option"

definition parent_rel :: "history \<Rightarrow> (hash \<times> hash) set" where
  "parent_rel C = {(x, p). \<exists>c. C x = Some c \<and> p \<in> set (parents c)}"

definition ancestors_of :: "history \<Rightarrow> hash \<Rightarrow> hash set" where
  "ancestors_of C x = {y. (x, y) \<in> (parent_rel C)\<^sup>*}"

definition level :: "history \<Rightarrow> hash \<Rightarrow> nat \<Rightarrow> hash set" where
  "level C x n = {y. (x, y) \<in> parent_rel C ^^ n \<and> (\<forall>m < n. (x, y) \<notin> parent_rel C ^^ m)}"

definition up_to :: "history \<Rightarrow> hash \<Rightarrow> nat \<Rightarrow> hash set" where
  "up_to C x n = (\<Union>m \<le> n. level C x m)"

definition complete :: "history \<Rightarrow> hash \<Rightarrow> bool" where
  "complete C x \<longleftrightarrow> finite (ancestors_of C x) \<and> ancestors_of C x \<subseteq> dom C"

definition parents_of :: "history \<Rightarrow> hash \<Rightarrow> hash list" where
  "parents_of C x = (case C x of None \<Rightarrow> [] | Some c \<Rightarrow> parents c)"

text \<open>Enough fuel for a walk over a set of commits: each is entered once per edge that leads to it.\<close>

definition walk_fuel :: "history \<Rightarrow> hash set \<Rightarrow> nat" where
  "walk_fuel C A = (\<Sum>x \<in> A. length (parents_of C x))"

lemma parent_rel_iff: "(x, p) \<in> parent_rel C \<longleftrightarrow> p \<in> set (parents_of C x)"
  by (cases "C x") (simp_all add: parent_rel_def parents_of_def)

lemma ancestors_refl [simp]: "x \<in> ancestors_of C x"
  by (simp add: ancestors_of_def)

lemma ancestors_parent: "y \<in> ancestors_of C x \<Longrightarrow> p \<in> set (parents_of C y) \<Longrightarrow> p \<in> ancestors_of C x"
  by (auto simp: ancestors_of_def parent_rel_iff [symmetric] intro: rtrancl.rtrancl_into_rtrancl)

lemma ancestors_closed:
  assumes "x \<in> S" "\<And>y p. y \<in> S \<Longrightarrow> p \<in> set (parents_of C y) \<Longrightarrow> p \<in> S"
  shows "ancestors_of C x \<subseteq> S"
proof
  fix y
  assume "y \<in> ancestors_of C x"
  then have "(x, y) \<in> (parent_rel C)\<^sup>*"
    by (simp add: ancestors_of_def)
  then show "y \<in> S"
    by induction (use assms parent_rel_iff in auto)
qed

lemma level_0 [simp]: "level C x 0 = {x}"
  by (auto simp: level_def)

lemma level_disjoint: "y \<in> level C x m \<Longrightarrow> y \<in> level C x n \<Longrightarrow> m = n"
  by (auto simp: level_def) (metis linorder_neqE_nat)

lemma rel_pow_level: "(x, y) \<in> parent_rel C ^^ n \<Longrightarrow> \<exists>m \<le> n. y \<in> level C x m"
proof -
  assume n: "(x, y) \<in> parent_rel C ^^ n"
  let ?m = "LEAST m. (x, y) \<in> parent_rel C ^^ m"
  have "y \<in> level C x ?m"
    using LeastI [of "\<lambda>m. (x, y) \<in> parent_rel C ^^ m", OF n] not_less_Least by (auto simp: level_def)
  moreover have "?m \<le> n"
    using n by (rule Least_le)
  ultimately show ?thesis by blast
qed

lemma level_parent:
  assumes "y \<in> level C x n" "p \<in> set (parents_of C y)"
  shows "p \<in> up_to C x (Suc n)"
proof -
  have "(x, p) \<in> parent_rel C ^^ Suc n"
    using assms by (auto simp: level_def parent_rel_iff [symmetric])
  from rel_pow_level [OF this] show ?thesis
    by (auto simp: up_to_def)
qed

lemma level_child:
  assumes "y \<in> level C x (Suc n)"
  obtains z where "z \<in> level C x n" "y \<in> set (parents_of C z)"
proof -
  from assms obtain z where z: "(x, z) \<in> parent_rel C ^^ n" "(z, y) \<in> parent_rel C"
    by (auto simp: level_def)
  then obtain m where m: "m \<le> n" "z \<in> level C x m"
    using rel_pow_level by blast
  have "(x, y) \<in> parent_rel C ^^ Suc m"
    using m(2) z(2) by (auto simp: level_def)
  then have "\<not> m < n"
    using assms by (auto simp: level_def simp del: relpow.simps)
  with m z(2) that show ?thesis
    by (auto simp: parent_rel_iff)
qed

lemma ancestors_levels: "y \<in> ancestors_of C x \<longleftrightarrow> (\<exists>n. y \<in> level C x n)"
  using rel_pow_level by (auto simp: ancestors_of_def rtrancl_power level_def) blast

lemma up_to_Suc: "up_to C x (Suc n) = up_to C x n \<union> level C x (Suc n)"
  by (auto simp: up_to_def le_Suc_eq)

section \<open>Queues\<close>

lemma enqueue_spec:
  "\<exists>new. enqueue f ps (q, V) = (q @ map f new, V \<union> set ps) \<and> set new = set ps - V \<and> distinct new"
proof (induction ps arbitrary: q V)
  case (Cons p ps)
  show ?case
  proof (cases "p \<in> V")
    case True
    with Cons.IH [of q V] show ?thesis by (auto simp: insert_absorb)
  next
    case False
    obtain new where "enqueue f ps (q @ [f p], insert p V) = (q @ map f (p # new), insert p V \<union> set ps)"
      "set new = set ps - insert p V" "distinct new"
      using Cons.IH [of "q @ [f p]" "insert p V"] by auto
    with False show ?thesis
      by (intro exI [of _ "p # new"]) auto
  qed
qed simp

section \<open>Breadth-first search\<close>

text \<open>
  A queue holds the rest \<open>A\<close> of one level and the part \<open>B\<close> of the next level found so far; \<open>V\<close> is
  what has been seen.
\<close>

definition bfs :: "history \<Rightarrow> hash \<Rightarrow> nat \<Rightarrow> hash list \<Rightarrow> hash list \<Rightarrow> hash set \<Rightarrow> bool" where
  "bfs C x d A B V \<longleftrightarrow> set A \<subseteq> level C x d \<and> set B \<subseteq> level C x (Suc d) \<and> distinct A \<and> distinct B
     \<and> V = up_to C x d \<union> set B \<and> (\<forall>y \<in> level C x d - set A. set (parents_of C y) \<subseteq> V)"

lemma up_to_disjoint: "y \<in> up_to C x d \<Longrightarrow> y \<in> level C x (Suc d) \<Longrightarrow> False"
  using level_disjoint by (fastforce simp: up_to_def)

lemma level_up_to: "y \<in> level C x d \<Longrightarrow> y \<in> up_to C x d"
  by (auto simp: up_to_def)

lemma bfs_start: "bfs C x 0 [x] [] {x}"
  by (simp add: bfs_def up_to_def)

lemma bfs_pop:
  assumes "bfs C x d (y # A) B V" "set new = set (parents_of C y) - V" "distinct new"
  shows "bfs C x d A (B @ new) (V \<union> set (parents_of C y))"
proof -
  note b = assms(1) [unfolded bfs_def]
  have y: "y \<in> level C x d" "y \<notin> set A"
    using b by auto
  have "set new \<subseteq> level C x (Suc d)"
    using level_parent [OF y(1)] assms(2) b by (auto simp: up_to_Suc)
  moreover have "V \<union> set (parents_of C y) = up_to C x d \<union> set (B @ new)"
    using b assms(2) by auto
  moreover have "\<forall>z \<in> level C x d - set A. set (parents_of C z) \<subseteq> V \<union> set (parents_of C y)"
    using b by auto
  ultimately show ?thesis
    using b assms(2,3) unfolding bfs_def by auto
qed

lemma bfs_next:
  assumes "bfs C x d [] B V"
  shows "bfs C x (Suc d) B [] V" "up_to C x (Suc d) = V" "set B = level C x (Suc d)"
proof -
  note b = assms [unfolded bfs_def]
  have "level C x (Suc d) \<subseteq> set B"
  proof
    fix z
    assume z: "z \<in> level C x (Suc d)"
    then obtain y where "y \<in> level C x d" "z \<in> set (parents_of C y)"
      by (rule level_child)
    then have "z \<in> V"
      using b by auto
    then show "z \<in> set B"
      using b up_to_disjoint z by blast
  qed
  then show "set B = level C x (Suc d)"
    using b by blast
  then show "bfs C x (Suc d) B [] V" "up_to C x (Suc d) = V"
    using b by (auto simp: bfs_def up_to_Suc)
qed

lemma levels_end: "level C x (Suc d) = {} \<Longrightarrow> level C x (d + Suc n) = {}"
proof (induction n)
  case (Suc n)
  show ?case
  proof (rule equals0I)
    fix y
    assume "y \<in> level C x (d + Suc (Suc n))"
    then obtain z where "z \<in> level C x (d + Suc n)"
      unfolding add_Suc_right [of d "Suc n"] by (rule level_child)
    then show False
      using Suc by simp
  qed
qed simp

lemma ancestors_end:
  assumes "level C x (Suc d) = {}"
  shows "ancestors_of C x = up_to C x d" "d \<le> n \<Longrightarrow> up_to C x n = up_to C x d"
proof -
  have "m \<le> d" if "y \<in> level C x m" for y m
  proof (rule ccontr)
    assume "\<not> m \<le> d"
    then have "m = d + Suc (m - Suc d)" by simp
    then show False
      using levels_end [OF assms, of "m - Suc d"] that by (metis emptyE)
  qed
  then have ex: "y \<in> up_to C x n \<longleftrightarrow> (\<exists>m. y \<in> level C x m)" if "d \<le> n" for y n
    using that by (auto simp: up_to_def intro: le_trans)
  show "ancestors_of C x = up_to C x d"
    by (rule set_eqI) (simp add: ancestors_levels ex)
  show "d \<le> n \<Longrightarrow> up_to C x n = up_to C x d"
    by (rule set_eqI) (simp add: ex)
qed

lemma bfs_subset: "bfs C x d A B V \<Longrightarrow> V \<subseteq> ancestors_of C x" "bfs C x d A B V \<Longrightarrow> set A \<subseteq> ancestors_of C x"
  unfolding bfs_def up_to_def subset_iff ancestors_levels by blast+

text \<open>Popping one commit moves at most its unseen parents into the queue.\<close>

lemma unseen_measure:
  assumes "finite S" "set new = P - V" "distinct new" "P \<subseteq> S"
  shows "length new + card (S - (V \<union> P)) = card (S - V)"
proof -
  have "S - V = set new \<union> (S - (V \<union> P))" "set new \<inter> (S - (V \<union> P)) = {}"
    using assms by auto
  then show ?thesis
    using assms(1,3) card_Un_disjoint [of "set new" "S - (V \<union> P)"] by (simp add: distinct_card)
qed

section \<open>Correctness over a store\<close>

text \<open>Reading a commit returns it, or an error when it is missing, and changes no commit.\<close>

locale commit_store =
  fixes gc :: "'s get_commit"
    and commits :: "'s \<Rightarrow> history"
    and inv :: "'s \<Rightarrow> bool"
  assumes get_commit: "inv s \<Longrightarrow> gc h s = (r, s') \<Longrightarrow>
    inv s' \<and> commits s' = commits s \<and> (case commits s h of Some c \<Rightarrow> r = Inr c | None \<Rightarrow> \<exists>e. r = Inl e)"
begin

lemma get_present:
  assumes "inv s" "commits s = C" "h \<in> dom C"
  obtains c s' where "gc h s = (Inr c, s')" "inv s'" "commits s' = C" "parents c = parents_of C h"
proof -
  obtain r s' where "gc h s = (r, s')"
    by (cases "gc h s")
  with get_commit [OF assms(1) this] assms that show ?thesis
    by (auto simp: parents_of_def split: option.splits)
qed

lemma collect_loop_gen:
  assumes fin: "finite S" and dom: "S \<subseteq> dom C" and cl: "\<And>y p. y \<in> S \<Longrightarrow> p \<in> set (parents_of C y) \<Longrightarrow> p \<in> S"
    and "inv s" "commits s = C" "set q \<union> A \<subseteq> S"
    and "\<And>T. A \<union> set q \<subseteq> T \<Longrightarrow> (\<And>y. y \<in> T \<Longrightarrow> set (parents_of C y) \<subseteq> T) \<Longrightarrow> S \<subseteq> T"
    and "\<And>y. y \<in> A \<Longrightarrow> set (parents_of C y) \<subseteq> A \<union> set q"
    and "length q + walk_fuel C (S - A) < n"
  shows "\<exists>s'. collect_loop gc n q A s = (Inr S, s') \<and> inv s' \<and> commits s' = C"
  using assms(4-)
proof (induction n arbitrary: q A s)
  case (Suc n)
  show ?case
  proof (cases q)
    case Nil
    then have "S \<subseteq> A"
      using Suc.prems(4) [of A] Suc.prems(5) by simp
    then have "A = S"
      using Suc.prems(3) by blast
    then show ?thesis
      using Suc.prems(1,2) Nil by simp
  next
    case (Cons y q')
    show ?thesis
    proof (cases "y \<in> A")
      case True
      have "\<exists>s'. collect_loop gc n q' A s = (Inr S, s') \<and> inv s' \<and> commits s' = C"
      proof (intro Suc.IH)
        show "set q' \<union> A \<subseteq> S" "length q' + walk_fuel C (S - A) < n"
          using Suc.prems(3,6) Cons by auto
        show "S \<subseteq> T" if "A \<union> set q' \<subseteq> T" "\<And>y. y \<in> T \<Longrightarrow> set (parents_of C y) \<subseteq> T" for T
          using Suc.prems(4) [OF _ that(2)] that(1) Cons True by auto
        show "set (parents_of C z) \<subseteq> A \<union> set q'" if "z \<in> A" for z
          using Suc.prems(5) [OF that] Cons True by auto
      qed (fact Suc.prems)+
      then show ?thesis
        using Cons True by simp
    next
      case False
      have y: "y \<in> S"
        using Suc.prems(3) Cons by auto
      then have "y \<in> dom C"
        using dom by auto
      from get_present [OF Suc.prems(1,2) this]
      obtain c s' where c: "gc y s = (Inr c, s')" "inv s'" "commits s' = C" "parents c = parents_of C y" .
      have sum: "walk_fuel C (S - A) = length (parents_of C y) + walk_fuel C (S - insert y A)"
        unfolding walk_fuel_def using y False fin by (subst Diff_insert, intro sum.remove) auto
      have "\<exists>s''. collect_loop gc n (q' @ parents c) (insert y A) s' = (Inr S, s'') \<and> inv s'' \<and> commits s'' = C"
      proof (intro Suc.IH)
        show "set (q' @ parents c) \<union> insert y A \<subseteq> S"
          using Suc.prems(3) Cons y c(4) cl [OF y] by auto
        show "S \<subseteq> T" if "insert y A \<union> set (q' @ parents c) \<subseteq> T" "\<And>y. y \<in> T \<Longrightarrow> set (parents_of C y) \<subseteq> T" for T
          using Suc.prems(4) [OF _ that(2)] that(1) Cons by auto
        show "set (parents_of C z) \<subseteq> insert y A \<union> set (q' @ parents c)" if "z \<in> insert y A" for z
          using Suc.prems(5) [of z] Cons c(4) that by auto
        show "length (q' @ parents c) + walk_fuel C (S - insert y A) < n"
          using Suc.prems(6) Cons c(4) sum by simp
      qed (fact c)+
      then show ?thesis
        using Cons False c(1) by (simp add: try_st_def)
    qed
  qed
qed simp

text \<open>Starting with a closed set \<open>A\<close> of commits already seen, the walk from \<open>x\<close> adds the ancestors of \<open>x\<close>.\<close>

lemma collect_loop_ok:
  assumes x: "complete C x" and A: "finite A" "A \<subseteq> dom C" "\<And>y. y \<in> A \<Longrightarrow> set (parents_of C y) \<subseteq> A"
    and "inv s" "commits s = C" "Suc (walk_fuel C (A \<union> ancestors_of C x)) < n"
  shows "\<exists>s'. collect_loop gc n [x] A s = (Inr (A \<union> ancestors_of C x), s') \<and> inv s' \<and> commits s' = C"
proof (rule collect_loop_gen)
  show "finite (A \<union> ancestors_of C x)" "A \<union> ancestors_of C x \<subseteq> dom C"
    using x A by (auto simp: complete_def)
  show "p \<in> A \<union> ancestors_of C x" if "y \<in> A \<union> ancestors_of C x" "p \<in> set (parents_of C y)" for y p
    using that A(3) [of y] ancestors_parent by auto
  show "A \<union> ancestors_of C x \<subseteq> T" if "A \<union> set [x] \<subseteq> T" "\<And>y. y \<in> T \<Longrightarrow> set (parents_of C y) \<subseteq> T" for T
    using ancestors_closed [of x T C] that by auto
  show "set (parents_of C y) \<subseteq> A \<union> set [x]" if "y \<in> A" for y
    using A(3) [OF that] by auto
  have "walk_fuel C (A \<union> ancestors_of C x - A) \<le> walk_fuel C (A \<union> ancestors_of C x)"
    unfolding walk_fuel_def using x A by (intro sum_mono2) (auto simp: complete_def)
  then show "length [x] + walk_fuel C (A \<union> ancestors_of C x - A) < n"
    using assms(7) by simp
qed (use assms in simp_all)

end

text \<open>
  The commit of \<open>S\<close> nearest to \<open>x\<close>: one at the least distance, or none if no ancestor is in \<open>S\<close>.
\<close>

definition nearest :: "history \<Rightarrow> hash \<Rightarrow> hash set \<Rightarrow> hash option \<Rightarrow> bool" where
  "nearest C x S r \<longleftrightarrow>
     (case r of
        None \<Rightarrow> ancestors_of C x \<inter> S = {}
      | Some m \<Rightarrow> \<exists>k. m \<in> level C x k \<and> m \<in> S \<and> (\<forall>j < k. level C x j \<inter> S = {}))"

lemma nearest_hit:
  assumes "bfs C x d (y # A) B V" "(up_to C x d - set (y # A)) \<inter> S = {}" "y \<in> S"
  shows "nearest C x S (Some y)"
proof -
  have "level C x j \<inter> S = {}" if "j < d" for j
  proof -
    have "z \<notin> set (y # A)" if z: "z \<in> level C x j" for z
    proof
      assume "z \<in> set (y # A)"
      then have "z \<in> level C x d"
        using assms(1) unfolding bfs_def by blast
      then show False
        using level_disjoint [OF z] \<open>j < d\<close> by blast
    qed
    moreover have "level C x j \<subseteq> up_to C x d"
      unfolding up_to_def by (rule UN_upper) (use \<open>j < d\<close> in simp)
    ultimately show ?thesis
      using assms(2) by blast
  qed
  moreover have "y \<in> level C x d"
    using assms(1) by (simp add: bfs_def)
  ultimately show ?thesis
    using assms(3) by (auto simp: nearest_def)
qed

context commit_store
begin

lemma merge_loop_ok:
  assumes "complete C x" "inv s" "commits s = C" "bfs C x d A B V"
    and "(up_to C x d - set A) \<inter> S = {}" "length (A @ B) + card (ancestors_of C x - V) < n"
  shows "\<exists>r s'. merge_loop gc n S (A @ B) V s = (Inr r, s') \<and> nearest C x S r \<and> inv s' \<and> commits s' = C"
  using assms(2-)
proof (induction n arbitrary: s d A B V)
  case (Suc n)
  have pop: "\<exists>r s'. merge_loop gc (Suc n) S (y # A @ B) V s = (Inr r, s') \<and> nearest C x S r \<and> inv s' \<and> commits s' = C"
    if b: "bfs C x d (y # A) B V" and S: "(up_to C x d - set (y # A)) \<inter> S = {}"
      and fuel: "length (y # A @ B) + card (ancestors_of C x - V) < Suc n" for d y A B
  proof (cases "y \<in> S")
    case True
    then show ?thesis
      using nearest_hit [OF b S] Suc.prems(1,2) by simp
  next
    case False
    have y: "y \<in> ancestors_of C x"
      using bfs_subset(2) [OF b] by simp
    then have "y \<in> dom C"
      using assms(1) by (auto simp: complete_def)
    from get_present [OF Suc.prems(1,2) this]
    obtain c s' where c: "gc y s = (Inr c, s')" "inv s'" "commits s' = C" "parents c = parents_of C y" .
    obtain new where new: "enqueue id (parents_of C y) (A @ B, V) = (A @ B @ new, V \<union> set (parents_of C y))"
      "set new = set (parents_of C y) - V" "distinct new"
      using enqueue_spec [of id "parents_of C y" "A @ B" V] by auto
    have "length new + card (ancestors_of C x - (V \<union> set (parents_of C y))) = card (ancestors_of C x - V)"
      using new assms(1) ancestors_parent [OF y] by (intro unseen_measure) (auto simp: complete_def)
    moreover have "(up_to C x d - set A) \<inter> S = {}"
      using S False by auto
    ultimately show ?thesis
      using Suc.IH [OF c(2,3) bfs_pop [OF b new(2,3)]] fuel False c new(1) by (simp add: try_st_def)
  qed
  show ?case
  proof (cases A)
    case (Cons y A')
    then show ?thesis using pop Suc.prems by simp
  next
    case Nil
    note nxt = bfs_next [OF Suc.prems(3) [unfolded Nil]]
    show ?thesis
    proof (cases B)
      case (Cons y B')
      have "(up_to C x (Suc d) - set B) \<inter> S = {}"
        using Suc.prems(4) nxt(3) Nil unfolding up_to_Suc by auto
      then show ?thesis
        using pop [of "Suc d" y B' "[]"] Suc.prems(5) nxt(1) Nil Cons by simp
    next
      case B: Nil
      then have "ancestors_of C x = up_to C x d"
        using nxt(3) by (intro ancestors_end(1)) simp
      then show ?thesis
        using Suc.prems(1,2,4) Nil B by (simp add: nearest_def)
    qed
  qed
qed simp

end

text \<open>The last level is copied to the result without being expanded.\<close>

lemma depth_loop_last:
  "0 < m \<Longrightarrow> length A < n \<Longrightarrow> depth_loop gc n m (map (\<lambda>y. (y, m)) A) V R s = (Inr (R @ A), s)"
proof (induction A arbitrary: n R)
  case Nil
  then show ?case by (cases n) simp_all
next
  case (Cons a A)
  then show ?case by (cases n) simp_all
qed

lemma result_next:
  assumes "bfs C x d [] B V" "set R = up_to C x d - {x}"
  shows "set R = up_to C x (Suc d) - set B - {x}" "x \<notin> set B" "set R \<inter> set B = {}"
proof -
  note B = bfs_next(3) [OF assms(1)]
  have dis: "up_to C x d \<inter> level C x (Suc d) = {}"
    using up_to_disjoint by blast
  then show "set R \<inter> set B = {}" "set R = up_to C x (Suc d) - set B - {x}"
    using assms(2) B by (auto simp: up_to_Suc)
  show "x \<notin> set B"
    using B level_disjoint [of x C x 0 "Suc d"] by auto
qed

lemma result_pop:
  assumes "bfs C x d (y # A) B V" "set R = up_to C x d - set (y # A) - {x}" "distinct R"
  shows "set (if d > 0 then R @ [y] else R) = up_to C x d - set A - {x}"
    and "distinct (if d > 0 then R @ [y] else R)"
proof -
  have y: "y \<in> level C x d" "y \<notin> set A" "y \<in> up_to C x d"
    using assms(1) level_up_to by (auto simp: bfs_def)
  have "d > 0 \<Longrightarrow> y \<noteq> x"
    using y(1) level_disjoint [of x C x 0 d] by auto
  moreover have "d = 0 \<Longrightarrow> y = x \<and> up_to C x d = {x}"
    using y(1) by (auto simp: up_to_def)
  ultimately show "set (if d > 0 then R @ [y] else R) = up_to C x d - set A - {x}"
    "distinct (if d > 0 then R @ [y] else R)"
    using y assms(2,3) by auto
qed

context commit_store
begin

lemma depth_loop_ok:
  assumes fin: "finite (ancestors_of C x)" and pres: "\<And>k. k < m \<Longrightarrow> level C x k \<subseteq> dom C"
    and "inv s" "commits s = C" "bfs C x d A B V" "d < m" "set R = up_to C x d - set A - {x}" "distinct R"
    and "length (A @ B) + card (ancestors_of C x - V) < n"
  shows "\<exists>res s'. depth_loop gc n m (map (\<lambda>y. (y, d)) A @ map (\<lambda>y. (y, Suc d)) B) V R s = (Inr res, s')
    \<and> set res = up_to C x m - {x} \<and> distinct res \<and> inv s' \<and> commits s' = C"
  using assms(3-)
proof (induction n arbitrary: s d A B V R)
  case (Suc n)
  have pop: "\<exists>res s'. depth_loop gc (Suc n) m ((y, d) # map (\<lambda>y. (y, d)) A @ map (\<lambda>y. (y, Suc d)) B) V R s = (Inr res, s')
      \<and> set res = up_to C x m - {x} \<and> distinct res \<and> inv s' \<and> commits s' = C"
    if b: "bfs C x d (y # A) B V" and d: "d < m" and R: "set R = up_to C x d - set (y # A) - {x}" "distinct R"
      and fuel: "length (y # A @ B) + card (ancestors_of C x - V) < Suc n" for d y A B R
  proof -
    have y: "y \<in> ancestors_of C x"
      using bfs_subset(2) [OF b] by simp
    have "y \<in> dom C"
      using pres [OF d] b by (auto simp: bfs_def)
    from get_present [OF Suc.prems(1,2) this]
    obtain c s' where c: "gc y s = (Inr c, s')" "inv s'" "commits s' = C" "parents c = parents_of C y" .
    obtain new where new: "enqueue (\<lambda>p. (p, Suc d)) (parents_of C y) (map (\<lambda>y. (y, d)) A @ map (\<lambda>y. (y, Suc d)) B, V) =
        (map (\<lambda>y. (y, d)) A @ map (\<lambda>y. (y, Suc d)) (B @ new), V \<union> set (parents_of C y))"
      "set new = set (parents_of C y) - V" "distinct new"
      using enqueue_spec [of "\<lambda>p. (p, Suc d)" "parents_of C y" "map (\<lambda>y. (y, d)) A @ map (\<lambda>y. (y, Suc d)) B" V] by auto
    have "length new + card (ancestors_of C x - (V \<union> set (parents_of C y))) = card (ancestors_of C x - V)"
      using new fin ancestors_parent [OF y] by (intro unseen_measure) auto
    then have "length (A @ B @ new) + card (ancestors_of C x - (V \<union> set (parents_of C y))) < n"
      using fuel by simp
    from Suc.IH [OF c(2,3) bfs_pop [OF b new(2,3)] d result_pop [OF b R] this] show ?thesis
      using d c(1,4) new(1) by (simp add: try_st_def)
  qed
  show ?case
  proof (cases A)
    case (Cons y A')
    then show ?thesis using pop [of d y A' B R] Suc.prems(3-7) by simp
  next
    case Nil
    note b = Suc.prems(3) [unfolded Nil]
    have R: "set R = up_to C x d - {x}"
      using Suc.prems(5) Nil by simp
    note nxt = bfs_next [OF b] and rn = result_next [OF b R]
    show ?thesis
    proof (cases B)
      case B: Nil
      then have "up_to C x m = up_to C x d"
        using nxt(3) Suc.prems(4) by (intro ancestors_end(2)) simp_all
      then show ?thesis
        using Suc.prems(1,2,6) R Nil B by simp
    next
      case (Cons y B')
      show ?thesis
      proof (cases "Suc d = m")
        case True
        then have "depth_loop gc (Suc n) m (map (\<lambda>y. (y, Suc d)) B) V R s = (Inr (R @ B), s)"
          using depth_loop_last [of m B "Suc n" gc V R s] Suc.prems(7) Nil by simp
        moreover have "set (R @ B) = up_to C x (Suc d) - {x}"
          using rn(2) R nxt(3) unfolding up_to_Suc by auto
        moreover have "distinct (R @ B)"
          using Suc.prems(6) rn(3) b by (simp add: bfs_def)
        ultimately show ?thesis
          using Suc.prems(1,2) Nil True by simp
      next
        case False
        then show ?thesis
          using pop [of "Suc d" y B' "[]" R] Suc.prems(4,6,7) nxt(1) rn(1) Nil Cons by simp
      qed
    qed
  qed
qed simp

end

section \<open>The algorithms\<close>

definition enough_fuel :: "history \<Rightarrow> hash \<Rightarrow> nat \<Rightarrow> bool" where
  "enough_fuel C x n \<longleftrightarrow> Suc (walk_fuel C (ancestors_of C x)) < n \<and> card (ancestors_of C x) < n"

lemma card_start: "finite (ancestors_of C x) \<Longrightarrow> Suc (card (ancestors_of C x - {x})) = card (ancestors_of C x)"
  by (metis ancestors_refl card_Suc_Diff1)

lemma up_to_0: "up_to C x 0 = {x}"
  by (simp add: up_to_def)

context commit_store
begin

lemma collect_ancestors_ok:
  assumes "complete C x" "inv s" "commits s = C" "enough_fuel C x n"
  shows "\<exists>s'. collect_ancestors gc n x s = (Inr (ancestors_of C x), s') \<and> inv s' \<and> commits s' = C"
  unfolding collect_ancestors_def
  using collect_loop_ok [of C x "{}" s n] assms by (simp add: enough_fuel_def)

lemma is_ancestor_ok:
  assumes "complete C y" "inv s" "commits s = C" "enough_fuel C y n"
  shows "\<exists>s'. is_ancestor gc n x y s = (Inr (x \<in> ancestors_of C y), s') \<and> inv s' \<and> commits s' = C"
  using collect_ancestors_ok [OF assms] assms(2,3) by (auto simp: is_ancestor_def try_st_def)

lemma merge_base_ok:
  assumes "complete C a" "complete C b" "inv s" "commits s = C" "enough_fuel C a n" "enough_fuel C b n"
  shows "\<exists>r s'. merge_base gc n a b s = (Inr r, s') \<and> nearest C b (ancestors_of C a) r \<and> inv s' \<and> commits s' = C"
proof (cases "a = b")
  case True
  have "nearest C b (ancestors_of C b) (Some b)"
    unfolding nearest_def option.case by (rule exI [of _ 0]) simp
  with True assms(3,4) show ?thesis by (simp add: merge_base_def)
next
  case False
  obtain s1 where s1: "collect_ancestors gc n a s = (Inr (ancestors_of C a), s1)" "inv s1" "commits s1 = C"
    using collect_ancestors_ok [OF assms(1,3,4,5)] by blast
  have "length ([b] @ []) + card (ancestors_of C b - {b}) < n"
    using assms(2,6) card_start [of C b] by (simp add: complete_def enough_fuel_def)
  moreover have "(up_to C b 0 - set [b]) \<inter> ancestors_of C a = {}"
    by (simp add: up_to_0)
  ultimately have "\<exists>r s'. merge_loop gc n (ancestors_of C a) ([b] @ []) {b} s1 = (Inr r, s')
      \<and> nearest C b (ancestors_of C a) r \<and> inv s' \<and> commits s' = C"
    using merge_loop_ok [OF assms(2) s1(2,3) bfs_start] by blast
  then show ?thesis
    using s1(1) False by (simp add: merge_base_def try_st_def)
qed

lemma within_depth_ok:
  assumes "finite (ancestors_of C x)" "\<And>k. k < m \<Longrightarrow> level C x k \<subseteq> dom C" "inv s" "commits s = C"
    and "card (ancestors_of C x) < n"
  shows "\<exists>res s'. ancestors_within_depth gc n x m s = (Inr res, s') \<and> set res = up_to C x m - {x}
    \<and> distinct res \<and> inv s' \<and> commits s' = C"
proof (cases "m = 0")
  case True
  then show ?thesis
    using assms(3,4) by (simp add: ancestors_within_depth_def up_to_0)
next
  case False
  have "length ([x] @ []) + card (ancestors_of C x - {x}) < n"
    using assms(1,5) card_start [of C x] by simp
  then show ?thesis
    using depth_loop_ok [OF assms(1,2,3,4) bfs_start, of m "[]" n] False
    by (simp add: ancestors_within_depth_def up_to_0)
qed

text \<open>A missing ancestor makes the walk fail: it is never skipped.\<close>

lemma collect_loop_missing:
  assumes "inv s" "commits s = C" "\<And>y. y \<in> A \<Longrightarrow> y \<in> dom C \<and> set (parents_of C y) \<subseteq> A \<union> set q"
    and "collect_loop gc n q A s = (Inr S, s')"
  shows "S \<subseteq> dom C \<and> A \<union> set q \<subseteq> S \<and> (\<forall>y \<in> S. set (parents_of C y) \<subseteq> S)"
  using assms
proof (induction n arbitrary: q A s)
  case (Suc n)
  show ?case
  proof (cases q)
    case Nil
    then show ?thesis using Suc.prems by auto
  next
    case (Cons y q')
    show ?thesis
    proof (cases "y \<in> A")
      case True
      have "\<And>z. z \<in> A \<Longrightarrow> z \<in> dom C \<and> set (parents_of C z) \<subseteq> A \<union> set q'"
        using Suc.prems(3) Cons True by auto
      from Suc.IH [OF Suc.prems(1,2) this] show ?thesis
        using Suc.prems(4) Cons True by auto
    next
      case False
      obtain r s1 where g: "gc y s = (r, s1)" by (cases "gc y s")
      note g' = get_commit [OF Suc.prems(1) g]
      obtain c where c: "C y = Some c" "r = Inr c"
        using g' Suc.prems(2,4) Cons False g by (cases "C y") (auto simp: try_st_def)
      have "\<And>z. z \<in> insert y A \<Longrightarrow> z \<in> dom C \<and> set (parents_of C z) \<subseteq> insert y A \<union> set (q' @ parents c)"
        using Suc.prems(3) Cons c(1) by (auto simp: parents_of_def)
      from Suc.IH [OF _ _ this, of s1] show ?thesis
        using Suc.prems(2,4) Cons False g g' c by (simp add: try_st_def)
    qed
  qed
qed simp

lemma collect_ancestors_complete:
  assumes "inv s" "commits s = C" "collect_ancestors gc n x s = (Inr S, s')"
  shows "ancestors_of C x \<subseteq> dom C"
proof -
  have "S \<subseteq> dom C \<and> {} \<union> set [x] \<subseteq> S \<and> (\<forall>y \<in> S. set (parents_of C y) \<subseteq> S)"
    using assms(3) unfolding collect_ancestors_def by (intro collect_loop_missing [OF assms(1,2)]) simp_all
  then show ?thesis
    using ancestors_closed [of x S C] by auto
qed

end

end
