(* ===== verification/Disk_Store.thy ===== *)
theory Disk_Store
  imports Repo Dag
begin

text \<open>
  The versioned store (\<open>epochs-core/src/store/disk.rs\<close>, implementing the trait of
  \<open>epochs-core/src/store/dag.rs\<close>): branches, objects, tries and commits put together. The file system
  is the one in the object store's state. \<open>next_timestamp\<close> counts in a static variable of the process,
  which is a field of the state here. Operations on tries and on histories take fuel, as the functions
  they call do.
\<close>

section \<open>State\<close>

definition COMMIT_CACHE_CAP :: nat where
  "COMMIT_CACHE_CAP = 4096"

datatype HamtOp = Put bytes bytes

record DiskStore =
  ds_repo :: Repo
  ds_cas :: CasStore
  commit_cache :: "(hash, Commit) LruMap"
  fsync_every :: u32
  commits_since_fsync :: u32
  ts_counter :: u64

definition on_cas :: "(CasStore, 'a) op \<Rightarrow> (DiskStore, 'a) op" where
  "on_cas f s = (case f (ds_cas s) of (r, c) \<Rightarrow> (r, s\<lparr>ds_cas := c\<rparr>))"

definition ds_fs :: "DiskStore \<Rightarrow> Fs" where
  "ds_fs s = cas_fs (ds_cas s)"

definition on_fs :: "(Fs, 'a) op \<Rightarrow> (DiskStore, 'a) op" where
  "on_fs f s = (case f (ds_fs s) of (r, fs) \<Rightarrow> (r, s\<lparr>ds_cas := (ds_cas s)\<lparr>cas_fs := fs\<rparr>\<rparr>))"

section \<open>Time\<close>

definition now_millis :: "Fs \<Rightarrow> u64" where
  "now_millis fs = fs_clock fs"

definition next_timestamp :: "DiskStore \<Rightarrow> u64 \<times> DiskStore" where
  "next_timestamp s =
     (let n = ts_counter s in
      if n = 0 then
        (let n = now_millis (ds_fs s) in (n, s\<lparr>ts_counter := n + 1\<rparr>))
      else (n, s\<lparr>ts_counter := n + 1\<rparr>))"

section \<open>Opening and configuring\<close>

definition disk_store :: "Repo \<Rightarrow> CasStore \<Rightarrow> u64 \<Rightarrow> DiskStore" where
  "disk_store repo cas ts =
     \<lparr>ds_repo = repo, ds_cas = cas, commit_cache = lru_new COMMIT_CACHE_CAP, fsync_every = 1,
      commits_since_fsync = 0, ts_counter = ts\<rparr>"

definition disk_open :: "path \<Rightarrow> u64 \<Rightarrow> (Fs, DiskStore) op" where
  "disk_open rp ts fs =
     try_st (lift_st (repo_open rp fs)) (\<lambda>repo.
     try_st (cas_open rp) (\<lambda>cas.
     lift_st (Inr (disk_store repo cas ts)))) fs"

definition set_fsync_every :: "u32 \<Rightarrow> DiskStore \<Rightarrow> DiskStore" where
  "set_fsync_every n s = s\<lparr>fsync_every := max n 1\<rparr>"

definition configure_caches :: "nat \<Rightarrow> nat \<Rightarrow> nat \<Rightarrow> DiskStore \<Rightarrow> DiskStore" where
  "configure_caches object_cap commit_cap mmap_segments s =
     s\<lparr>ds_cas := set_mmap_cap mmap_segments (set_object_cache_cap object_cap (ds_cas s)),
       commit_cache := lru_new commit_cap\<rparr>"

definition ds_flush :: "DiskStore \<Rightarrow> DiskStore" where
  "ds_flush s = s\<lparr>ds_cas := cas_flush (ds_cas s), commits_since_fsync := 0\<rparr>"

definition get_object :: "hasher \<Rightarrow> mmap \<Rightarrow> hash \<Rightarrow> (DiskStore, RecordType \<times> bytes) op" where
  "get_object H M h = on_cas (get_payload H M h)"

definition ds_path :: "DiskStore \<Rightarrow> path" where
  "ds_path s = repo_root (ds_repo s)"

definition write_genesis :: "hasher \<Rightarrow> string \<Rightarrow> (CasStore, hash) op" where
  "write_genesis H msg cas =
     try_st (cas_store_put H Commit (encode_payload (commit_new [] ZERO (now_millis (cas_fs cas)) msg)))
       (\<lambda>h cas. (Inr h, cas_flush cas)) cas"

definition disk_init :: "hasher \<Rightarrow> path \<Rightarrow> string \<Rightarrow> string \<Rightarrow> u64 \<Rightarrow> (Fs, DiskStore \<times> hash) op" where
  "disk_init H rp default_branch msg ts =
     try_st (repo_init rp) (\<lambda>repo.
     try_st (cas_open rp) (\<lambda>cas _.
       (case write_genesis H msg cas of
          (Inl e, cas) \<Rightarrow> (Inl e, cas_fs cas)
        | (Inr h, cas) \<Rightarrow>
            try_st (create_branch repo default_branch h) (\<lambda>_ fs.
              (case repo_set_head default_branch (repo, fs) of
                 (Inl e, _, fs) \<Rightarrow> (Inl e, fs)
               | (Inr _, repo, fs) \<Rightarrow> (Inr (disk_store repo (cas\<lparr>cas_fs := fs\<rparr>) ts, h), fs))) (cas_fs cas))))"

section \<open>Branches\<close>

definition get_branch :: "string \<Rightarrow> DiskStore \<Rightarrow> Branch res" where
  "get_branch name s = read_branch (ds_repo s) name (ds_fs s)"

definition ds_create_branch :: "string \<Rightarrow> hash \<Rightarrow> (DiskStore, unit) op" where
  "ds_create_branch name target s =
     (if \<not> cas_contains (ds_cas s) target then (Inl (Err (CommitNotFound target)), s)
      else on_fs (create_branch (ds_repo s) name target) s)"

definition ds_update_branch :: "string \<Rightarrow> hash \<Rightarrow> (DiskStore, unit) op" where
  "ds_update_branch name target s =
     (if \<not> cas_contains (ds_cas s) target then (Inl (Err (CommitNotFound target)), s)
      else on_fs (update_branch (ds_repo s) name target) s)"

definition advance_branch :: "string \<Rightarrow> hash \<Rightarrow> (DiskStore, unit) op" where
  "advance_branch name commit = ds_update_branch name commit"

definition ds_delete_branch :: "string \<Rightarrow> (DiskStore, unit) op" where
  "ds_delete_branch name s = on_fs (delete_branch (ds_repo s) name) s"

definition ds_list_branches :: "DiskStore \<Rightarrow> (string list) res" where
  "ds_list_branches s = list_branches (ds_repo s) (ds_fs s)"

definition ds_set_head :: "string \<Rightarrow> (DiskStore, unit) op" where
  "ds_set_head name s =
     (case repo_set_head name (ds_repo s, ds_fs s) of
        (r, repo, fs) \<Rightarrow> (r, s\<lparr>ds_repo := repo, ds_cas := (ds_cas s)\<lparr>cas_fs := fs\<rparr>\<rparr>))"

definition ds_head :: "DiskStore \<Rightarrow> (Branch option) res" where
  "ds_head s =
     (case head_branch (ds_repo s) of
        Some name \<Rightarrow> try_res (get_branch name s) (\<lambda>b. Inr (Some b))
      | None \<Rightarrow> Inr None)"

section \<open>Commits\<close>

definition load_commit :: "hasher \<Rightarrow> mmap \<Rightarrow> hash \<Rightarrow> (DiskStore, Commit) op" where
  "load_commit H M h s =
     (case lru_get (commit_cache s) h of
        Some c \<Rightarrow> (Inr c, s)
      | None \<Rightarrow>
          try_st (on_cas (cas_get_record_full H M h)) (\<lambda>record.
            if record_type record \<noteq> Commit then lift_st (Inl (Err (Codec ''hash is not a commit'')))
            else try_st (lift_st (decode_payload (payload record))) (\<lambda>c s.
              (Inr c, s\<lparr>commit_cache := lru_insert h c (commit_cache s)\<rparr>))) s)"

definition persist_commit :: "hasher \<Rightarrow> Commit \<Rightarrow> (DiskStore, hash) op" where
  "persist_commit H c =
     try_st (on_cas (cas_store_put H Commit (encode_payload c))) (\<lambda>h s.
       (let s = s\<lparr>commit_cache := lru_insert h c (commit_cache s),
                  commits_since_fsync := commits_since_fsync s + 1\<rparr> in
        (Inr h, if commits_since_fsync s \<ge> fsync_every s
                then s\<lparr>ds_cas := cas_flush (ds_cas s), commits_since_fsync := 0\<rparr> else s)))"

fun missing_parent :: "CasStore \<Rightarrow> hash list \<Rightarrow> hash option" where
  "missing_parent cas [] = None"
| "missing_parent cas (p # ps) = (if \<not> cas_contains cas p then Some p else missing_parent cas ps)"

definition commit_with_root :: "hasher \<Rightarrow> hash list \<Rightarrow> hash \<Rightarrow> string \<Rightarrow> (DiskStore, hash) op" where
  "commit_with_root H ps root msg s =
     (case missing_parent (ds_cas s) ps of
        Some p \<Rightarrow> (Inl (Err (InvalidCommit (''parent not found: '' @ to_string p))), s)
      | None \<Rightarrow>
          (case next_timestamp s of (ts, s) \<Rightarrow> persist_commit H (commit_new ps root ts msg) s))"

definition ds_commit_with_indexes :: "hasher \<Rightarrow> hash list \<Rightarrow> hash \<Rightarrow> (string \<times> hash) list \<Rightarrow> string
    \<Rightarrow> (DiskStore, hash) op" where
  "ds_commit_with_indexes H ps root idx msg s =
     (case missing_parent (ds_cas s) ps of
        Some p \<Rightarrow> (Inl (Err (InvalidCommit (''parent not found: '' @ to_string p))), s)
      | None \<Rightarrow> persist_commit H (commit_with_indexes ps root (now_millis (ds_fs s)) msg idx) s)"

section \<open>Tries\<close>

text \<open>One step of the loop over the operations: the zero hash stands for the empty trie.\<close>

definition hamt_base :: "hash option \<Rightarrow> hash option" where
  "hamt_base root = (if root = Some ZERO then None else root)"

fun put_ops :: "hasher \<Rightarrow> mmap \<Rightarrow> nat \<Rightarrow> hash option \<Rightarrow> HamtOp list \<Rightarrow> (DiskStore, hash option) op" where
  "put_ops H M n root [] = lift_st (Inr root)"
| "put_ops H M n root (Put key val # ops) =
     try_st (on_cas (hamt_insert H (store_backend H M) n (hamt_base root) key val)) (\<lambda>h.
     put_ops H M n (Some h) ops)"

definition unwrap_or_zero :: "hash option \<Rightarrow> hash" where
  "unwrap_or_zero root = (case root of None \<Rightarrow> ZERO | Some h \<Rightarrow> h)"

definition apply_hamt_ops :: "hasher \<Rightarrow> mmap \<Rightarrow> nat \<Rightarrow> hash option \<Rightarrow> HamtOp list \<Rightarrow> (DiskStore, hash) op" where
  "apply_hamt_ops H M n root ops =
     try_st (put_ops H M n root ops) (\<lambda>r. lift_st (Inr (unwrap_or_zero r)))"

definition ds_commit :: "hasher \<Rightarrow> mmap \<Rightarrow> nat \<Rightarrow> hash list \<Rightarrow> hash option \<Rightarrow> HamtOp list \<Rightarrow> string
    \<Rightarrow> (DiskStore, hash) op" where
  "ds_commit H M n ps root ops msg =
     try_st (put_ops H M n root ops) (\<lambda>r. commit_with_root H ps (unwrap_or_zero r) msg)"

definition ds_get :: "hasher \<Rightarrow> mmap \<Rightarrow> nat \<Rightarrow> hash \<Rightarrow> bytes \<Rightarrow> (DiskStore, bytes option) op" where
  "ds_get H M n root key =
     (if root = ZERO then lift_st (Inr None)
      else on_cas (hamt_get H (store_backend H M) n (Some root) key))"

definition ds_hamt_leaf_hash :: "hasher \<Rightarrow> mmap \<Rightarrow> nat \<Rightarrow> hash \<Rightarrow> bytes \<Rightarrow> (DiskStore, hash option) op" where
  "ds_hamt_leaf_hash H M n root key =
     (if root = ZERO then lift_st (Inr None)
      else on_cas (hamt_leaf_hash H (store_backend H M) n (Some root) key))"

definition ds_hamt_entries :: "hasher \<Rightarrow> mmap \<Rightarrow> nat \<Rightarrow> hash \<Rightarrow> (DiskStore, (bytes \<times> bytes) list) op" where
  "ds_hamt_entries H M n root =
     (if root = ZERO then lift_st (Inr []) else on_cas (hamt_entries (store_backend H M) n (Some root)))"

definition index_put :: "hasher \<Rightarrow> mmap \<Rightarrow> nat \<Rightarrow> hash option \<Rightarrow> bytes \<Rightarrow> bytes \<Rightarrow> (DiskStore, hash) op" where
  "index_put H M n root key val = on_cas (hamt_insert H (store_backend H M) n root key val)"

definition index_remove :: "hasher \<Rightarrow> mmap \<Rightarrow> nat \<Rightarrow> hash option \<Rightarrow> bytes \<Rightarrow> (DiskStore, hash option) op" where
  "index_remove H M n root key = on_cas (hamt_remove H (store_backend H M) n root key)"

definition ds_index_get :: "hasher \<Rightarrow> mmap \<Rightarrow> nat \<Rightarrow> hash \<Rightarrow> bytes \<Rightarrow> (DiskStore, bytes option) op" where
  "ds_index_get H M n root key =
     (if root = ZERO then lift_st (Inr None)
      else on_cas (hamt_get H (store_backend H M) n (Some root) key))"

section \<open>Resolving names\<close>

definition resolve_hash_ref :: "string \<Rightarrow> DiskStore \<Rightarrow> hash res" where
  "resolve_hash_ref hex s =
     (if length hex = 64 then
        try_res (from_hex hex) (\<lambda>h.
          if cas_contains (ds_cas s) h then Inr h else Inl (Err (CommitNotFound h)))
      else
        (case cas_find_by_prefix (ds_cas s) hex of
           [] \<Rightarrow> Inl (Err (InvalidTarget (''no object matches prefix '' @ [CHR 0x27] @ hex @ [CHR 0x27])))
         | [h] \<Rightarrow> Inr h
         | hs \<Rightarrow> Inl (Err (InvalidTarget (''ambiguous hash prefix '' @ [CHR 0x27] @ hex @ [CHR 0x27] @ '' (''
                   @ show_nat (length hs) @ '' matches)'')))))"

definition resolve_target :: "string \<Rightarrow> DiskStore \<Rightarrow> hash res" where
  "resolve_target target s =
     (if eq_ignore_ascii_case target ''HEAD'' then
        try_res (ds_head s) (\<lambda>head.
          case head of
            None \<Rightarrow> Inl (Err (InvalidTarget ''HEAD not set''))
          | Some b \<Rightarrow> Inr (branch_target b))
      else
        (case read_branch (ds_repo s) target (ds_fs s) of
           Inr b \<Rightarrow> Inr (branch_target b)
         | Inl _ \<Rightarrow> resolve_hash_ref target s))"

definition checkout :: "hasher \<Rightarrow> mmap \<Rightarrow> string \<Rightarrow> (DiskStore, Commit) op" where
  "checkout H M target s =
     try_st (lift_st (resolve_target target s)) (\<lambda>h. load_commit H M h) s"

section \<open>Walking histories\<close>

fun reachable_from :: "hasher \<Rightarrow> mmap \<Rightarrow> nat \<Rightarrow> string list \<Rightarrow> hash set \<Rightarrow> (DiskStore, hash set) op" where
  "reachable_from H M n [] seen s = (Inr seen, s)"
| "reachable_from H M n (name # names) seen s =
     try_st (lift_st (get_branch name s)) (\<lambda>b.
     try_st (collect_loop (load_commit H M) n [branch_target b] seen) (\<lambda>seen.
     reachable_from H M n names seen)) s"

definition reachable_commits :: "hasher \<Rightarrow> mmap \<Rightarrow> nat \<Rightarrow> (DiskStore, hash set) op" where
  "reachable_commits H M n s =
     try_st (lift_st (ds_list_branches s)) (\<lambda>names. reachable_from H M n names {}) s"

text \<open>\<open>iter\<close> is the order in which a hash set is iterated.\<close>

fun add_children :: "hash \<Rightarrow> hash list \<Rightarrow> (hash \<times> hash list) list \<Rightarrow> (hash \<times> hash list) list" where
  "add_children h [] m = m"
| "add_children h (p # ps) m =
     add_children h ps (AList.update p ((case map_of m p of None \<Rightarrow> [] | Some cs \<Rightarrow> cs) @ [h]) m)"

fun children_of :: "hasher \<Rightarrow> mmap \<Rightarrow> hash list \<Rightarrow> (hash \<times> hash list) list
    \<Rightarrow> (DiskStore, (hash \<times> hash list) list) op" where
  "children_of H M [] m s = (Inr m, s)"
| "children_of H M (h # hs) m s =
     try_st (load_commit H M h) (\<lambda>c. children_of H M hs (add_children h (parents c) m)) s"

definition children_map :: "hasher \<Rightarrow> mmap \<Rightarrow> (hash set \<Rightarrow> hash list) \<Rightarrow> nat
    \<Rightarrow> (DiskStore, (hash \<times> hash list) list) op" where
  "children_map H M iter n =
     try_st (reachable_commits H M n) (\<lambda>commits. children_of H M (iter commits) [])"

end
