(* ===== verification/Disk_Frame.thy ===== *)
theory Disk_Frame
  imports Repo
begin

text \<open>
  What the object store leaves alone: it writes only its index and its segments, and keeps the file
  system a tree. The contract of an object store is interpreted a second time with this frame in the
  invariant, so that every operation on tries inherits it.
\<close>

section \<open>Outside the store's files\<close>

definition outside :: "path \<Rightarrow> path \<Rightarrow> bool" where
  "outside rp q \<longleftrightarrow> q \<noteq> rp @ [''index.epi''] \<and> (\<forall>c. q \<noteq> rp @ [''data'', c])"

definition framed :: "Fs \<Rightarrow> path \<Rightarrow> CasStore \<Rightarrow> bool" where
  "framed fs0 rp s \<longleftrightarrow> repo_path s = rp \<and> fs_tree (cas_fs s)
     \<and> (\<forall>q. outside rp q \<longrightarrow> fs_get (cas_fs s) q = fs_get fs0 q)"

lemma outside_index [simp]: "\<not> outside rp (rp @ [''index.epi''])"
  by (simp add: outside_def)

lemma outside_segment [simp]: "\<not> outside rp (segment_path_for rp i)"
  by (auto simp: outside_def segment_path_for_def)

lemma fs_tree_append:
  assumes "fs_tree fs"
  shows "fs_tree (fs_append p b fs)"
proof (cases "fs_get fs p")
  case (Some n)
  then show ?thesis
  proof (cases n)
    case (File c)
    then have "p \<noteq> []"
      using Some by (auto simp: fs_get_def)
    moreover have "fs_get fs (butlast p) = Some Dir"
      using assms Some calculation by (simp add: fs_tree_def fs_exists_def)
    ultimately show ?thesis
      using Some File assms by (simp add: fs_append_def fs_tree_set)
  qed (simp add: assms fs_append_def)
qed (simp add: assms fs_append_def)

lemma bw_tree:
  assumes "fs_tree (snd ws)"
  shows "fs_tree (snd (bw_flush ws))" "fs_tree (snd (bw_write_all b ws))"
  using assms by (cases ws; auto simp: bw_write_all_def bw_flush_def Let_def fs_tree_append)+

lemma framed_cong:
  assumes "framed fs0 rp s" "fs_nodes (cas_fs s') = fs_nodes (cas_fs s)" "repo_path s' = repo_path s"
  shows "framed fs0 rp s'"
proof -
  have "fs_get (cas_fs s') = fs_get (cas_fs s)"
    by (simp add: fs_get_def fun_eq_iff assms(2))
  then show ?thesis
    using assms by (simp add: framed_def fs_tree_def fs_ok_def fs_exists_def)
qed

lemma framed_same_fs:
  "framed fs0 rp s \<Longrightarrow> cas_fs s' = cas_fs s \<Longrightarrow> repo_path s' = repo_path s \<Longrightarrow> framed fs0 rp s'"
  by (simp add: framed_def)

lemma framed_append:
  assumes "framed fs0 rp s" "\<not> outside rp p" "cas_fs s' = fs_append p b (cas_fs s)" "repo_path s' = repo_path s"
  shows "framed fs0 rp s'"
proof -
  have "fs_get (fs_append p b (cas_fs s)) q = fs_get (cas_fs s) q" if "outside rp q" for q
    using that assms(2) by (auto simp: fs_get_append split: option.splits node.splits)
  then show ?thesis
    using assms by (simp add: framed_def fs_tree_append)
qed

section \<open>The operations of the store\<close>

lemma framed_flush_writer:
  assumes "framed fs0 rp s" "layout_ok s"
  shows "framed fs0 rp (flush_writer s)"
  using assms by (intro framed_append [OF assms(1), of "bw_path (current_file s)" _ "bw_buf (current_file s)"])
    (simp_all add: flush_writer_fs layout_ok_def framed_def)

lemma framed_cas_flush:
  assumes "framed fs0 rp s" "layout_ok s"
  shows "framed fs0 rp (cas_flush s)"
  by (rule framed_cong [OF framed_flush_writer [OF assms]]) (simp_all add: cas_flush_def index_flush_def Let_def)

lemma framed_rotate:
  assumes fr: "framed fs0 rp s" and inv: "cas_inv H s" and run: "rotate_segment s = (r, s')"
  shows "framed fs0 rp s'"
proof -
  let ?s = "cas_flush s" and ?sid = "current_segment_id s + 1"
  let ?p = "segment_path_for rp ?sid"
  have lay: "layout_ok s"
    using inv by (rule cas_invD(1))
  have fl: "framed fs0 rp ?s"
    using fr lay by (rule framed_cas_flush)
  have rp: "repo_path ?s = rp" "current_segment_id ?s = current_segment_id s" "repo_path s = rp"
    using fr by (simp_all add: framed_def)
  show ?thesis
  proof (cases "current_segment_id s = 0xFFFF")
    case True
    then show ?thesis
      using run fl rp by (simp add: rotate_segment_def)
  next
    case False
    obtain fs1 where none: "\<not> fs_exists (cas_fs ?s) ?p"
      and op: "open_or_create_segment ?p ?sid (cas_fs ?s) = (Inr SEGMENT_HEADER_LEN, fs1)"
      and s': "rotate_segment s = (Inr (), ?s\<lparr>cas_fs := fs1, current_segment_id := ?sid,
          current_file := bw_with_capacity SEGMENT_BUF_BYTES ?p, current_offset := SEGMENT_HEADER_LEN\<rparr>)"
      by (rule rotate_creates [OF inv False, unfolded rp(3)])
    have "is_dir_path (cas_fs ?s) (repo_path ?s @ [''data''])"
      using cas_invD(1) [OF cas_flush_inv(1) [OF inv]] unfolding layout_ok_def by blast
    then have dir: "fs_get (cas_fs ?s) (rp @ [''data'']) = Some Dir"
      unfolding rp(1) by (rule dir_path_last)
    have fs1: "fs1 = fs_sync ?p (fs_append ?p (encode_segment_header (ucast ?sid) (fs_clock (cas_fs ?s) div 1000))
        (fs_set ?p (File []) (cas_fs ?s)))"
      using op none dir by (simp add: open_or_create_segment_def fs_open_append_def fs_exists_def try_st_def)
    have "framed fs0 rp (?s\<lparr>cas_fs := fs_set ?p (File []) (cas_fs ?s)\<rparr>)"
      using fl none fs_tree_set [of "cas_fs ?s" ?p] dir
      by (auto simp: framed_def fs_get_set fs_exists_def simp del: cas_flush_simps(7))
    then have "framed fs0 rp (?s\<lparr>cas_fs := fs_append ?p (encode_segment_header (ucast ?sid)
        (fs_clock (cas_fs ?s) div 1000)) (fs_set ?p (File []) (cas_fs ?s))\<rparr>)"
      by (rule framed_append [where p = ?p]) simp_all
    moreover have "cas_fs s' = fs1" "repo_path s' = repo_path ?s"
      using run s' by auto
    ultimately show ?thesis
      by (elim framed_cong) (simp_all add: fs1)
  qed
qed

lemma framed_put:
  assumes fr: "framed fs0 rp s" and inv: "cas_inv H s" and run: "cas_store_put H ty p s = (r, s')"
  shows "framed fs0 rp s'"
proof (cases "index_contains (cas_index s) (H p)")
  case True
  then show ?thesis using fr run by (simp add: cas_store_put_def)
next
  case False
  obtain r1 s1 where en: "ensure_segment_capacity (41 + length p + 4) s = (r1, s1)"
    by (cases "ensure_segment_capacity (41 + length p + 4) s")
  have fr1: "framed fs0 rp s1"
    using framed_rotate [OF fr inv] fr en by (auto simp: ensure_segment_capacity_def split: if_splits)
  note c = ensure_capacity_spec [OF inv en]
  show ?thesis
  proof (cases r1)
    case (Inl e)
    then show ?thesis
      using run en False fr1 by (auto simp: cas_store_put_def try_st_def)
  next
    case (Inr u)
    let ?rec = "encode_record ty p (H p)"
    obtain w fs1 where wr: "bw_write_all ?rec (current_file s1, cas_fs s1) = (w, fs1)"
      by (cases "bw_write_all ?rec (current_file s1, cas_fs s1)")
    have s': "s' = append_record ty p (H p) s1"
      using run en False Inr by (auto simp: cas_store_put_def try_st_def Let_def)
    have lay: "layout_ok s1" "\<not> index_contains (cas_index s1) (H p)"
      using c cas_invD(1) False by auto
    have path: "bw_path (current_file s1) = segment_path_for rp (current_segment_id s1)" "idx_file (cas_index s1) = rp @ [''index.epi'']"
      using lay(1) fr1 by (simp_all add: layout_ok_def framed_def)
    have "fs_tree fs1"
      using bw_tree(2) [of "(current_file s1, cas_fs s1)" ?rec] fr1 wr by (simp add: framed_def)
    moreover have "fs_get fs1 q = fs_get (cas_fs s1) q" if "outside rp q" for q
    proof -
      have "q \<noteq> segment_path_for rp (current_segment_id s1)"
        using that by auto
      then show ?thesis
        using bw_other_file(2) [of q "(current_file s1, cas_fs s1)" ?rec] wr path by simp
    qed
    ultimately have "framed fs0 rp (s1\<lparr>cas_fs := fs1\<rparr>)"
      using fr1 by (simp add: framed_def)
    then show ?thesis
      by (rule framed_append [where p = "rp @ [''index.epi'']"])
        (simp_all add: s' append_record_unfold [OF wr lay(2)] path)
  qed
qed

lemma framed_get:
  assumes fr: "framed fs0 rp s" and inv: "cas_inv H s" and run: "get_payload H M h s = (r, s')"
  shows "framed fs0 rp s'"
proof -
  let ?f = "\<lambda>s e. if segment_id e = current_segment_id s then flush_writer s else s"
  have mm: "cas_fs (snd (ensure_mmap M i s)) = cas_fs s \<and> repo_path (snd (ensure_mmap M i s)) = repo_path s" for i s
    by (auto simp: ensure_mmap_def split: option.splits sum.splits)
  have rd: "cas_fs (snd (read_record_bytes M e s)) = cas_fs (?f s e)
      \<and> repo_path (snd (read_record_bytes M e s)) = repo_path (?f s e)" for e
    using mm [of "segment_id e" "?f s e"]
    by (auto simp: read_record_bytes_def read_segment_def Let_def split: prod.splits sum.splits)
  have "framed fs0 rp (?f s e)" for e
    using framed_flush_writer [OF fr cas_invD(1) [OF inv]] fr by simp
  then have "framed fs0 rp (snd (read_record_bytes M e s))" for e
    using rd [of e] framed_same_fs by blast
  then have rr: "framed fs0 rp s1" if "read_record_bytes M e s = (r1, s1)" for e r1 s1
    using that by (metis snd_conv)
  have "s' = s \<or> (\<exists>e r1 s1. read_record_bytes M e s = (r1, s1) \<and> cas_fs s' = cas_fs s1 \<and> repo_path s' = repo_path s1)"
    using run by (auto simp: get_payload_def try_st_def split: option.splits prod.splits sum.splits) (metis+)?
  then show ?thesis
    using fr rr framed_same_fs by blast
qed

interpretation framed_disk: cas_backend H "store_backend H M" "store_objs H"
  "\<lambda>s. mmap_ok M \<and> cas_inv H s \<and> framed fs0 rp s" overflow_err
  for H :: hasher and M :: mmap and fs0 rp
proof
  fix s s' p ty h
  assume *: "mmap_ok M \<and> cas_inv H s \<and> framed fs0 rp s" "fits_record p"
    "cas_put (store_backend H M) ty p s = (Inr h, s')"
  then show "h = H p \<and> (mmap_ok M \<and> cas_inv H s' \<and> framed fs0 rp s') \<and> store_objs H s' = put_objs H ty p (store_objs H s)"
    using disk.put_ok [of M H s p ty h s'] framed_put [of fs0 rp s H ty p "Inr h" s'] by (simp add: store_backend_def)
next
  fix s s' p ty e
  assume *: "mmap_ok M \<and> cas_inv H s \<and> framed fs0 rp s" "fits_record p"
    "cas_put (store_backend H M) ty p s = (Inl e, s')"
  then show "overflow_err e \<and> (mmap_ok M \<and> cas_inv H s' \<and> framed fs0 rp s') \<and> store_objs H s' = store_objs H s"
    using disk.put_err [of M H s p ty e s'] framed_put [of fs0 rp s H ty p "Inl e" s'] by (simp add: store_backend_def)
next
  fix s s' h r
  assume *: "mmap_ok M \<and> cas_inv H s \<and> framed fs0 rp s" "cas_get_record (store_backend H M) h s = (r, s')"
  then show "(mmap_ok M \<and> cas_inv H s' \<and> framed fs0 rp s') \<and> store_objs H s' = store_objs H s \<and>
      r = (case store_objs H s h of None \<Rightarrow> Inl (Err (Storage (NotFound h))) | Some x \<Rightarrow> Inr x)"
    using disk.get_spec [of M H s h r s'] framed_get [of fs0 rp s H M h r s'] by (simp add: store_backend_def)
qed

section \<open>Branch files\<close>

text \<open>Conversely, writing a branch changes nothing but files and directories below \<open>refs/heads\<close>.\<close>

lemma create_raw_prefix:
  assumes "list_all plain_part parts" "create_raw cur parts fs = (res, fs')" "fs_get fs' q \<noteq> fs_get fs q"
  shows "\<exists>k. q = take k (cur @ parts)"
  using assms
proof (induction parts arbitrary: cur fs)
  case (Cons c cs)
  have c: "c \<noteq> ''''" "c \<noteq> ''.''" "c \<noteq> ''..''" "list_all plain_part cs"
    using Cons.prems(1) by (simp_all add: plain_part_def [of c])
  show ?case
  proof (cases "fs_get fs (cur @ [c])")
    case None
    let ?fs = "fs_set (cur @ [c]) Dir fs"
    show ?thesis
    proof (cases "q = cur @ [c]")
      case True
      then show ?thesis
        by (intro exI [of _ "Suc (length cur)"]) simp
    next
      case False
      then have "fs_get fs' q \<noteq> fs_get ?fs q"
        using Cons.prems(3) by (simp add: fs_get_set)
      then show ?thesis
        using Cons.IH [of "cur @ [c]" ?fs] Cons.prems(2) c None by simp
    qed
  next
    case (Some n)
    then show ?thesis
      using Cons.IH [of "cur @ [c]" fs] Cons.prems(2,3) c by (cases n) simp_all
  qed
qed simp

lemma fs_tree_take:
  assumes "fs_tree fs" "fs_get fs p = Some Dir"
  shows "fs_get fs (take k p) = Some Dir"
proof (cases "drop k p = []")
  case True
  then show ?thesis using assms(2) by simp
next
  case False
  then show ?thesis
    using fs_tree_prefix [OF assms(1), of "take k p" "drop k p"] assms(2) by (simp add: fs_exists_def)
qed

lemma write_branch_below:
  assumes ok: "repo_ok r fs" and plain: "plain_name name" and run: "write_branch r name h fs = (res, fs')"
    and diff: "fs_get fs' q \<noteq> fs_get fs q"
  shows "\<exists>rest. q = repo_root r @ ''refs'' # ''heads'' # rest"
proof -
  let ?base = "repo_root r @ [''refs'', ''heads'']" and ?parts = "split_at (CHR ''/'') name"
  have pl: "list_all plain_part ?parts" "?parts \<noteq> []" "plain_part (last ?parts)"
    using plain by (simp_all add: plain_name_def list_all_iff)
  then have st: "strip_trailing {'''', ''.''} ?parts = ?parts" "strip_trailing {''''} ?parts = ?parts"
    by (auto simp: plain_part_def intro!: strip_trailing_id)
  obtain r1 fs1 where mk: "create_raw [] (?base @ butlast ?parts) fs = (r1, fs1)"
    by (cases "create_raw [] (?base @ butlast ?parts) fs")
  have pb: "list_all plain_part (?base @ butlast ?parts)"
    using ok pl(1) by (auto simp: repo_ok_def plain_part_def list_all_iff dest: in_set_butlastD)
  have dirs: "raw_create_dir_all (raw_parent (branch_ref_path r name)) fs = (r1, fs1)"
    using mk st(1) pl(2) plain by (simp add: raw_create_dir_all_def raw_parent_def plain_ref_path)
  have "fs_get fs' q = fs_get fs1 q \<or> q = ref_file r name"
  proof (cases r1)
    case (Inl e)
    then show ?thesis using run dirs by (simp add: write_branch_def try_st_def)
  next
    case (Inr u)
    then have "raw_write (?base, ?parts) (as_bytes_str (to_string h @ newline)) fs1 = (res, fs')"
      using run dirs plain by (simp add: write_branch_def try_st_def plain_ref_path)
    then show ?thesis
      using st(2) pl resolve_plain [OF pl(1), of fs1 ?base]
      by (cases "resolve fs1 ?base ?parts")
        (auto simp: raw_write_def plain_part_def ref_file_def fs_write_def fs_get_set Let_def
          split: option.splits node.splits if_splits)
  qed
  then consider "q = ref_file r name" | k where "q = take k (?base @ butlast ?parts)" "fs_get fs1 q \<noteq> fs_get fs q"
    using create_raw_prefix [OF pb mk, of q] diff by auto
  then show ?thesis
  proof cases
    case 1
    then show ?thesis by (simp add: ref_file_def)
  next
    case 2
    have "fs_get fs1 q = Some Dir \<and> fs_get fs q = None"
      using create_raw_plain [OF _ pb _ mk] 2(2) ok by (auto simp: repo_ok_def fs_get_def [of _ "[]"])
    moreover have "fs_get fs q = Some Dir" if "k \<le> length ?base"
    proof -
      have "q = take k ?base @ take (k - length ?base) (butlast ?parts)"
        unfolding 2(1) by (rule take_append)
      moreover have "k - length ?base = 0"
        using that by (rule diff_is_0_eq [THEN iffD2])
      ultimately have "q = take k ?base"
        by (simp only: take_0 append_Nil2)
      then show ?thesis
        using fs_tree_take [of fs ?base k] ok by (simp only: repo_ok_def)
    qed
    ultimately have k: "\<not> k \<le> length ?base" by auto
    have "q = take k ?base @ take (k - length ?base) (butlast ?parts)"
      unfolding 2(1) by (rule take_append)
    also have "take k ?base = ?base"
      using k by (intro take_all) (simp only: nle_le)
    finally show ?thesis
      by (simp only: append_assoc append.simps) blast
  qed
qed

end
