(* ===== verification/Cas_Sync.thy ===== *)
theory Cas_Sync
  imports Cas_Reopen
begin

text \<open>
  What the on-disk store has on stable storage. A sealed segment is synchronised before the next one is
  opened, and while nothing was written since the last flush so are the current segment and the index.
  All operations keep this, and after a flush a loss of power takes no object.
\<close>

section \<open>The invariant\<close>

text \<open>
  \<open>dirty\<close> is the code's record of what is not synchronised. An index that was created and not written
  to yet is empty and has not been synchronised.
\<close>

definition sync_ok :: "CasStore \<Rightarrow> bool" where
  "sync_ok s \<longleftrightarrow>
     (\<forall>sid < current_segment_id s. fs_exists (cas_fs s) (segment_path_for (repo_path s) sid) \<longrightarrow>
        file_synced (cas_fs s) (segment_path_for (repo_path s) sid))
     \<and> (\<not> dirty s \<longrightarrow>
          bw_buf (current_file s) = []
          \<and> file_synced (cas_fs s) (segment_path_for (repo_path s) (current_segment_id s))
          \<and> (idx_entries (cas_index s) = [] \<or> file_synced (cas_fs s) (idx_file (cas_index s))))"

definition all_synced :: "CasStore \<Rightarrow> bool" where
  "all_synced s \<longleftrightarrow>
     bw_buf (current_file s) = []
     \<and> (\<forall>sid. fs_exists (cas_fs s) (segment_path_for (repo_path s) sid) \<longrightarrow>
          file_synced (cas_fs s) (segment_path_for (repo_path s) sid))
     \<and> (idx_entries (cas_index s) = [] \<or> file_synced (cas_fs s) (idx_file (cas_index s)))"

lemma segment_le_current:
  assumes "layout_ok s" "fs_exists (cas_fs s) (segment_path_for (repo_path s) sid)"
  shows "sid \<le> current_segment_id s"
  using assms segment_name_id_fmt [of sid]
  unfolding layout_ok_def segments_upto_def segment_path_for_def by fastforce

lemma all_synced_iff:
  assumes "layout_ok s" "\<not> dirty s"
  shows "sync_ok s \<longleftrightarrow> all_synced s"
proof -
  have "fs_exists (cas_fs s) (segment_path_for (repo_path s) (current_segment_id s))"
    using assms(1) by (auto simp: layout_ok_def fs_exists_def)
  then show ?thesis
    using assms segment_le_current [OF assms(1)] by (auto simp: sync_ok_def all_synced_def order_less_le)
qed

lemma sync_ok_cong:
  assumes "\<And>p. fs_get (cas_fs s') p = fs_get (cas_fs s) p" "fs_synced (cas_fs s') = fs_synced (cas_fs s)"
    "repo_path s' = repo_path s" "cas_index s' = cas_index s" "current_segment_id s' = current_segment_id s"
    "bw_buf (current_file s') = bw_buf (current_file s)" "dirty s' = dirty s"
  shows "sync_ok s' \<longleftrightarrow> sync_ok s"
  unfolding sync_ok_def file_synced_def fs_exists_def assms by (rule refl)

section \<open>Flushing\<close>

lemma flush_writer_synced [simp]: "fs_synced (cas_fs (flush_writer s)) = fs_synced (cas_fs s)"
  by (simp add: flush_writer_fs)

lemma sync_flush_writer:
  assumes "layout_ok s" "sync_ok s"
  shows "sync_ok (flush_writer s)"
proof (cases "dirty s")
  case False
  then have buf: "bw_buf (current_file s) = []"
    using assms(2) by (simp add: sync_ok_def)
  then have "fs_get (cas_fs (flush_writer s)) p = fs_get (cas_fs s) p" for p
    by (simp add: flush_writer_fs fs_get_append split: option.split node.split)
  with assms(2) buf show ?thesis
    by (subst sync_ok_cong [of "flush_writer s" s]) simp_all
next
  case True
  have "file_synced (cas_fs (flush_writer s)) (segment_path_for (repo_path s) sid)"
    if "sid < current_segment_id s" "fs_exists (cas_fs s) (segment_path_for (repo_path s) sid)" for sid
  proof -
    have "file_synced (cas_fs s) (segment_path_for (repo_path s) sid)"
      using assms(2) that by (simp add: sync_ok_def)
    moreover have "fs_get (cas_fs (flush_writer s)) (segment_path_for (repo_path s) sid) =
        fs_get (cas_fs s) (segment_path_for (repo_path s) sid)"
      using assms(1) that(1) by (auto simp: flush_writer_fs fs_get_append layout_ok_def split: option.split node.split)
    ultimately show ?thesis
      by (simp add: file_synced_def)
  qed
  with True show ?thesis
    by (simp add: sync_ok_def flush_writer_fs)
qed

text \<open>A flush leaves everything synchronised.\<close>

lemma cas_flush_clean: "\<not> dirty (cas_flush s)"
  by (simp add: cas_flush_def Let_def)

lemma flush_synced:
  assumes "layout_ok s" "layout_ok (cas_flush s)" "sync_ok s"
  shows "all_synced (cas_flush s)"
proof (cases "dirty s")
  case False
  then have "cas_flush s = flush_writer s"
    by (simp add: cas_flush_def)
  then show ?thesis
    using sync_flush_writer [OF assms(1,3)] all_synced_iff [of "flush_writer s"] assms(2) False by simp
next
  case True
  let ?fs = "cas_fs (flush_writer s)" and ?cur = "segment_path_for (repo_path s) (current_segment_id s)"
  have fs: "cas_fs (cas_flush s) = fs_sync (idx_file (cas_index s)) (fs_sync ?cur ?fs)"
    using True assms(1) by (simp add: cas_flush_def index_flush_def layout_ok_def Let_def)
  have files: "\<exists>c. fs_get ?fs ?cur = Some (File c)" "\<exists>c. fs_get ?fs (idx_file (cas_index s)) = Some (File c)"
    using layout_flush_writer [OF assms(1)] by (auto simp: layout_ok_def index_ok_def)
  have sealed: "file_synced ?fs (segment_path_for (repo_path s) sid)"
    if "sid < current_segment_id s" "fs_exists ?fs (segment_path_for (repo_path s) sid)" for sid
    using sync_flush_writer [OF assms(1,3)] that by (simp add: sync_ok_def)
  have "file_synced (cas_fs (cas_flush s)) ?cur" "file_synced (cas_fs (cas_flush s)) (idx_file (cas_index s))"
    using files by (auto simp: fs intro: file_synced_sync file_synced_sync_other)
  moreover have "file_synced (cas_fs (cas_flush s)) (segment_path_for (repo_path s) sid)"
    if "sid < current_segment_id s" "fs_exists (cas_fs (cas_flush s)) (segment_path_for (repo_path s) sid)" for sid
    using sealed [OF that(1)] that(2) unfolding fs by (auto intro: file_synced_sync_other)
  ultimately have "sync_ok (cas_flush s)"
    by (simp add: sync_ok_def)
  then show ?thesis
    using all_synced_iff [OF assms(2) cas_flush_clean] by simp
qed

section \<open>Writing and reading\<close>

lemma create_segment_synced:
  assumes "open_or_create_segment p sid fs = (Inr n, fs')" "\<not> fs_exists fs p" "p \<noteq> []"
  shows "file_synced fs' p" "file_synced fs q \<Longrightarrow> file_synced fs' q"
proof -
  have none: "fs_get fs p = None"
    using assms(2) by (simp add: fs_exists_def)
  let ?hd = "encode_segment_header (ucast sid) (fs_clock fs div 1000)"
  have fs': "fs' = fs_sync p (fs_append p ?hd (fs_set p (File []) fs))"
    using assms(1) none by (auto simp: open_or_create_segment_def fs_open_append_def fs_exists_def try_st_def split: if_splits)
  have "fs_get (fs_append p ?hd (fs_set p (File []) fs)) p = Some (File ?hd)"
    using assms(3) by (simp add: fs_get_append fs_get_set)
  then show "file_synced fs' p"
    unfolding fs' by (rule file_synced_sync)
  assume q: "file_synced fs q"
  then have "q \<noteq> p"
    using none by (auto simp: file_synced_def)
  with q have "file_synced (fs_append p ?hd (fs_set p (File []) fs)) q"
    using assms(3) by (auto simp: file_synced_def fs_get_append fs_get_set)
  then show "file_synced fs' q"
    unfolding fs' by (rule file_synced_sync_other)
qed

lemma sync_rotate:
  assumes inv: "cas_inv H s" and sync: "sync_ok s" and rot: "rotate_segment s = (r, s')"
  shows "sync_ok s'"
proof -
  have flush: "all_synced (cas_flush s)" "sync_ok (cas_flush s)"
    using flush_synced [OF cas_invD(1) [OF inv] cas_invD(1) [OF cas_flush_inv(1) [OF inv]] sync]
      all_synced_iff [OF cas_invD(1) [OF cas_flush_inv(1) [OF inv]] cas_flush_clean] by simp_all
  show ?thesis
  proof (cases "current_segment_id s = 0xFFFF")
    case True
    then show ?thesis
      using rot flush(2) by (simp add: rotate_segment_def)
  next
    case False
    let ?p = "segment_path_for (repo_path s) (current_segment_id s + 1)"
    obtain fs where fs: "\<not> fs_exists (cas_fs (cas_flush s)) ?p"
      "open_or_create_segment ?p (current_segment_id s + 1) (cas_fs (cas_flush s)) = (Inr SEGMENT_HEADER_LEN, fs)"
      "\<forall>q. fs_get fs q = (if q = ?p then Some (File (encode_segment_header (ucast (current_segment_id s + 1))
          (fs_clock (cas_fs (cas_flush s)) div 1000))) else fs_get (cas_fs (cas_flush s)) q)"
      "rotate_segment s = (Inr (), (cas_flush s)\<lparr>cas_fs := fs, current_segment_id := current_segment_id s + 1,
          current_file := bw_with_capacity SEGMENT_BUF_BYTES ?p, current_offset := SEGMENT_HEADER_LEN\<rparr>)"
      by (rule rotate_creates [OF inv False])
    note new = create_segment_synced [OF fs(2,1) segment_path_simps(1)]
    have old: "file_synced fs (segment_path_for (repo_path s) sid)"
      if "sid < current_segment_id s + 1" "fs_exists fs (segment_path_for (repo_path s) sid)" for sid
    proof -
      have "fs_exists (cas_fs (cas_flush s)) (segment_path_for (repo_path s) sid)"
        using that fs(3) by (auto simp: fs_exists_def simp del: cas_flush_simps(7) split: if_splits)
      then show ?thesis
        using new(2) flush(1) by (simp add: all_synced_def del: cas_flush_simps(7))
    qed
    have "idx_entries (cas_index s) = [] \<or> file_synced fs (idx_file (cas_index s))"
      using new(2) flush(1) by (auto simp: all_synced_def simp del: cas_flush_simps(7))
    with old new(1) rot fs(4) cas_flush_clean [of s] show ?thesis
      by (auto simp: sync_ok_def bw_with_capacity_def)
  qed
qed

lemma append_record_synced:
  assumes "\<not> index_contains (cas_index s) h"
  shows "fs_synced (cas_fs (append_record ty p h s)) = fs_synced (cas_fs s)" "dirty (append_record ty p h s)"
proof -
  obtain w fs1 where wr: "bw_write_all (encode_record ty p h) (current_file s, cas_fs s) = (w, fs1)"
    by (cases "bw_write_all (encode_record ty p h) (current_file s, cas_fs s)")
  then have "fs_synced fs1 = fs_synced (cas_fs s)"
    using bw_synced(2) [of "encode_record ty p h" "(current_file s, cas_fs s)"] by simp
  then show "fs_synced (cas_fs (append_record ty p h s)) = fs_synced (cas_fs s)" "dirty (append_record ty p h s)"
    by (simp_all add: append_record_unfold [OF wr assms])
qed

lemma sync_append_record:
  assumes lay: "layout_ok s" and sync: "sync_ok s" and new: "\<not> index_contains (cas_index s) h"
    and fits: "fits_record p" and off: "current_offset s < 2 ^ 48"
  shows "sync_ok (append_record ty p h s)"
proof -
  let ?s = "append_record ty p h s"
  have get: "fs_get (cas_fs ?s) (segment_path_for (repo_path s) i) = fs_get (cas_fs s) (segment_path_for (repo_path s) i)"
    if "i \<noteq> current_segment_id s" for i
    by (rule append_record_files(5) [OF lay new fits off refl refl that])
  note synced = append_record_synced [OF new, of ty p]
  have "file_synced (cas_fs ?s) (segment_path_for (repo_path s) i)"
    if "i < current_segment_id s" "fs_exists (cas_fs ?s) (segment_path_for (repo_path s) i)" for i
    using that sync get [of i] synced by (auto simp: sync_ok_def file_synced_def fs_exists_def)
  with synced(2) show ?thesis
    by (simp add: sync_ok_def)
qed

lemma sync_put:
  assumes inv: "cas_inv H s" and sync: "sync_ok s" and fits: "fits_record p"
    and run: "cas_store_put H ty p s = (r, s')"
  shows "sync_ok s'"
proof (cases "index_contains (cas_index s) (H p)")
  case True
  with run sync show ?thesis by (auto simp: cas_store_put_def)
next
  case False
  obtain r1 s1 where en: "ensure_segment_capacity (41 + length p + 4) s = (r1, s1)"
    by (cases "ensure_segment_capacity (41 + length p + 4) s")
  note spec = ensure_capacity_spec [OF inv en]
  have sync1: "sync_ok s1"
    using en sync sync_rotate [OF inv sync] by (auto simp: ensure_segment_capacity_def split: if_splits)
  show ?thesis
  proof (cases r1)
    case (Inl e)
    with run en False sync1 show ?thesis by (simp add: cas_store_put_def try_st_def)
  next
    case (Inr u)
    then have "s' = append_record ty p (H p) s1"
      using run en False by (simp add: cas_store_put_def try_st_def Let_def)
    then show ?thesis
      using sync_append_record [of s1 "H p" p ty] spec Inr False sync1 fits cas_invD(1) by auto
  qed
qed

lemma read_record_same:
  assumes "read_record_bytes M e s = (r, s')"
  shows "\<exists>maps. s' = s\<lparr>segment_maps := maps\<rparr> \<or> s' = (flush_writer s)\<lparr>segment_maps := maps\<rparr>"
proof -
  have seg: "snd (read_segment e t) = t" for t
    by (simp add: read_segment_def)
  have map: "\<exists>maps. snd (ensure_mmap M sid t) = t\<lparr>segment_maps := maps\<rparr>" for sid t
    by (auto simp: ensure_mmap_def split: option.split sum.split intro: exI [of _ "segment_maps t"])
  have eq: "s' = snd (read_record_bytes M e s)"
    using assms by simp
  show ?thesis
  proof (cases "segment_id e = current_segment_id s")
    case True
    then have "s' = flush_writer s"
      by (simp add: eq read_record_bytes_def seg)
    then show ?thesis
      by (intro exI [of _ "segment_maps s"]) simp
  next
    case False
    obtain r1 s1 where en: "ensure_mmap M (segment_id e) s = (r1, s1)"
      by (cases "ensure_mmap M (segment_id e) s")
    then obtain maps where "s1 = s\<lparr>segment_maps := maps\<rparr>"
      using map [of "segment_id e" s] by auto
    then show ?thesis
      using False en seg by (auto simp: eq read_record_bytes_def Let_def split: sum.split intro: exI [of _ "segment_maps s"])
  qed
qed

lemma sync_get:
  assumes inv: "cas_inv H s" and M: "mmap_ok M" and sync: "sync_ok s" and run: "get_payload H M h s = (r, s')"
  shows "sync_ok s'"
proof -
  have maps: "sync_ok (t\<lparr>segment_maps := maps, write_cache := c\<rparr>) \<longleftrightarrow> sync_ok t" for t maps c
    by (rule sync_ok_cong) simp_all
  have "\<exists>maps c. s' = s\<lparr>segment_maps := maps, write_cache := c\<rparr>
      \<or> s' = (flush_writer s)\<lparr>segment_maps := maps, write_cache := c\<rparr>"
  proof (cases "lru_get (write_cache s) h = None \<and> index_get (cas_index s) h \<noteq> None")
    case False
    then have "s' = s"
      using run by (auto simp: get_payload_def split: option.splits)
    then show ?thesis
      by (intro exI [of _ "segment_maps s"] exI [of _ "write_cache s"]) simp
  next
    case True
    then obtain e where e: "index_get (cas_index s) h = Some e" "lru_get (write_cache s) h = None"
      by auto
    obtain r1 s1 where rd: "read_record_bytes M e s = (r1, s1)"
      by (cases "read_record_bytes M e s")
    then have "\<exists>c. s' = s1\<lparr>write_cache := c\<rparr>"
      using run e by (auto simp: get_payload_def try_st_def split: sum.splits prod.splits
          intro: exI [of _ "write_cache s1"])
    with read_record_same [OF rd] show ?thesis by auto
  qed
  with maps sync sync_flush_writer [OF cas_invD(1) [OF inv] sync] show ?thesis by auto
qed

section \<open>Opening\<close>

lemma opened_synced:
  assumes "cas_inv H s" "all_synced s" "cas_open (repo_path s) (cas_fs s) = (Inr s', fs')"
  shows "sync_ok s'"
proof -
  obtain c where c: "fs_get (cas_fs s) (segment_path_for (repo_path s) (current_segment_id s)) = Some (File c)"
    "SEGMENT_HEADER_LEN \<le> length c" "take 4 c = SEGMENT_MAGIC"
    using cas_invD(1) [OF assms(1)] by (rule layoutE)
  have "cas_open (repo_path s) (cas_fs s) =
      (Inr (opened (repo_path s) (cas_fs s) (cas_index s) (current_segment_id s) (length c)), cas_fs s)"
    using cas_invD(1) [OF assms(1)] c by (intro cas_open_existing) (auto simp: layout_ok_def)
  with assms(3) have "s' = opened (repo_path s) (cas_fs s) (cas_index s) (current_segment_id s) (length c)"
    by auto
  with assms(2) c show ?thesis
    by (auto simp: sync_ok_def all_synced_def fs_exists_def)
qed

lemma fresh_synced:
  assumes "fresh_dir fs rp" "cas_open rp fs = (Inr s, fs')"
  shows "sync_ok s"
proof -
  note f = fresh_open_index [OF assms(1)]
  let ?fs2 = "fs_set (rp @ [''index.epi'']) (File []) (fs_set (rp @ [''data'']) Dir fs)"
  let ?p = "segment_path_for rp 0"
  have none: "\<not> fs_exists ?fs2 ?p"
    using f(4) by (simp add: segment_path_for_def)
  have "fst ` set (fs_read_dir (rp @ [''data'']) ?fs2) = {}"
    using f(4) by (auto simp: read_dir_names fs_exists_def)
  then have "find_latest_segment rp ?fs2 = None"
    by (simp add: find_latest_segment_def)
  then obtain off where op: "open_or_create_segment ?p 0 ?fs2 = (Inr off, fs')"
    and s: "s = opened rp fs' \<lparr>idx_file = rp @ [''index.epi''], idx_entries = []\<rparr> 0 off"
    using assms(2) f(1,2) by (auto simp: cas_open_def try_st_def opened_def Let_def split: prod.splits sum.splits)
  with create_segment_synced(1) [OF op none] show ?thesis
    by (simp add: sync_ok_def)
qed

section \<open>Runs\<close>

lemma cas_step_sync:
  assumes "cas_step H M s s'" "mmap_ok M" "cas_inv H s" "sync_ok s"
  shows "sync_ok s'"
  using assms(1)
proof (cases rule: cas_step.cases)
  case (step_put p ty)
  then show ?thesis
    using sync_put [OF assms(3,4) step_put(2)] by (cases "cas_store_put H ty p s") simp
next
  case (step_get h)
  then show ?thesis
    using sync_get [OF assms(3,2,4)] by (cases "get_payload H M h s") simp
next
  case step_flush
  have lay: "layout_ok (cas_flush s)"
    by (rule cas_invD(1) [OF cas_flush_inv(1) [OF assms(3)]])
  from flush_synced [OF cas_invD(1) [OF assms(3)] lay assms(4)] step_flush show ?thesis
    using all_synced_iff [OF lay cas_flush_clean] by simp
next
  case (step_cache n)
  then show ?thesis
    using assms(4) sync_ok_cong [of s' s] by (simp add: set_object_cache_cap_def)
next
  case (step_mmap n)
  then show ?thesis
    using assms(4) sync_ok_cong [of s' s] by (simp add: set_mmap_cap_def)
next
  case (step_reopen fs')
  have inv: "cas_inv H (cas_flush s)"
    by (rule cas_flush_inv(1) [OF assms(3)])
  show ?thesis
    using opened_synced [OF inv flush_synced [OF cas_invD(1) [OF assms(3)] cas_invD(1) [OF inv] assms(4)]]
      step_reopen by simp
qed

text \<open>A store created in an empty directory and used in any way has the invariant.\<close>

lemma store_reachable_sync:
  assumes "fresh_dir fs rp" "cas_open rp fs = (Inr s0, fs0)" "mmap_ok M" "(cas_step H M)\<^sup>*\<^sup>* s0 s"
  shows "sync_ok s"
  using assms(4)
proof (induction rule: rtranclp_induct)
  case base
  show ?case by (rule fresh_synced [OF assms(1,2)])
next
  case (step s1 s2)
  have "cas_inv H s0"
    using opened_fresh [OF assms(1), of H] assms(2) by auto
  then have "cas_inv H s1"
    using cas_steps_inv [OF step(1) assms(3)] by blast
  with step cas_step_sync [OF step(2) assms(3)] show ?case by blast
qed

section \<open>Losing power\<close>

text \<open>A store whose files are synchronised opens with the same objects after a loss of power.\<close>

lemma power_loss_keeps:
  assumes inv: "cas_inv H s" and sync: "all_synced s" and idx: "idx_entries (cas_index s) \<noteq> []"
    and lost: "power_loss (cas_fs s) fs"
  shows "\<exists>s'. cas_open (repo_path s) fs = (Inr s', fs) \<and> cas_inv H s' \<and> store_objs H s' = store_objs H s"
proof -
  note d = cas_invD [OF inv]
  note lay = d(1) [unfolded layout_ok_def]
  let ?s = "s\<lparr>cas_fs := fs\<rparr>"
  have seg: "fs_get fs (segment_path_for (repo_path s) i) = fs_get (cas_fs s) (segment_path_for (repo_path s) i)"
    if "fs_exists (cas_fs s) (segment_path_for (repo_path s) i)" for i
    using power_loss_synced [OF lost] sync that by (simp add: all_synced_def)
  have idx': "fs_get fs (idx_file (cas_index s)) = fs_get (cas_fs s) (idx_file (cas_index s))"
    using power_loss_synced [OF lost] sync idx by (simp add: all_synced_def)
  have cur: "fs_exists (cas_fs s) (segment_path_for (repo_path s) (current_segment_id s))"
    using lay by (auto simp: fs_exists_def)
  have "index_ok (cas_index s, fs)"
    using lay idx' unfolding index_ok_def prod.case by metis
  moreover have "is_dir_path fs (repo_path s @ [''data''])"
    by (rule is_dir_path_mono [of "cas_fs s"]) (use lay power_loss_Dir [OF lost] in auto)
  moreover have "segments_upto fs (repo_path s) (current_segment_id s)"
    using lay power_loss_exists [OF lost] by (auto simp: segments_upto_def)
  ultimately have layout: "layout_ok ?s"
    using lay seg [OF cur] by (simp add: layout_ok_def)
  have maps: "maps_ok ?s"
    using d(3) seg by (auto simp: maps_ok_def fs_exists_def)
  have bytes: "seg_bytes ?s i = Some b" if "seg_bytes s i = Some b" for i b
    using that seg [of i] by (auto simp: seg_bytes_def fs_exists_def split: option.splits node.splits)
  have "cas_inv H ?s" "store_objs H ?s = store_objs H s"
    using cas_inv_frame [OF inv layout maps _ bytes] d(2,4) by simp_all
  moreover have "bw_buf (current_file ?s) = []"
    using sync by (simp add: all_synced_def)
  ultimately show ?thesis
    using opened_inv [of H ?s] by simp
qed

end
