(* ===== verification/Disk_Dag.thy ===== *)
theory Disk_Dag
  imports Disk_Store Disk_Frame Cas_Sync
begin

text \<open>
  Correctness of the versioned store: the invariant that ties branches, objects and the commit cache
  together, what each operation does to the map of commits and to the branches, and the graph
  algorithms on a store.
\<close>

section \<open>The invariant\<close>

definition commit_of :: "objects \<Rightarrow> history" where
  "commit_of m h =
     (case m h of
        Some (ty, p) \<Rightarrow> if ty = Commit then (case decode_payload p of Inl _ \<Rightarrow> None | Inr c \<Rightarrow> Some c) else None
      | None \<Rightarrow> None)"

definition ds_objs :: "hasher \<Rightarrow> DiskStore \<Rightarrow> objects" where
  "ds_objs H s = store_objs H (ds_cas s)"

definition ds_commits :: "hasher \<Rightarrow> DiskStore \<Rightarrow> history" where
  "ds_commits H s = commit_of (ds_objs H s)"

definition ds_branch :: "DiskStore \<Rightarrow> string \<Rightarrow> hash option" where
  "ds_branch s name = branch_of (ds_repo s) (ds_fs s) name"

definition ds_inv :: "hasher \<Rightarrow> DiskStore \<Rightarrow> bool" where
  "ds_inv H s \<longleftrightarrow> cas_inv H (ds_cas s) \<and> repo_root (ds_repo s) = repo_path (ds_cas s)
     \<and> repo_ok (ds_repo s) (ds_fs s) \<and> lru_ok (commit_cache s)
     \<and> (\<forall>h c. lru_get (commit_cache s) h = Some c \<longrightarrow> ds_commits H s h = Some c)"

definition same_refs :: "DiskStore \<Rightarrow> DiskStore \<Rightarrow> bool" where
  "same_refs s s' \<longleftrightarrow> ds_repo s' = ds_repo s
     \<and> (\<forall>q. fs_get (ds_fs s') (ds_path s @ ''refs'' # q) = fs_get (ds_fs s) (ds_path s @ ''refs'' # q))
     \<and> (\<forall>name. plain_name name \<longrightarrow> ds_branch s' name = ds_branch s name)"

lemma same_refs_refl [simp]: "same_refs s s"
  by (simp add: same_refs_def)

lemma same_refs_trans [trans]: "same_refs s s' \<Longrightarrow> same_refs s' s'' \<Longrightarrow> same_refs s s''"
  by (simp add: same_refs_def ds_path_def)

lemma commit_of_mono: "m \<subseteq>\<^sub>m m' \<Longrightarrow> commit_of m h = Some c \<Longrightarrow> commit_of m' h = Some c"
  by (auto simp: commit_of_def map_le_def dom_def split: option.splits)

lemma ds_invD:
  assumes "ds_inv H s"
  shows "cas_inv H (ds_cas s)" "repo_root (ds_repo s) = repo_path (ds_cas s)" "repo_ok (ds_repo s) (ds_fs s)"
    "lru_ok (commit_cache s)" "lru_get (commit_cache s) h = Some c \<Longrightarrow> ds_commits H s h = Some c"
  using assms by (simp_all add: ds_inv_def)

lemma framed_self: "ds_inv H s \<Longrightarrow> framed (ds_fs s) (ds_path s) (ds_cas s)"
  by (simp add: ds_inv_def framed_def ds_path_def ds_fs_def repo_ok_def)

text \<open>An operation on the object store that only adds objects keeps everything else.\<close>

lemma outside_refs: "outside rp (rp @ ''refs'' # q)"
  by (simp add: outside_def)

lemma on_cas_inv:
  assumes inv: "ds_inv H s" and c: "cas_inv H c" "framed (ds_fs s) (ds_path s) c" "ds_objs H s \<subseteq>\<^sub>m store_objs H c"
    and s': "s' = s\<lparr>ds_cas := c\<rparr>"
  shows "ds_inv H s' \<and> ds_objs H s \<subseteq>\<^sub>m ds_objs H s' \<and> same_refs s s'"
proof -
  note d = ds_invD [OF inv]
  have keep: "fs_get (cas_fs c) (repo_root (ds_repo s) @ ''refs'' # q) = fs_get (ds_fs s) (repo_root (ds_repo s) @ ''refs'' # q)" for q
    using c(2) outside_refs by (simp add: framed_def ds_path_def)
  have tree: "fs_tree (cas_fs c)" and rp: "repo_path c = repo_root (ds_repo s)"
    using c(2) by (simp_all add: framed_def ds_path_def)
  have rok: "repo_ok (ds_repo s') (ds_fs s')"
    using d(3) tree keep [of "[''heads'']"] by (simp add: repo_ok_def s' ds_fs_def)
  have "ds_branch s' name = ds_branch s name" if "plain_name name" for name
    using that tree d(3) keep
    by (simp add: ds_branch_def branch_of_plain s' ds_fs_def repo_ok_def ref_file_def)
  then have "same_refs s s'"
    using keep by (simp add: same_refs_def s' ds_fs_def ds_path_def)
  moreover have "ds_commits H s' h = Some x" if "lru_get (commit_cache s) h = Some x" for h x
    using commit_of_mono [of "ds_objs H s" "ds_objs H s'"] d(5) [OF that] c(3) by (simp add: ds_commits_def ds_objs_def s')
  ultimately show ?thesis
    using rok c(1,3) rp d(4) by (simp add: ds_inv_def s' ds_objs_def)
qed

lemma cache_commit_inv:
  assumes "ds_inv H s" "ds_commits H s h = Some c" "s' = s\<lparr>commit_cache := lru_insert h c (commit_cache s)\<rparr>"
  shows "ds_inv H s'" "ds_objs H s' = ds_objs H s" "same_refs s s'"
proof -
  have "lru_get (lru_insert h c (commit_cache s)) k = Some x \<Longrightarrow> ds_commits H s k = Some x" for k x
    using lru_get_insert_other [OF ds_invD(4) [OF assms(1)], of h c k x]
      lru_get_insert_same [OF ds_invD(4) [OF assms(1)], of h c] ds_invD(5) [OF assms(1)] assms(2)
    by (cases "k = h") auto
  then show "ds_inv H s'" "ds_objs H s' = ds_objs H s" "same_refs s s'"
    using assms
    by (simp_all add: ds_inv_def ds_fs_def ds_path_def ds_commits_def ds_objs_def same_refs_def ds_branch_def lru_ok_insert)
qed

section \<open>Reading commits\<close>

lemma framed_objs:
  assumes inv: "ds_inv H s" and M: "mmap_ok M" and run: "cas_get_record_full H M h (ds_cas s) = (r, c)"
  shows "cas_inv H c" "framed (ds_fs s) (ds_path s) c" "store_objs H c = ds_objs H s"
    "r = (case ds_objs H s h of None \<Rightarrow> Inl (Err (Storage (NotFound h)))
       | Some (ty, p) \<Rightarrow> Inr \<lparr>record_type = ty, content_hash = h, payload = p\<rparr>)"
proof -
  obtain r1 where g: "get_payload H M h (ds_cas s) = (r1, c)"
      "r = try_res r1 (\<lambda>(ty, p). Inr \<lparr>record_type = ty, content_hash = h, payload = p\<rparr>)"
    using run by (cases "get_payload H M h (ds_cas s)")
      (auto simp: cas_get_record_full_def try_st_def split: sum.splits prod.splits)
  have i: "mmap_ok M \<and> cas_inv H (ds_cas s) \<and> framed (ds_fs s) (ds_path s) (ds_cas s)"
    using M ds_invD(1) [OF inv] framed_self [OF inv] by simp
  note g' = framed_disk.get_spec [OF i, of h r1 c, unfolded store_backend_def, simplified, OF g(1)]
  then show "cas_inv H c" "framed (ds_fs s) (ds_path s) c" "store_objs H c = ds_objs H s"
    by (simp_all add: ds_objs_def)
  show "r = (case ds_objs H s h of None \<Rightarrow> Inl (Err (Storage (NotFound h)))
       | Some (ty, p) \<Rightarrow> Inr \<lparr>record_type = ty, content_hash = h, payload = p\<rparr>)"
    using g' g(2) by (auto simp: ds_objs_def split: option.splits)
qed

lemma load_commit_spec:
  assumes M: "mmap_ok M" and inv: "ds_inv H s" and run: "load_commit H M h s = (r, s')"
  shows "ds_inv H s' \<and> ds_objs H s' = ds_objs H s \<and> same_refs s s'
    \<and> (case ds_commits H s h of Some c \<Rightarrow> r = Inr c | None \<Rightarrow> \<exists>e. r = Inl e)"
proof (cases "lru_get (commit_cache s) h")
  case (Some c)
  then show ?thesis
    using run inv ds_invD(5) [OF inv Some] by (simp add: load_commit_def)
next
  case None
  obtain r1 c1 where g: "cas_get_record_full H M h (ds_cas s) = (r1, c1)"
    by (cases "cas_get_record_full H M h (ds_cas s)")
  note f = framed_objs [OF inv M g]
  let ?s1 = "s\<lparr>ds_cas := c1\<rparr>"
  have s1: "ds_inv H ?s1" "same_refs s ?s1" "ds_objs H ?s1 = ds_objs H s"
    using on_cas_inv [OF inv f(1,2), of ?s1] f(3) by (simp_all add: ds_objs_def)
  have oc: "on_cas (cas_get_record_full H M h) s = (r1, ?s1)"
    using g by (simp add: on_cas_def)
  show ?thesis
  proof (cases "ds_commits H s h")
    case no: None
    then have "s' = ?s1 \<and> (\<exists>e. r = Inl e)"
      using run None oc f(4)
      by (auto simp: load_commit_def try_st_def ds_commits_def commit_of_def split: option.splits sum.splits if_splits)
    then show ?thesis
      using s1 no by simp
  next
    case (Some c)
    then have r: "r = Inr c" "s' = ?s1\<lparr>commit_cache := lru_insert h c (commit_cache ?s1)\<rparr>"
      using run None oc f(4)
      by (auto simp: load_commit_def try_st_def ds_commits_def commit_of_def split: option.splits sum.splits if_splits)
    have "ds_commits H ?s1 h = Some c"
      using Some s1(3) by (simp add: ds_commits_def)
    from cache_commit_inv [OF s1(1) this r(2)] show ?thesis
      using r(1) s1 Some same_refs_trans by auto
  qed
qed

interpretation dag: commit_store "load_commit H M" "ds_commits H" "\<lambda>s. mmap_ok M \<and> ds_inv H s \<and> same_refs orig s"
  for H :: hasher and M :: mmap and orig :: DiskStore
proof
  fix s h r s'
  assume "mmap_ok M \<and> ds_inv H s \<and> same_refs orig s" "load_commit H M h s = (r, s')"
  then show "(mmap_ok M \<and> ds_inv H s' \<and> same_refs orig s') \<and> ds_commits H s' = ds_commits H s
      \<and> (case ds_commits H s h of Some c \<Rightarrow> r = Inr c | None \<Rightarrow> \<exists>e. r = Inl e)"
    using load_commit_spec [of M H s h r s'] same_refs_trans by (auto simp: ds_commits_def)
qed

lemma dag_ready: "mmap_ok M \<Longrightarrow> ds_inv H s \<Longrightarrow> mmap_ok M \<and> ds_inv H s \<and> same_refs s s"
  by simp

section \<open>Writing commits\<close>

lemma flush_ds_inv:
  assumes "ds_inv H s"
  shows "ds_inv H (s\<lparr>ds_cas := cas_flush (ds_cas s)\<rparr>)" "ds_objs H (s\<lparr>ds_cas := cas_flush (ds_cas s)\<rparr>) = ds_objs H s"
    "same_refs s (s\<lparr>ds_cas := cas_flush (ds_cas s)\<rparr>)"
proof -
  note d = ds_invD [OF assms]
  have "framed (ds_fs s) (ds_path s) (cas_flush (ds_cas s))"
    using framed_cas_flush [OF framed_self [OF assms]] cas_invD(1) [OF d(1)] by simp
  then show "ds_inv H (s\<lparr>ds_cas := cas_flush (ds_cas s)\<rparr>)" "ds_objs H (s\<lparr>ds_cas := cas_flush (ds_cas s)\<rparr>) = ds_objs H s"
    "same_refs s (s\<lparr>ds_cas := cas_flush (ds_cas s)\<rparr>)"
    using on_cas_inv [OF assms cas_flush_inv(1) [OF d(1)]] cas_flush_inv(2) [OF d(1)] by (simp_all add: ds_objs_def)
qed

lemma counter_inv [simp]:
  "ds_inv H (s\<lparr>commits_since_fsync := n\<rparr>) = ds_inv H s" "ds_objs H (s\<lparr>commits_since_fsync := n\<rparr>) = ds_objs H s"
  "same_refs s (s'\<lparr>commits_since_fsync := n\<rparr>) = same_refs s s'"
  "ds_inv H (s\<lparr>ts_counter := ts\<rparr>) = ds_inv H s" "ds_objs H (s\<lparr>ts_counter := ts\<rparr>) = ds_objs H s"
  "same_refs s (s'\<lparr>ts_counter := ts\<rparr>) = same_refs s s'" "same_refs (s\<lparr>ts_counter := ts\<rparr>) s' = same_refs s s'"
  by (simp_all add: ds_inv_def ds_fs_def ds_path_def ds_objs_def ds_commits_def same_refs_def ds_branch_def)

text \<open>The objects a commit may be confused with: none, when the hash has no collision on them.\<close>

definition storable :: "hasher \<Rightarrow> DiskStore \<Rightarrow> Commit \<Rightarrow> bool" where
  "storable H s c \<longleftrightarrow> wf_commit c \<and> fits_record (encode_payload c)
     \<and> (\<exists>U. collision_free H U \<and> addressed H U (ds_objs H s) \<and> (Commit, encode_payload c) \<in> U)"

lemma persist_commit_spec:
  assumes inv: "ds_inv H s" and M: "mmap_ok M" and c: "storable H s c" and run: "persist_commit H c s = (r, s')"
  shows "ds_inv H s' \<and> same_refs s s' \<and> (case r of
      Inl e \<Rightarrow> overflow_err e \<and> ds_objs H s' = ds_objs H s
    | Inr h \<Rightarrow> h = H (encode_payload c) \<and> ds_objs H s' = put_objs H Commit (encode_payload c) (ds_objs H s)
        \<and> ds_commits H s' h = Some c)"
proof -
  let ?p = "encode_payload c"
  have i: "mmap_ok M \<and> cas_inv H (ds_cas s) \<and> framed (ds_fs s) (ds_path s) (ds_cas s)"
    using M ds_invD(1) [OF inv] framed_self [OF inv] by simp
  have fits: "fits_record ?p"
    using c by (simp add: storable_def)
  obtain r1 c1 where put: "cas_store_put H Commit ?p (ds_cas s) = (r1, c1)"
    by (cases "cas_store_put H Commit ?p (ds_cas s)")
  then have bput: "cas_put (store_backend H M) Commit ?p (ds_cas s) = (r1, c1)"
    by (simp add: store_backend_def)
  let ?s1 = "s\<lparr>ds_cas := c1\<rparr>"
  have oc: "on_cas (cas_store_put H Commit ?p) s = (r1, ?s1)"
    using put by (simp add: on_cas_def)
  show ?thesis
  proof (cases r1)
    case (Inl e)
    then have "overflow_err e" "cas_inv H c1" "framed (ds_fs s) (ds_path s) c1" "store_objs H c1 = ds_objs H s"
      using framed_disk.put_err [OF i fits] bput by (simp_all add: ds_objs_def)
    moreover from this have "ds_inv H ?s1 \<and> same_refs s ?s1"
      using on_cas_inv [OF inv, of c1 ?s1] by simp
    ultimately show ?thesis
      using run oc Inl by (auto simp: persist_commit_def try_st_def ds_objs_def)
  next
    case (Inr h)
    then have h: "h = H ?p" "cas_inv H c1" "framed (ds_fs s) (ds_path s) c1"
      "ds_objs H ?s1 = put_objs H Commit ?p (ds_objs H s)"
      using framed_disk.put_ok [OF i fits] bput by (simp_all add: ds_objs_def)
    have s1: "ds_inv H ?s1" "same_refs s ?s1"
      using on_cas_inv [OF inv h(2,3), of ?s1] h(4) put_objs_mono by (simp_all add: ds_objs_def)
    have "ds_objs H ?s1 h = Some (Commit, ?p)"
      using c h(1,4) put_objs_hit by (auto simp: storable_def)
    then have com: "ds_commits H ?s1 h = Some c"
      using c decode_encode_payload by (simp add: ds_commits_def commit_of_def storable_def)
    define s2 where "s2 = ?s1\<lparr>commit_cache := lru_insert h c (commit_cache ?s1)\<rparr>"
    note s2 = cache_commit_inv [OF s1(1) com s2_def]
    have r: "r = Inr h" and "s' = s2\<lparr>commits_since_fsync := commits_since_fsync s2 + 1\<rparr>
        \<or> s' = (s2\<lparr>ds_cas := cas_flush (ds_cas s2)\<rparr>)\<lparr>commits_since_fsync := 0\<rparr>"
      using run oc Inr by (auto simp: persist_commit_def try_st_def s2_def Let_def)
    then have "ds_inv H s' \<and> ds_objs H s' = ds_objs H s2 \<and> same_refs s2 s'"
      using s2(1) flush_ds_inv [OF s2(1)] by auto
    then show ?thesis
      using r h(1,4) s1(2) s2(2,3) com same_refs_trans by (auto simp: ds_commits_def)
  qed
qed

section \<open>Branches\<close>

text \<open>Writing branches and HEAD does not touch the object store.\<close>

lemma cas_inv_refs:
  assumes inv: "cas_inv H c"
    and diff: "\<And>q. fs_get fs' q \<noteq> fs_get (cas_fs c) q \<Longrightarrow>
      (\<exists>rest. q = repo_path c @ ''refs'' # rest) \<or> q = repo_path c @ [''HEAD'']"
  shows "cas_inv H (c\<lparr>cas_fs := fs'\<rparr>)" "store_objs H (c\<lparr>cas_fs := fs'\<rparr>) = store_objs H c"
proof -
  let ?c = "c\<lparr>cas_fs := fs'\<rparr>"
  note d = cas_invD [OF inv]
  note lay = d(1) [unfolded layout_ok_def]
  have data: "fs_get fs' (repo_path c @ ''data'' # q) = fs_get (cas_fs c) (repo_path c @ ''data'' # q)" for q
    using diff [of "repo_path c @ ''data'' # q"] by auto
  have idx: "fs_get fs' (repo_path c @ [''index.epi'']) = fs_get (cas_fs c) (repo_path c @ [''index.epi''])"
    using diff [of "repo_path c @ [''index.epi'']"] by auto
  have seg: "fs_get fs' (segment_path_for (repo_path c) i) = fs_get (cas_fs c) (segment_path_for (repo_path c) i)" for i
    using data by (simp add: segment_path_for_def)
  have pre: "fs_get fs' (take k (repo_path c @ [''data''])) = fs_get (cas_fs c) (take k (repo_path c @ [''data'']))" for k
  proof (rule ccontr)
    assume "fs_get fs' (take k (repo_path c @ [''data''])) \<noteq> fs_get (cas_fs c) (take k (repo_path c @ [''data'']))"
    from diff [OF this] obtain x rest where eq: "take k (repo_path c @ [''data'']) = repo_path c @ x # rest" "x \<noteq> ''data''"
      by auto
    have "take k (repo_path c @ [''data'']) ! length (repo_path c) = x"
      unfolding eq(1) by simp
    moreover have "length (repo_path c) < k"
      using arg_cong [OF eq(1), of length] by (simp split: if_splits)
    ultimately show False
      using eq(2) by (simp add: nth_append)
  qed
  have ix: "index_ok (cas_index c, cas_fs c)" "idx_file (cas_index c) = repo_path c @ [''index.epi'']"
    using lay by blast+
  then have "index_ok (cas_index c, fs')"
    using idx unfolding index_ok_def prod.case ix(2) by simp
  moreover have "is_dir_path fs' (repo_path c @ [''data''])"
  proof -
    have "is_dir_path (cas_fs c) (repo_path c @ [''data''])"
      using lay by blast
    then show ?thesis
      unfolding is_dir_path_def pre .
  qed
  moreover have "segments_upto fs' (repo_path c) (current_segment_id c)"
  proof -
    have "segments_upto (cas_fs c) (repo_path c) (current_segment_id c)"
      using lay by blast
    then show ?thesis
      unfolding segments_upto_def fs_exists_def data .
  qed
  ultimately have "layout_ok ?c"
    using lay unfolding layout_ok_def by (simp add: seg)
  moreover have "seg_bytes ?c = seg_bytes c"
    by (simp add: fun_eq_iff seg_bytes_def seg split: option.split node.split)
  moreover have "maps_ok ?c"
    using d(3) by (simp add: maps_ok_def seg)
  ultimately show "cas_inv H ?c" "store_objs H ?c = store_objs H c"
    using cas_inv_frame [OF inv, of ?c] d(2,4) by simp_all
qed

lemma on_fs_inv:
  assumes inv: "ds_inv H s" and tree: "repo_ok (ds_repo s) fs'"
    and diff: "\<And>q. fs_get fs' q \<noteq> fs_get (ds_fs s) q \<Longrightarrow>
      (\<exists>rest. q = ds_path s @ ''refs'' # rest) \<or> q = ds_path s @ [''HEAD'']"
    and s': "s' = s\<lparr>ds_cas := (ds_cas s)\<lparr>cas_fs := fs'\<rparr>\<rparr>"
  shows "ds_inv H s'" "ds_objs H s' = ds_objs H s"
proof -
  note d = ds_invD [OF inv]
  have "cas_inv H ((ds_cas s)\<lparr>cas_fs := fs'\<rparr>)" "store_objs H ((ds_cas s)\<lparr>cas_fs := fs'\<rparr>) = store_objs H (ds_cas s)"
    using cas_inv_refs [OF d(1), of fs'] diff d(2) by (simp_all add: ds_path_def ds_fs_def)
  then show "ds_inv H s'" "ds_objs H s' = ds_objs H s"
    using d tree by (simp_all add: ds_inv_def s' ds_fs_def ds_commits_def ds_objs_def)
qed

lemma write_op_cases:
  assumes "create_branch r name h fs = (res, fs') \<or> update_branch r name h fs = (res, fs')"
  shows "(\<exists>e. res = Inl e) \<and> fs' = fs \<or> write_branch r name h fs = (res, fs')"
  using assms by (auto simp: create_branch_def update_branch_def split: if_splits)

lemma branch_write_spec:
  assumes inv: "ds_inv H s" and plain: "plain_name name"
    and run: "ds_create_branch name h s = (res, s') \<or> ds_update_branch name h s = (res, s')"
  shows "ds_inv H s' \<and> ds_objs H s' = ds_objs H s \<and> ds_repo s' = ds_repo s \<and> commit_cache s' = commit_cache s
    \<and> (res = Inr () \<longrightarrow> ds_objs H s h \<noteq> None)
    \<and> (\<forall>m. plain_name m \<longrightarrow> ds_branch s' m = (if res = Inr () \<and> m = name then Some h else ds_branch s m))"
proof (cases "cas_contains (ds_cas s) h")
  case False
  then show ?thesis
    using run inv by (auto simp: ds_create_branch_def ds_update_branch_def)
next
  case True
  note d = ds_invD [OF inv]
  obtain fs' where op: "create_branch (ds_repo s) name h (ds_fs s) = (res, fs') \<or> update_branch (ds_repo s) name h (ds_fs s) = (res, fs')"
    and s': "s' = s\<lparr>ds_cas := (ds_cas s)\<lparr>cas_fs := fs'\<rparr>\<rparr>"
    using run True by (auto simp: ds_create_branch_def ds_update_branch_def on_fs_def split: prod.splits)
  note m = branch_write_map [OF d(3) plain op]
  have "(\<exists>rest. q = ds_path s @ ''refs'' # rest) \<or> q = ds_path s @ [''HEAD'']" if "fs_get fs' q \<noteq> fs_get (ds_fs s) q" for q
    using write_op_cases [OF op] write_branch_below [OF d(3) plain _ that] that by (auto simp: ds_path_def)
  then have "ds_inv H s'" "ds_objs H s' = ds_objs H s"
    using on_fs_inv [OF inv _ _ s'] m by blast+
  moreover have "ds_objs H s h \<noteq> None"
    using contains_objs [OF d(1), of h] True by (simp add: cas_contains_def ds_objs_def)
  ultimately show ?thesis
    using m by (simp add: s' ds_branch_def ds_fs_def)
qed

section \<open>Properties\<close>

text \<open>
  C15: with enough fuel \<open>merge_base\<close> on a store returns the common ancestor nearest to its second
  argument, one at the least number of parent steps from it, and \<open>None\<close> exactly when there is no common
  ancestor. It changes no object.
\<close>

theorem merge_base_nearest:
  assumes "mmap_ok M" "ds_inv H s" "complete (ds_commits H s) a" "complete (ds_commits H s) b"
    and "enough_fuel (ds_commits H s) a n" "enough_fuel (ds_commits H s) b n"
  shows "\<exists>r s'. merge_base (load_commit H M) n a b s = (Inr r, s')
    \<and> nearest (ds_commits H s) b (ancestors_of (ds_commits H s) a) r
    \<and> ds_inv H s' \<and> ds_commits H s' = ds_commits H s \<and> same_refs s s'"
  using dag.merge_base_ok [OF assms(3,4) dag_ready [OF assms(1,2)] refl assms(5,6)] by blast

text \<open>
  C16: \<open>ancestors_within_depth\<close> lists each proper ancestor at most \<open>max_depth\<close> parent steps away exactly once, even when commits further away are
  missing.
\<close>

theorem ancestors_within_depth_exact:
  assumes "mmap_ok M" "ds_inv H s" "finite (ancestors_of (ds_commits H s) x)"
    and "\<forall>k < m. level (ds_commits H s) x k \<subseteq> dom (ds_commits H s)" "card (ancestors_of (ds_commits H s) x) < n"
  shows "\<exists>res s'. ancestors_within_depth (load_commit H M) n x m s = (Inr res, s')
    \<and> set res = up_to (ds_commits H s) x m - {x} \<and> distinct res"
  using dag.within_depth_ok [OF assms(3) assms(4) [rule_format] dag_ready [OF assms(1,2)] refl assms(5)] by blast

text \<open>
  With enough fuel \<open>is_ancestor\<close> decides the ancestor relation, a commit being an ancestor of itself.
\<close>

theorem is_ancestor_exact:
  assumes "mmap_ok M" "ds_inv H s" "complete (ds_commits H s) y" "enough_fuel (ds_commits H s) y n"
  shows "fst (is_ancestor (load_commit H M) n x y s) = Inr (x \<in> ancestors_of (ds_commits H s) y)"
  using dag.is_ancestor_ok [OF assms(3) dag_ready [OF assms(1,2)] refl assms(4), of x] by auto

text \<open>Parents of a commit are objects of the store.\<close>

lemma missing_parent_None: "missing_parent cas ps = None \<longleftrightarrow> (\<forall>p \<in> set ps. cas_contains cas p)"
  by (induction ps) auto

lemma next_timestamp_simps:
  "snd (next_timestamp s) = s\<lparr>ts_counter := fst (next_timestamp s) + 1\<rparr>"
  by (simp add: next_timestamp_def Let_def)

text \<open>
  C12: committing stores a commit with the given parents, root and message that loads back unchanged,
  leaves every earlier commit and every branch as they were, and fails only for a parent that is not in
  the store or when the segment numbers run out.
\<close>

theorem commit_with_root_stores:
  assumes "mmap_ok M" "ds_inv H s" "storable H s (commit_new ps root (fst (next_timestamp s)) msg)"
    and "commit_with_root H ps root msg s = (r, s')"
  shows "ds_inv H s' \<and> same_refs s s' \<and> (\<forall>h c. ds_commits H s h = Some c \<longrightarrow> ds_commits H s' h = Some c)
    \<and> (case r of
         Inr h \<Rightarrow> (\<forall>p \<in> set ps. ds_objs H s p \<noteq> None)
           \<and> fst (load_commit H M h s') = Inr (commit_new ps root (fst (next_timestamp s)) msg)
       | Inl e \<Rightarrow> overflow_err e
           \<or> (\<exists>p \<in> set ps. ds_objs H s p = None \<and> e = Err (InvalidCommit (''parent not found: '' @ to_string p))))"
proof (cases "missing_parent (ds_cas s) ps")
  case (Some p)
  have "missing_parent cas qs = Some p \<Longrightarrow> p \<in> set qs \<and> \<not> cas_contains cas p" for cas qs
    by (induction qs) (auto split: if_splits)
  then have "p \<in> set ps" "ds_objs H s p = None"
    using Some contains_objs [OF ds_invD(1) [OF assms(2)], of p] unfolding cas_contains_def ds_objs_def by blast+
  then show ?thesis
    using assms(2,4) Some by (auto simp: commit_with_root_def)
next
  case None
  let ?c = "commit_new ps root (fst (next_timestamp s)) msg" and ?s1 = "snd (next_timestamp s)"
  have s1: "ds_inv H ?s1" "storable H ?s1 ?c" "ds_objs H ?s1 = ds_objs H s" "same_refs ?s1 = same_refs s"
    using assms(2,3) by (simp_all add: next_timestamp_simps storable_def fun_eq_iff)
  have "persist_commit H ?c ?s1 = (r, s')"
    using assms(4) None by (simp add: commit_with_root_def split: prod.splits)
  note p = persist_commit_spec [OF s1(1) assms(1) s1(2) this]
  have mono: "ds_objs H s \<subseteq>\<^sub>m ds_objs H s'"
    using p s1(3) put_objs_mono by (auto split: sum.splits)
  have par: "\<forall>p \<in> set ps. ds_objs H s p \<noteq> None"
    using None contains_objs [OF ds_invD(1) [OF assms(2)]] by (simp add: missing_parent_None cas_contains_def ds_objs_def)
  show ?thesis
  proof (cases r)
    case (Inl e)
    then show ?thesis
      using p s1 mono commit_of_mono by (auto simp: ds_commits_def)
  next
    case (Inr h)
    have "ds_inv H s'" "ds_commits H s' h = Some ?c"
      using p [unfolded Inr sum.case] by blast+
    then have "fst (load_commit H M h s') = Inr ?c"
      using load_commit_spec [OF assms(1), of H s' h "fst (load_commit H M h s')" "snd (load_commit H M h s')"] by simp
    then show ?thesis
      using p s1 mono commit_of_mono Inr par by (auto simp: ds_commits_def)
  qed
qed

section \<open>The fsync counter\<close>

definition counter_ok :: "DiskStore \<Rightarrow> bool" where
  "counter_ok s \<longleftrightarrow> 1 \<le> fsync_every s \<and> commits_since_fsync s < 0xFFFFFFFF"

text \<open>
  The counter of commits since the last fsync never overflows: it stays below the interval, and the
  increment is exact. Setting the interval keeps it at least one.
\<close>

theorem fsync_counter_bounds:
  assumes "counter_ok s" "persist_commit H c s = (Inr h, s')"
  shows "counter_ok s' \<and> commits_since_fsync s' < fsync_every s'
    \<and> unat (commits_since_fsync s + 1) = unat (commits_since_fsync s) + 1
    \<and> counter_ok (set_fsync_every k s')"
proof -
  let ?n = "commits_since_fsync s" and ?e = "fsync_every s"
  have n: "?n < 0xFFFFFFFF" "1 \<le> ?e"
    using assms(1) by (simp_all add: counter_ok_def)
  have s': "fsync_every s' = ?e" "commits_since_fsync s' = (if ?n + 1 \<ge> ?e then 0 else ?n + 1)"
    using assms(2) by (auto simp: persist_commit_def try_st_def on_cas_def Let_def split: prod.splits sum.splits if_splits)
  have "unat ?e < 2 ^ LENGTH(32)"
    by (rule unsigned_less)
  then have "?e \<le> 0xFFFFFFFF"
    by (simp add: word_le_nat_alt)
  then have lt: "commits_since_fsync s' < ?e" "commits_since_fsync s' < 0xFFFFFFFF"
    using n s'(2) by (auto simp: not_le word_less_nat_alt word_le_nat_alt)
  moreover have "unat (?n + 1) = unat ?n + 1"
    using n(1) by (subst unat_word_ariths) (simp add: word_less_nat_alt)
  ultimately show ?thesis
    using n(2) s'(1) by (simp add: counter_ok_def set_fsync_every_def)
qed

section \<open>Crashes\<close>



text \<open>
  C18: a branch that was created or moved to a commit checks out as that commit, unless its name is
  \<open>HEAD\<close> in some case, which \<open>checkout\<close> takes for HEAD.
\<close>

theorem checkout_branch:
  assumes "mmap_ok M" "ds_inv H s" "plain_name name" "\<not> eq_ignore_ascii_case name ''HEAD''"
    and "ds_create_branch name h s = (Inr (), s') \<or> ds_update_branch name h s = (Inr (), s')"
    and "ds_commits H s h = Some c"
  shows "fst (checkout H M name s') = Inr c"
proof -
  note b = branch_write_spec [OF assms(2,3,5)]
  have "ds_branch s' name = Some h"
    using b assms(3) by simp
  then have "resolve_target name s' = Inr h"
    using assms(4) by (auto simp: resolve_target_def ds_branch_def branch_of_def split: sum.splits)
  moreover have "fst (load_commit H M h s') = Inr c"
    using load_commit_spec [OF assms(1), of H s' h "fst (load_commit H M h s')" "snd (load_commit H M h s')"] b assms(6)
    by (simp add: ds_commits_def)
  ultimately show ?thesis
    by (simp add: checkout_def)
qed

section \<open>Tries on the store\<close>

primrec op_pair :: "HamtOp \<Rightarrow> bytes \<times> bytes" where
  "op_pair (Put k v) = (k, v)"

text \<open>A batch of puts on a tree, and when each of them is safe: no colliding leaf, no zero hash.\<close>

fun o_puts :: "hasher \<Rightarrow> nat \<Rightarrow> htree option \<Rightarrow> HamtOp list \<Rightarrow> htree option" where
  "o_puts H n ot [] = ot"
| "o_puts H n ot (Put k v # ops) = o_puts H n (o_insert H n ot k v) ops"

fun puts_ok :: "hasher \<Rightarrow> nat \<Rightarrow> (RecordType \<times> bytes) set \<Rightarrow> htree option \<Rightarrow> HamtOp list \<Rightarrow> bool" where
  "puts_ok H n U ot [] \<longleftrightarrow> root_of H ot \<noteq> Some ZERO"
| "puts_ok H n U ot (Put k v # ops) \<longleftrightarrow> root_of H ot \<noteq> Some ZERO \<and> o_clear H ot k \<and> ok_leaf k v
     \<and> o_insert H n ot k v \<noteq> None \<and> o_recs H (o_insert H n ot k v) \<subseteq> U \<and> puts_ok H n U (o_insert H n ot k v) ops"

lemma puts_ok_root: "puts_ok H n U ot ops \<Longrightarrow> root_of H ot \<noteq> Some ZERO \<and> root_of H (o_puts H n ot ops) \<noteq> Some ZERO"
  by (induction H n ot ops rule: o_puts.induct) auto

lemma put_one_spec:
  assumes M: "mmap_ok M" and inv: "ds_inv H s" and U: "collision_free H U" "addressed H U (ds_objs H s)"
    and st: "o_stored H (ds_objs H s) ot" and ok: "o_clear H ot k" "ok_leaf k v" "o_insert H n ot k v = Some t"
      "tree_recs H t \<subseteq> U"
    and run: "on_cas (hamt_insert H (store_backend H M) n (root_of H ot) k v) s = (r, s')"
  shows "ds_inv H s' \<and> ds_objs H s \<subseteq>\<^sub>m ds_objs H s' \<and> same_refs s s' \<and> addressed H U (ds_objs H s')
    \<and> (case r of Inl e \<Rightarrow> overflow_err e | Inr h \<Rightarrow> root_of H (Some t) = Some h \<and> o_stored H (ds_objs H s') (Some t))"
proof -
  have "framed_disk.ready H M (ds_fs s) (ds_path s) U (ds_cas s)"
    unfolding framed_disk.ready_def using M U framed_self [OF inv] ds_invD(1) [OF inv] by (simp add: ds_objs_def)
  from framed_disk.hamt_insert_map [OF this _ ok] st
  have w: "framed_disk.writes_to H M (ds_fs s) (ds_path s) U (hamt_insert H (store_backend H M) n (root_of H ot) k v) (ds_cas s)
      (\<lambda>h m. root_of H (Some t) = Some h \<and> o_stored H m (Some t))"
    by (simp add: ds_objs_def)
  obtain c where c: "hamt_insert H (store_backend H M) n (root_of H ot) k v (ds_cas s) = (r, c)" "s' = s\<lparr>ds_cas := c\<rparr>"
    using run by (auto simp: on_cas_def split: prod.splits)
  then have c': "cas_inv H c" "framed (ds_fs s) (ds_path s) c" "ds_objs H s \<subseteq>\<^sub>m store_objs H c" "addressed H U (store_objs H c)"
    "case r of Inl e \<Rightarrow> overflow_err e | Inr h \<Rightarrow> root_of H (Some t) = Some h \<and> o_stored H (store_objs H c) (Some t)"
    using w unfolding framed_disk.writes_to_def framed_disk.ready_def by (simp_all add: ds_objs_def)
  from on_cas_inv [OF inv c'(1-3) c(2)] show ?thesis
    using c'(4,5) c(2) by (simp add: ds_objs_def split: sum.splits)
qed

lemma put_ops_spec:
  assumes "mmap_ok M" "ds_inv H s" "collision_free H U" "addressed H U (ds_objs H s)" "o_stored H (ds_objs H s) ot"
    and "puts_ok H n U ot ops" "put_ops H M n (root_of H ot) ops s = (r, s')"
  shows "ds_inv H s' \<and> ds_objs H s \<subseteq>\<^sub>m ds_objs H s' \<and> same_refs s s' \<and> (case r of Inl e \<Rightarrow> overflow_err e
    | Inr root \<Rightarrow> root = root_of H (o_puts H n ot ops) \<and> o_stored H (ds_objs H s') (o_puts H n ot ops)
        \<and> (\<forall>q. o_lookup H (o_puts H n ot ops) q = (o_lookup H ot ++ map_of (rev (map op_pair ops))) q))"
  using assms(2,4-)
proof (induction ops arbitrary: ot s)
  case (Cons op ops)
  obtain k v where op: "op = Put k v"
    by (cases op)
  obtain t where t: "o_insert H n ot k v = Some t" "tree_recs H t \<subseteq> U" "o_clear H ot k" "ok_leaf k v"
    and root: "hamt_base (root_of H ot) = root_of H ot" and rest: "puts_ok H n U (Some t) ops"
    using Cons.prems(4) op by (auto simp: o_recs_def hamt_base_def)
  obtain r1 s1 where one: "on_cas (hamt_insert H (store_backend H M) n (root_of H ot) k v) s = (r1, s1)"
    by (cases "on_cas (hamt_insert H (store_backend H M) n (root_of H ot) k v) s")
  note p = put_one_spec [OF assms(1) Cons.prems(1) assms(3) Cons.prems(2,3) t(3,4,1,2) one]
  show ?case
  proof (cases r1)
    case (Inl e)
    then show ?thesis
      using Cons.prems(5) one p root op by (auto simp: try_st_def)
  next
    case (Inr h)
    then have "put_ops H M n (root_of H (Some t)) ops s1 = (r, s')"
      using Cons.prems(5) one p root op by (auto simp: try_st_def)
    moreover have s1: "ds_inv H s1" "ds_objs H s \<subseteq>\<^sub>m ds_objs H s1" "same_refs s s1" "addressed H U (ds_objs H s1)"
      "o_stored H (ds_objs H s1) (Some t)"
      using p Inr by simp_all
    ultimately have ih: "ds_inv H s' \<and> ds_objs H s1 \<subseteq>\<^sub>m ds_objs H s' \<and> same_refs s1 s' \<and> (case r of Inl e \<Rightarrow> overflow_err e
      | Inr root \<Rightarrow> root = root_of H (o_puts H n (Some t) ops) \<and> o_stored H (ds_objs H s') (o_puts H n (Some t) ops)
        \<and> (\<forall>q. o_lookup H (o_puts H n (Some t) ops) q = (o_lookup H (Some t) ++ map_of (rev (map op_pair ops))) q))"
      using Cons.IH [OF s1(1,4,5) rest] by blast
    have look: "o_lookup H (Some t) q = (if q = k then Some v else o_lookup H ot q)" for q
      using o_lookup_insert [OF Cons.prems(3) t(3,1)] .
    have "(o_lookup H (Some t) ++ map_of (rev (map op_pair ops))) q =
        (o_lookup H ot ++ map_of (rev (map op_pair (op # ops)))) q" for q
      by (auto simp: map_add_def op look split: option.split)
    with ih show ?thesis
      using s1(2,3) op t(1) same_refs_trans map_le_trans by (auto split: sum.splits)
  qed
qed auto

text \<open>
  C14: when applying a batch of puts to a trie on the store succeeds, it gives a root under which every key
  has the value last put, or its old value, and changes no branch and no object there was. This is for
  batches in which no key meets a colliding leaf at its turn (\<open>collision_loses_a_key\<close> shows what happens otherwise), no root
  on the way has the zero hash, which stands for the empty trie, and the hash function has no collision
  on the records involved.
\<close>

theorem apply_ops_map:
  assumes "mmap_ok M" "ds_inv H s" "collision_free H U" "addressed H U (ds_objs H s)" "o_stored H (ds_objs H s) ot"
    and "puts_ok H n U ot ops" "apply_hamt_ops H M n (root_of H ot) ops s = (Inr h, s')"
    and "o_height (o_puts H n ot ops) < m"
  shows "ds_inv H s' \<and> same_refs s s' \<and> ds_objs H s \<subseteq>\<^sub>m ds_objs H s'
    \<and> (\<forall>q. fst (ds_get H M m h q s') = Inr ((o_lookup H ot ++ map_of (rev (map op_pair ops))) q))"
proof -
  obtain root where run: "put_ops H M n (root_of H ot) ops s = (Inr root, s')" and h: "h = unwrap_or_zero root"
    using assms(7) by (auto simp: apply_hamt_ops_def try_st_def split: prod.splits sum.splits)
  note p = put_ops_spec [OF assms(1-6) run, unfolded sum.case]
  have inv: "ds_inv H s'" and st: "o_stored H (ds_objs H s') (o_puts H n ot ops)"
    and root: "root = root_of H (o_puts H n ot ops)"
    using p by blast+
  have "fst (ds_get H M m h q s') = Inr (o_lookup H (o_puts H n ot ops) q)" for q
  proof (cases "o_puts H n ot ops")
    case None
    then show ?thesis
      using h root by (simp add: ds_get_def unwrap_or_zero_def o_lookup_def root_of_def)
  next
    case (Some t)
    then have "h \<noteq> ZERO" "Some h = root_of H (Some t)"
      using h root puts_ok_root [OF assms(6)] by (simp_all add: unwrap_or_zero_def root_of_def)
    moreover have "mmap_ok M \<and> cas_inv H (ds_cas s')"
      using assms(1) ds_invD(1) [OF inv] by simp
    from disk.hamt_get_map [OF this _ assms(8), of q] have "fst (hamt_get H (store_backend H M) m (root_of H (Some t)) q (ds_cas s')) =
        Inr (o_lookup H (Some t) q)"
      using st Some by (auto simp: disk.reads_def ds_objs_def)
    ultimately show ?thesis
      using Some by (cases "hamt_get H (store_backend H M) m (root_of H (Some t)) q (ds_cas s')")
        (simp add: ds_get_def on_cas_def)
  qed
  then show ?thesis
    using p by simp
qed

section \<open>All branches\<close>

definition tips_ok :: "hasher \<Rightarrow> DiskStore \<Rightarrow> string list \<Rightarrow> bool" where
  "tips_ok H s names \<longleftrightarrow>
     (\<forall>name \<in> set names. plain_name name \<and> (\<exists>h. ds_branch s name = Some h \<and> complete (ds_commits H s) h))"

definition from_tips :: "hasher \<Rightarrow> DiskStore \<Rightarrow> string list \<Rightarrow> hash set" where
  "from_tips H s names = (\<Union>name \<in> set names. ancestors_of (ds_commits H s) (the (ds_branch s name)))"

lemma walk_fuel_mono: "finite B \<Longrightarrow> A \<subseteq> B \<Longrightarrow> walk_fuel C A \<le> walk_fuel C B"
  unfolding walk_fuel_def by (rule sum_mono2) auto

lemma from_tips_finite: "tips_ok H s names \<Longrightarrow> finite (from_tips H s names)"
  by (auto simp: tips_ok_def from_tips_def complete_def)

lemma reachable_from_ok:
  assumes "mmap_ok M" "tips_ok H orig names" "finite seen" "seen \<subseteq> dom C" "\<And>y. y \<in> seen \<Longrightarrow> set (parents_of C y) \<subseteq> seen"
    and "ds_inv H s" "same_refs orig s" "ds_commits H s = C" "ds_commits H orig = C"
    and "Suc (walk_fuel C (seen \<union> from_tips H orig names)) < n"
  shows "fst (reachable_from H M n names seen s) = Inr (seen \<union> from_tips H orig names)"
  using assms(2-)
proof (induction names arbitrary: seen s)
  case Nil
  then show ?case by (simp add: from_tips_def)
next
  case (Cons name names)
  obtain h where h: "ds_branch orig name = Some h" "complete C h" "plain_name name" and ok: "tips_ok H orig names"
    using Cons.prems(1,8) by (auto simp: tips_ok_def)
  let ?seen = "seen \<union> ancestors_of C h"
  have eq: "?seen \<union> from_tips H orig names = seen \<union> from_tips H orig (name # names)"
    using h(1) Cons.prems(8) by (auto simp: from_tips_def)
  have fin: "finite (seen \<union> from_tips H orig (name # names))"
    using Cons.prems(1,2) from_tips_finite by auto
  have "Suc (walk_fuel C ?seen) < n"
    using walk_fuel_mono [OF fin, of ?seen C] Cons.prems(9) Un_upper1 [of ?seen "from_tips H orig names"] unfolding eq
    by linarith
  then obtain s1 where s1: "collect_loop (load_commit H M) n [h] seen s = (Inr ?seen, s1)" "ds_inv H s1" "same_refs orig s1"
    "ds_commits H s1 = C"
    using dag.collect_loop_ok [where s = s and orig = orig, OF h(2) Cons.prems(2-4) _ Cons.prems(7)] Cons.prems(5,6) assms(1) by blast
  have "ds_branch s name = Some h"
    using Cons.prems(6) h by (simp add: same_refs_def)
  then obtain b where "get_branch name s = Inr b" "branch_target b = h"
    by (auto simp: ds_branch_def branch_of_def get_branch_def split: sum.splits)
  then have "fst (reachable_from H M n (name # names) seen s) = fst (reachable_from H M n names ?seen s1)"
    using s1(1) by (simp add: try_st_def)
  also have "\<dots> = Inr (?seen \<union> from_tips H orig names)"
  proof (rule Cons.IH [OF ok])
    show "finite ?seen" "?seen \<subseteq> dom C"
      using Cons.prems(2,3) h(2) by (auto simp: complete_def)
    show "set (parents_of C y) \<subseteq> ?seen" if "y \<in> ?seen" for y
      using that Cons.prems(4) [of y] ancestors_parent [of y C h] by auto
    show "Suc (walk_fuel C (?seen \<union> from_tips H orig names)) < n"
      unfolding eq by (rule Cons.prems(9))
  qed (use s1 Cons.prems(8) in simp_all)
  finally show ?case
    unfolding eq .
qed

text \<open>
  C17: with enough fuel \<open>reachable_commits\<close> returns exactly the ancestors of the tips of the listed
  branches.
\<close>

theorem reachable_commits_exact:
  assumes "mmap_ok M" "ds_inv H s" "ds_list_branches s = Inr names" "tips_ok H s names"
    and "Suc (walk_fuel (ds_commits H s) (from_tips H s names)) < n"
  shows "fst (reachable_commits H M n s) = Inr (from_tips H s names)"
  using reachable_from_ok [OF assms(1,4), of "{}" "ds_commits H s" s n] assms by (simp add: reachable_commits_def)

end
