(* ===== verification/Disk_Examples.thy ===== *)
theory Disk_Examples
  imports Disk_Dag
begin

text \<open>
  A small store on which the properties of the versioned store apply: one empty segment, one branch
  \<open>main\<close> naming the hash of a first commit, and that commit.
\<close>

section \<open>A store\<close>

definition ex_commit :: Commit where
  "ex_commit = commit_new [] ZERO 7 ''first''"

definition ex_hash :: hash where
  "ex_hash = pad_hash (encode_payload ex_commit)"

definition ex_main :: node where
  "ex_main = File (as_bytes_str (to_string ex_hash @ newline))"

definition ex_disk_fs :: Fs where
  "ex_disk_fs = fs_set [''refs'', ''heads'', ''main''] ex_main
     (fs_set [''refs'', ''heads''] Dir (fs_set [''refs''] Dir (cas_fs ex_store)))"

definition ex_disk :: DiskStore where
  "ex_disk = disk_store ex_repo (ex_store\<lparr>cas_fs := ex_disk_fs\<rparr>) 7"

lemma load_entries_empty: "load_entries [] [] = Inr []"
  by (subst load_entries.simps) (simp add: INDEX_ENTRY_LEN_def)

lemma ex_store_nodes:
  "\<exists>b. fs_nodes (cas_fs ex_store) = [([''data''], Dir), ([''index.epi''], File []), ([''data'', ''000000.epl''], File b)]
    \<and> fs_synced (cas_fs ex_store) = [([''data'', ''000000.epl''], b)]"
proof -
  have "segment_path_for [] 0 = [''data'', ''000000.epl'']"
    by code_simp
  then show ?thesis
    by (simp add: ex_store_def cas_open_def create_dir_all_def index_open_def fs_open_append_def ex_fs_def fs_get_def
        fs_set_def fs_read_def try_st_def load_entries_empty find_latest_segment_def fs_read_dir_def
        open_or_create_segment_def fs_exists_def fs_append_def fs_sync_def Let_def)
qed

lemma ex_disk_tree: "fs_tree ex_disk_fs"
proof -
  obtain b where "fs_nodes (cas_fs ex_store) = [([''data''], Dir), ([''index.epi''], File []), ([''data'', ''000000.epl''], File b)]"
    using ex_store_nodes by blast
  then show ?thesis
    by (auto simp: ex_disk_fs_def fs_tree_def fs_ok_def wf_map_def fs_exists_def fs_get_def fs_set_def split: if_splits)
qed

lemma ex_disk_refs: "fs_get ex_disk_fs (''refs'' # q) =
  (if q = [] \<or> q = [''heads''] then Some Dir else if q = [''heads'', ''main''] then Some ex_main else None)"
proof -
  have "fs_get (cas_fs ex_store) (''refs'' # q) = None"
    using ex_store_nodes by (auto simp: fs_get_def)
  then show ?thesis
    by (simp add: ex_disk_fs_def fs_get_set)
qed

lemma ex_disk_cas: "cas_inv H (ds_cas ex_disk)" "store_objs H (ds_cas ex_disk) = Map.empty"
proof -
  have "(\<exists>rest. q = repo_path ex_store @ ''refs'' # rest) \<or> q = repo_path ex_store @ [''HEAD'']"
    if "fs_get ex_disk_fs q \<noteq> fs_get (cas_fs ex_store) q" for q
    using that by (auto simp: ex_disk_fs_def fs_get_set ex_store(4) split: if_splits)
  from cas_inv_refs [OF ex_store(2) this] show "cas_inv H (ds_cas ex_disk)" "store_objs H (ds_cas ex_disk) = Map.empty"
    by (simp_all add: ex_disk_def disk_store_def ex_store(3))
qed

lemma ex_disk_simps:
  "ds_path ex_disk = []" "ds_fs ex_disk = ex_disk_fs" "ds_repo ex_disk = ex_repo" "fsync_every ex_disk = 1"
  "commits_since_fsync ex_disk = 0" "ts_counter ex_disk = 7"
  by (simp_all add: ex_disk_def disk_store_def ds_path_def ex_repo_def ds_fs_def)

lemma ex_disk_inv: "ds_inv H ex_disk" "ds_objs H ex_disk = Map.empty"
proof -
  have "repo_ok ex_repo ex_disk_fs"
    using ex_disk_tree by (simp add: repo_ok_def ex_repo_def ex_disk_refs)
  moreover have "repo_root ex_repo = repo_path (ds_cas ex_disk)"
    by (simp add: ex_repo_def ex_disk_def disk_store_def ex_store(4))
  moreover have "commit_cache ex_disk = lru_new COMMIT_CACHE_CAP"
    by (simp add: ex_disk_def disk_store_def)
  ultimately show "ds_inv H ex_disk"
    by (simp add: ds_inv_def ex_disk_cas ex_disk_simps lru_ok_new)
  show "ds_objs H ex_disk = Map.empty"
    by (simp add: ds_objs_def ex_disk_cas)
qed

lemma ex_disk_put:
  assumes "length p < 1000"
  shows "cas_store_put H ty p (ds_cas ex_disk) = (Inr (H p), append_record ty p (H p) (ds_cas ex_disk))"
proof -
  have "\<not> index_contains (cas_index (ds_cas ex_disk)) (H p)"
    using contains_objs [OF ex_disk_cas(1) [of H]] by (simp add: ex_disk_cas(2))
  moreover have "current_offset (ds_cas ex_disk) = SEGMENT_HEADER_LEN"
    by (simp add: ex_disk_def disk_store_def ex_store(5))
  ultimately show ?thesis
    using assms by (simp add: cas_store_put_def ensure_segment_capacity_def try_st_def Let_def SEGMENT_MAX_BYTES_def
        SEGMENT_HEADER_LEN_def)
qed

section \<open>A commit\<close>

lemma ex_payload_length: "length (encode_payload ex_commit) < 1000"
  by (simp add: ex_commit_def commit_new_def encode_payload_eq commit_tail_def)

lemma ex_storable: "storable pad_hash ex_disk ex_commit"
proof -
  have "wf_commit ex_commit"
    by (simp add: wf_commit_def ex_commit_def commit_new_def valid_str_ascii ascii_str_def byte_of_char_def sorted_map_def)
  moreover have "fits_record (encode_payload ex_commit)"
    using ex_payload_length by (simp add: fits_record_def)
  moreover have "collision_free pad_hash {(Commit, encode_payload ex_commit)}"
    "addressed pad_hash {(Commit, encode_payload ex_commit)} (ds_objs pad_hash ex_disk)"
    by (simp_all add: collision_free_def addressed_def ex_disk_inv)
  ultimately show ?thesis
    unfolding storable_def by blast
qed

lemma ex_next: "next_timestamp ex_disk = (7, ex_disk\<lparr>ts_counter := 8\<rparr>)"
  by (simp add: next_timestamp_def ex_disk_simps Let_def)

definition ex_disk1 :: DiskStore where
  "ex_disk1 = snd (commit_with_root pad_hash [] ZERO ''first'' ex_disk)"

lemma ex_commit_run:
  "commit_with_root pad_hash [] ZERO ''first'' ex_disk = (Inr ex_hash, ex_disk1)"
  "persist_commit pad_hash ex_commit (ex_disk\<lparr>ts_counter := 8\<rparr>) = (Inr ex_hash, ex_disk1)"
proof -
  have "fst (persist_commit pad_hash ex_commit (ex_disk\<lparr>ts_counter := 8\<rparr>)) = Inr ex_hash"
    using ex_disk_put [OF ex_payload_length]
    by (simp add: persist_commit_def try_st_def on_cas_def Let_def ex_hash_def)
  moreover have "commit_with_root pad_hash [] ZERO ''first'' ex_disk =
      persist_commit pad_hash ex_commit (ex_disk\<lparr>ts_counter := 8\<rparr>)"
    by (simp add: commit_with_root_def ex_next ex_commit_def)
  ultimately show "commit_with_root pad_hash [] ZERO ''first'' ex_disk = (Inr ex_hash, ex_disk1)"
    "persist_commit pad_hash ex_commit (ex_disk\<lparr>ts_counter := 8\<rparr>) = (Inr ex_hash, ex_disk1)"
    by (simp_all add: ex_disk1_def prod_eq_iff)
qed

lemma ex_disk1: "ds_inv pad_hash ex_disk1" "same_refs ex_disk ex_disk1" "ds_commits pad_hash ex_disk1 = [ex_hash \<mapsto> ex_commit]"
proof -
  have pre: "ds_inv pad_hash (ex_disk\<lparr>ts_counter := 8\<rparr>)" "storable pad_hash (ex_disk\<lparr>ts_counter := 8\<rparr>) ex_commit"
    using ex_disk_inv ex_storable by (simp_all add: storable_def)
  note p = persist_commit_spec [OF pre(1) ex_mmap pre(2) ex_commit_run(2), unfolded sum.case]
  have "same_refs (ex_disk\<lparr>ts_counter := 8\<rparr>) ex_disk1"
    using p by blast
  then show "ds_inv pad_hash ex_disk1" "same_refs ex_disk ex_disk1"
    using p by (blast, simp only: counter_inv)
  have "ds_objs pad_hash ex_disk1 = put_objs pad_hash Commit (encode_payload ex_commit) (ds_objs pad_hash ex_disk)"
    using p by (simp only: counter_inv)
  then have objs: "ds_objs pad_hash ex_disk1 = [ex_hash \<mapsto> (Commit, encode_payload ex_commit)]"
    by (simp add: put_objs_def ex_disk_inv ex_hash_def)
  have "decode_payload (encode_payload ex_commit) = Inr ex_commit"
    using ex_storable by (simp add: storable_def decode_encode_payload)
  then show "ds_commits pad_hash ex_disk1 = [ex_hash \<mapsto> ex_commit]"
    by (auto simp: ds_commits_def commit_of_def objs)
qed

lemma ex_history:
  "ancestors_of [ex_hash \<mapsto> ex_commit] ex_hash = {ex_hash}" "complete [ex_hash \<mapsto> ex_commit] ex_hash"
  "enough_fuel [ex_hash \<mapsto> ex_commit] ex_hash 2"
proof -
  have ps: "parents_of [ex_hash \<mapsto> ex_commit] x = []" for x
    by (simp add: parents_of_def ex_commit_def commit_new_def)
  then show anc: "ancestors_of [ex_hash \<mapsto> ex_commit] ex_hash = {ex_hash}"
    using ancestors_closed [of ex_hash "{ex_hash}" "[ex_hash \<mapsto> ex_commit]"] by auto
  then show "complete [ex_hash \<mapsto> ex_commit] ex_hash" "enough_fuel [ex_hash \<mapsto> ex_commit] ex_hash 2"
    by (simp_all add: complete_def enough_fuel_def walk_fuel_def ps)
qed

lemma ex_branch: "ds_branch ex_disk1 ''main'' = Some ex_hash"
proof -
  have pl: "plain_name ''main''"
    by (simp add: plain_name_def plain_part_def)
  have "ds_branch ex_disk ''main'' = Some ex_hash"
    using branch_of_plain [OF ex_disk_tree pl, of ex_repo] ex_disk_refs [of "[''heads'', ''main'']"]
    by (simp add: ds_branch_def ex_disk_simps ref_file_def ex_repo_files(4) ex_main_def file_hash_written del: as_bytes_str_simps)
  then show ?thesis
    using ex_disk1(2) pl by (simp add: same_refs_def)
qed

section \<open>Witnesses\<close>

theorem merge_base_nearest_witness:
  "\<exists>r s'. merge_base (load_commit pad_hash Inr) 2 ex_hash ex_hash ex_disk1 = (Inr r, s')
    \<and> nearest [ex_hash \<mapsto> ex_commit] ex_hash {ex_hash} r"
  using merge_base_nearest [OF ex_mmap ex_disk1(1), of ex_hash ex_hash 2] ex_history by (auto simp: ex_disk1(3))

theorem ancestors_within_depth_exact_witness:
  "\<exists>res s'. ancestors_within_depth (load_commit pad_hash Inr) 2 ex_hash 1 ex_disk1 = (Inr res, s') \<and> set res = {}"
proof -
  have "up_to [ex_hash \<mapsto> ex_commit] ex_hash 1 \<subseteq> ancestors_of [ex_hash \<mapsto> ex_commit] ex_hash"
    by (auto simp: up_to_def ancestors_levels)
  then have up: "up_to [ex_hash \<mapsto> ex_commit] ex_hash 1 - {ex_hash} = {}"
    unfolding ex_history(1) by blast
  have "finite (ancestors_of (ds_commits pad_hash ex_disk1) ex_hash)" "card (ancestors_of (ds_commits pad_hash ex_disk1) ex_hash) < 2"
    "\<forall>k < 1. level (ds_commits pad_hash ex_disk1) ex_hash k \<subseteq> dom (ds_commits pad_hash ex_disk1)"
    unfolding ex_disk1(3) ex_history(1) by simp_all
  from ancestors_within_depth_exact [OF ex_mmap ex_disk1(1) this(1,3,2)] show ?thesis
    unfolding ex_disk1(3) up by blast
qed

theorem is_ancestor_exact_witness:
  "fst (is_ancestor (load_commit pad_hash Inr) 2 ex_hash ex_hash ex_disk1) = Inr True"
  using is_ancestor_exact [OF ex_mmap ex_disk1(1), of ex_hash 2 ex_hash] ex_history by (simp add: ex_disk1(3))

theorem commit_with_root_stores_witness:
  "fst (load_commit pad_hash Inr ex_hash ex_disk1) = Inr ex_commit"
  using commit_with_root_stores [OF ex_mmap ex_disk_inv(1) _ ex_commit_run(1)] ex_storable
  by (simp add: ex_next ex_commit_def)

theorem fsync_counter_bounds_witness:
  "counter_ok ex_disk1 \<and> commits_since_fsync ex_disk1 < fsync_every ex_disk1"
proof -
  have "counter_ok (ex_disk\<lparr>ts_counter := 8\<rparr>)"
    by (simp add: counter_ok_def ex_disk_simps)
  from fsync_counter_bounds [OF this ex_commit_run(2), of 1] show ?thesis by (simp only:)
qed






text \<open>Moving a branch that can be read succeeds.\<close>

lemma file_hash_Some: "file_hash n = Some h \<Longrightarrow> \<exists>b. n = Some (File b)"
  by (auto simp: file_hash_def split: option.splits node.splits)

lemma update_existing:
  assumes "repo_ok r fs" "plain_name name" "branch_of r fs name = Some h0"
  shows "fst (update_branch r name h fs) = Inr ()"
proof -
  let ?base = "repo_root r @ [''refs'', ''heads'']" and ?parts = "split_at (CHR ''/'') name"
  have tree: "fs_tree fs"
    using assms(1) by (simp add: repo_ok_def)
  have pl: "list_all plain_part ?parts" "plain_part (last ?parts)" "?parts \<noteq> []"
    using assms(2) by (simp_all add: plain_name_def list_all_iff)
  have "file_hash (fs_get fs (ref_file r name)) = Some h0"
    using assms(3) unfolding branch_of_plain [OF tree assms(2)] .
  then obtain b where b: "fs_get fs (ref_file r name) = Some (File b)"
    using file_hash_Some by blast
  have par: "fs_get fs (?base @ butlast ?parts) = Some Dir"
    using fs_tree_prefix [OF tree, of "?base @ butlast ?parts" "[last ?parts]"] b pl(3)
    by (simp add: ref_file_def fs_exists_def)
  have ex: "raw_exists fs (branch_ref_path r name)"
    using raw_exists_plain [OF tree pl(1), of ?base] b assms(2) by (simp add: plain_ref_path ref_file_def fs_exists_def)
  have "list_all plain_part (?base @ butlast ?parts)"
    using assms(1) pl(1) by (auto simp: repo_ok_def plain_part_def list_all_iff dest: in_set_butlastD)
  then have "create_raw [] ((?base @ butlast ?parts) @ []) fs = create_raw ([] @ ?base @ butlast ?parts) [] fs"
    using par by (intro create_raw_existing tree) simp_all
  then have cr: "create_raw [] (?base @ butlast ?parts) fs = (Inr (), fs)"
    by (simp only: append_Nil append_Nil2 create_raw.simps)
  have st: "strip_trailing {'''', ''.''} ?parts = ?parts" "strip_trailing {''''} ?parts = ?parts"
    using pl(2) by (auto simp: plain_part_def intro!: strip_trailing_id)
  have mk: "raw_create_dir_all (raw_parent (branch_ref_path r name)) fs = (Inr (), fs)"
    using cr st(1) pl(3) assms(2) by (simp add: raw_create_dir_all_def raw_parent_def plain_ref_path)
  have "resolve fs ?base ?parts = Inr (ref_file r name)"
    using resolve_existing [OF tree pl(1), of ?base] par by (simp add: ref_file_def)
  then have "fst (raw_write (branch_ref_path r name) c fs) = Inr ()" for c
    using b pl(2,3) assms(2) st(2) by (simp add: raw_write_def plain_ref_path plain_part_def fs_write_def Let_def)
  then show ?thesis
    using ex mk by (simp add: update_branch_def write_branch_def try_st_def)
qed

definition ex_disk2 :: DiskStore where
  "ex_disk2 = snd (ds_update_branch ''main'' ex_hash ex_disk1)"

lemma ex_update: "ds_update_branch ''main'' ex_hash ex_disk1 = (Inr (), ex_disk2)"
proof -
  have "plain_name ''main''"
    by (simp add: plain_name_def plain_part_def)
  then have "fst (update_branch (ds_repo ex_disk1) ''main'' ex_hash (ds_fs ex_disk1)) = Inr ()"
    using update_existing [OF ds_invD(3) [OF ex_disk1(1)]] ex_branch by (simp add: ds_branch_def)
  moreover have "commit_of (ds_objs pad_hash ex_disk1) ex_hash = Some ex_commit"
    using ex_disk1(3) by (simp add: ds_commits_def)
  then have "ds_objs pad_hash ex_disk1 ex_hash \<noteq> None"
    by (cases "ds_objs pad_hash ex_disk1 ex_hash") (simp_all add: commit_of_def)
  then have "cas_contains (ds_cas ex_disk1) ex_hash"
    using contains_objs [OF ds_invD(1) [OF ex_disk1(1)]] by (simp add: cas_contains_def ds_objs_def)
  ultimately show ?thesis
    by (cases "update_branch (ds_repo ex_disk1) ''main'' ex_hash (ds_fs ex_disk1)")
      (simp add: ds_update_branch_def on_fs_def ex_disk2_def)
qed

theorem checkout_branch_witness: "fst (checkout pad_hash Inr ''main'' ex_disk2) = Inr ex_commit"
proof (rule checkout_branch [OF ex_mmap ex_disk1(1) _ _ disjI2 [OF ex_update]])
  show "\<not> eq_ignore_ascii_case ''main'' ''HEAD''"
    by code_simp
qed (simp_all add: plain_name_def plain_part_def ex_disk1(3))

lemma ex_names: "\<exists>names. ds_list_branches ex_disk1 = Inr names \<and> set names = {''main''}"
proof -
  have "fs_get (ds_fs ex_disk1) [''refs'', ''heads'', n] = fs_get ex_disk_fs [''refs'', ''heads'', n]" for n
    using ex_disk1(2) by (simp add: same_refs_def ex_disk_simps)
  then have "{n. \<exists>b. fs_get (ds_fs ex_disk1) (repo_root (ds_repo ex_disk1) @ [''refs'', ''heads'', n]) = Some (File b)} = {''main''}"
    using ex_disk1(2) by (simp add: same_refs_def ex_disk_simps ex_repo_files ex_disk_refs) (simp add: ex_main_def)
  then show ?thesis
    using list_branches_files [OF ds_invD(3) [OF ex_disk1(1)]] by (auto simp: ds_list_branches_def)
qed

theorem reachable_commits_exact_witness: "fst (reachable_commits pad_hash Inr 2 ex_disk1) = Inr {ex_hash}"
proof -
  obtain names where n: "ds_list_branches ex_disk1 = Inr names" "set names = {''main''}"
    using ex_names by blast
  have "from_tips pad_hash ex_disk1 names = {ex_hash}" "tips_ok pad_hash ex_disk1 names"
    using n(2) ex_branch ex_history by (simp_all add: from_tips_def tips_ok_def ex_disk1(3) plain_name_def plain_part_def)
  then show ?thesis
    using reachable_commits_exact [OF ex_mmap ex_disk1(1) n(1), of 2] ex_history by (simp add: ex_disk1(3) enough_fuel_def)
qed

definition ex_put_ops :: "HamtOp list" where
  "ex_put_ops = [Put [1] [7]]"

lemma ex_leaf_ok: "puts_ok pad_hash 1 (tree_recs pad_hash ex_leaf) None ex_put_ops"
proof -
  have "th pad_hash ex_leaf \<noteq> ZERO"
    by code_simp
  then show ?thesis
    by (simp add: ex_put_ops_def root_of_def o_clear_def o_insert_def o_recs_def ok_leaf_def ex_leaf_def [symmetric])
qed

lemma ex_apply: "\<exists>h s'. apply_hamt_ops pad_hash Inr 1 None ex_put_ops ex_disk = (Inr h, s')"
proof -
  have "length (node_encode (make_leaf [1] [7])) < 1000"
    by (simp add: make_leaf_def length_node_encode)
  from ex_disk_put [OF this, of pad_hash HamtLeaf] show ?thesis
    by (simp add: apply_hamt_ops_def ex_put_ops_def try_st_def on_cas_def hamt_insert_def hamt_base_def persist_leaf_def
        store_backend_def)
qed

theorem apply_ops_map_witness:
  "\<exists>h s'. apply_hamt_ops pad_hash Inr 1 None ex_put_ops ex_disk = (Inr h, s')
    \<and> fst (ds_get pad_hash Inr 1 h [1] s') = Inr (Some [7])"
proof -
  obtain h s' where run: "apply_hamt_ops pad_hash Inr 1 (root_of pad_hash None) ex_put_ops ex_disk = (Inr h, s')"
    using ex_apply by (auto simp: root_of_def)
  have "collision_free pad_hash (tree_recs pad_hash ex_leaf)"
    by code_simp
  moreover have "addressed pad_hash (tree_recs pad_hash ex_leaf) (ds_objs pad_hash ex_disk)"
    by (simp add: addressed_def ex_disk_inv)
  moreover have "o_height (o_puts pad_hash 1 None ex_put_ops) < 1"
    by (simp add: ex_put_ops_def o_insert_def o_height_def)
  ultimately have "fst (ds_get pad_hash Inr 1 h [1] s') = Inr ((o_lookup pad_hash None ++ map_of (rev (map op_pair ex_put_ops))) [1])"
    using apply_ops_map [OF ex_mmap ex_disk_inv(1) _ _ _ ex_leaf_ok run] by (simp add: o_stored_def)
  then show ?thesis
    using run by (simp add: root_of_def ex_put_ops_def)
qed

end
