(* ===== verification/Rust_Chars.thy ===== *)
theory Rust_Chars
  imports Rust_Str
begin

text \<open>
  What the query language uses of Rust's \<open>char\<close>, number parsing and floating-point numbers. A
  \<open>char\<close> is its UTF-8 encoding, a string of one to four bytes, so that \<open>char_indices\<close> cuts a
  string into such pieces and pushing a character appends its bytes. An \<open>f64\<close> is its bit
  pattern; parsing rounds the decimal value to the nearest representable number, ties to even.
\<close>

section \<open>Characters of a string\<close>

type_synonym rchar = string

definition char_len :: "char \<Rightarrow> nat" where
  "char_len b =
     (if (of_char b :: nat) < 0x80 then 1 else if (of_char b :: nat) < 0xE0 then 2
      else if (of_char b :: nat) < 0xF0 then 3 else 4)"

fun char_list :: "string \<Rightarrow> rchar list" where
  "char_list [] = []"
| "char_list (b # s) = (b # take (char_len b - 1) s) # char_list (drop (char_len b - 1) s)"

fun index_from :: "nat \<Rightarrow> rchar list \<Rightarrow> (nat \<times> rchar) list" where
  "index_from i [] = []"
| "index_from i (c # cs) = (i, c) # index_from (i + length c) cs"

definition char_indices :: "string \<Rightarrow> (nat \<times> rchar) list" where
  "char_indices s = index_from 0 (char_list s)"

definition slice :: "string \<Rightarrow> nat \<Rightarrow> nat \<Rightarrow> string" where
  "slice s i j = take (j - i) (drop i s)"

definition boundary :: "string \<Rightarrow> nat \<Rightarrow> bool" where
  "boundary s i \<longleftrightarrow> i = length s \<or> i \<in> fst ` set (char_indices s)"

lemma concat_char_list [simp]: "concat (char_list s) = s"
  by (induction s rule: char_list.induct) simp_all

lemma char_list_neq_Nil: "c \<in> set (char_list s) \<Longrightarrow> c \<noteq> []"
  by (induction s rule: char_list.induct) auto

lemma length_index_from [simp]: "length (index_from i cs) = length cs"
  by (induction i cs rule: index_from.induct) simp_all

lemma index_from_append [simp]:
  "index_from i (xs @ ys) = index_from i xs @ index_from (i + length (concat xs)) ys"
  by (induction i xs rule: index_from.induct) (simp_all add: add.assoc)

lemma index_from_nth:
  "n < length cs \<Longrightarrow> index_from i cs ! n = (i + length (concat (take n cs)), cs ! n)"
proof (induction i cs arbitrary: n rule: index_from.induct)
  case (2 i c cs)
  then show ?case by (cases n) simp_all
qed simp

definition ascii_char :: "char \<Rightarrow> bool" where
  "ascii_char b \<longleftrightarrow> (of_char b :: nat) < 0x80"

lemma char_list_ascii [simp]: "ascii_char b \<Longrightarrow> char_list (b # s) = [b] # char_list s"
  by (simp add: char_len_def ascii_char_def)

lemma char_list_ascii_append:
  "\<forall>b \<in> set s. ascii_char b \<Longrightarrow> char_list (s @ t) = map (\<lambda>b. [b]) s @ char_list t"
  by (induction s) (simp_all del: char_list.simps(2))

section \<open>Character classes\<close>

definition one_byte :: "(char \<Rightarrow> bool) \<Rightarrow> rchar \<Rightarrow> bool" where
  "one_byte p c = (case c of [b] \<Rightarrow> p b | _ \<Rightarrow> False)"

lemma one_byte_simps [simp]:
  "one_byte p [b] = p b"
  by (simp add: one_byte_def)

lemma one_byte_cases: "one_byte p c \<Longrightarrow> \<exists>b. c = [b] \<and> p b"
  by (auto simp: one_byte_def split: list.splits)

definition digit_byte :: "char \<Rightarrow> bool" where
  "digit_byte b \<longleftrightarrow> 48 \<le> (of_char b :: nat) \<and> (of_char b :: nat) \<le> 57"

definition alpha_byte :: "char \<Rightarrow> bool" where
  "alpha_byte b \<longleftrightarrow>
     65 \<le> (of_char b :: nat) \<and> (of_char b :: nat) \<le> 90 \<or> 97 \<le> (of_char b :: nat) \<and> (of_char b :: nat) \<le> 122"

definition hex_byte :: "char \<Rightarrow> bool" where
  "hex_byte b \<longleftrightarrow>
     digit_byte b \<or> 65 \<le> (of_char b :: nat) \<and> (of_char b :: nat) \<le> 70
     \<or> 97 \<le> (of_char b :: nat) \<and> (of_char b :: nat) \<le> 102"

definition is_ascii_digit :: "rchar \<Rightarrow> bool" where
  "is_ascii_digit = one_byte digit_byte"

definition is_ascii_alphabetic :: "rchar \<Rightarrow> bool" where
  "is_ascii_alphabetic = one_byte alpha_byte"

definition is_ascii_alphanumeric :: "rchar \<Rightarrow> bool" where
  "is_ascii_alphanumeric c \<longleftrightarrow> is_ascii_alphabetic c \<or> is_ascii_digit c"

definition is_ascii_hexdigit :: "rchar \<Rightarrow> bool" where
  "is_ascii_hexdigit = one_byte hex_byte"

definition is_whitespace :: "rchar \<Rightarrow> bool" where
  "is_whitespace c \<longleftrightarrow> c \<in> set ws_encodings"

definition to_ascii_upper :: "char \<Rightarrow> char" where
  "to_ascii_upper b =
     (if 97 \<le> (of_char b :: nat) \<and> (of_char b :: nat) \<le> 122 then char_of ((of_char b :: nat) - 32) else b)"

definition to_ascii_uppercase :: "string \<Rightarrow> string" where
  "to_ascii_uppercase s = map to_ascii_upper s"

lemma to_ascii_upper_idem [simp]: "to_ascii_upper (to_ascii_upper b) = to_ascii_upper b"
  by (auto simp: to_ascii_upper_def)

lemma to_ascii_uppercase_idem [simp]: "to_ascii_uppercase (to_ascii_uppercase s) = to_ascii_uppercase s"
  by (simp add: to_ascii_uppercase_def)

section \<open>Integers\<close>

type_synonym i64 = "64 word"

fun digits_from :: "nat \<Rightarrow> string \<Rightarrow> nat option" where
  "digits_from acc [] = Some acc"
| "digits_from acc (b # s) =
     (if digit_byte b then digits_from (10 * acc + (of_char b - 48)) s else None)"

definition digits_value :: "string \<Rightarrow> nat option" where
  "digits_value s = (if s = [] then None else digits_from 0 s)"

definition parse_i64 :: "string \<Rightarrow> i64 option" where
  "parse_i64 s =
     (case s of
        [] \<Rightarrow> None
      | b # t \<Rightarrow>
          if b = CHR 0x2D then
            (case digits_value t of None \<Rightarrow> None
             | Some n \<Rightarrow> if n \<le> 2 ^ 63 then Some (- of_nat n) else None)
          else
            (case digits_value (if b = CHR 0x2B then t else s) of None \<Rightarrow> None
             | Some n \<Rightarrow> if n < 2 ^ 63 then Some (of_nat n) else None))"

lemma digits_from_append:
  "digits_from acc (s @ t) = (case digits_from acc s of None \<Rightarrow> None | Some n \<Rightarrow> digits_from n t)"
  by (induction acc s rule: digits_from.induct) auto

lemma digit_byte_show [simp]: "(n :: nat) < 10 \<Longrightarrow> digit_byte (char_of (48 + n))"
  by (simp add: digit_byte_def)

lemma digits_from_show: "digits_from 0 (show_nat n) = Some n"
proof (induction n rule: show_nat.induct)
  case (1 n)
  show ?case
    by (subst show_nat.simps) (use 1 in \<open>auto simp: digits_from_append\<close>)
qed

lemma show_nat_neq_Nil [simp]: "show_nat n \<noteq> []"
  by (subst show_nat.simps) simp

lemma show_nat_digits: "b \<in> set (show_nat n) \<Longrightarrow> digit_byte b"
proof (induction n rule: show_nat.induct)
  case (1 n)
  show ?case
    using 1 by (subst (asm) (2) show_nat.simps) (auto split: if_splits)
qed

lemma digits_value_show [simp]: "digits_value (show_nat n) = Some n"
  by (simp add: digits_value_def digits_from_show)

section \<open>Floating-point numbers\<close>

datatype f64 = F64 (f64_bits: u64)

fun bit_length :: "nat \<Rightarrow> nat" where
  "bit_length n = (if n = 0 then 0 else Suc (bit_length (n div 2)))"

declare bit_length.simps [simp del]

definition round_div :: "nat \<Rightarrow> nat \<Rightarrow> nat" where
  "round_div n d =
     (let q = n div d; r = n mod d in if 2 * r < d \<or> 2 * r = d \<and> even q then q else q + 1)"

text \<open>The exponent \<open>e\<close> of the last place of the result for \<open>n / d\<close>, counted from the least one.\<close>

definition f64_scale :: "nat \<Rightarrow> nat \<Rightarrow> nat" where
  "f64_scale n d =
     (let k = int (bit_length n) - int (bit_length d);
          fits = (if 0 \<le> k then d * 2 ^ nat k \<le> n else d \<le> n * 2 ^ nat (- k))
      in nat ((if fits then k else k - 1) - 52 + 1074))"

definition f64_of_ratio :: "nat \<Rightarrow> nat \<Rightarrow> f64" where
  "f64_of_ratio n d =
     (if n = 0 then F64 0
      else
        let e = f64_scale n d;
            m = (if 1074 \<le> e then round_div n (d * 2 ^ (e - 1074)) else round_div (n * 2 ^ (1074 - e)) d)
        in F64 (of_nat (min (e * 2 ^ 52 + m) (0x7FF * 2 ^ 52))))"

definition parse_f64 :: "string \<Rightarrow> f64 option" where
  "parse_f64 s =
     (case split_at (CHR 0x2E) s of
        [a, b] \<Rightarrow>
          (case digits_value a of None \<Rightarrow> None
           | Some _ \<Rightarrow>
              (case digits_value b of None \<Rightarrow> None
               | Some _ \<Rightarrow>
                  (case digits_value (a @ b) of None \<Rightarrow> None
                   | Some n \<Rightarrow> Some (f64_of_ratio n (10 ^ length b)))))
      | _ \<Rightarrow> None)"

definition f64_neg :: "f64 \<Rightarrow> f64" where
  "f64_neg x = F64 (f64_bits x XOR 0x8000000000000000)"

lemma f64_neg_neg [simp]: "f64_neg (f64_neg x) = x"
  by (cases x) (simp add: f64_neg_def xor.assoc)

lemma parse_f64_decimal:
  assumes "a \<noteq> []" "b \<noteq> []" "\<forall>x \<in> set (a @ b). digit_byte x"
  shows "parse_f64 (a @ CHR 0x2E # b) \<noteq> None"
proof -
  have ok: "digits_from n s \<noteq> None" if "\<forall>x \<in> set s. digit_byte x" for s n
    using that by (induction n s rule: digits_from.induct) auto
  have "\<not> digit_byte (CHR 0x2E)"
    by (simp add: digit_byte_def)
  with assms(3) have "CHR 0x2E \<notin> set a" "CHR 0x2E \<notin> set b"
    by auto
  then have "split_at (CHR 0x2E) (a @ CHR 0x2E # b) = [a, b]"
    by (induction a) (auto simp: split_at_plain)
  moreover have "digits_value a \<noteq> None" "digits_value b \<noteq> None" "digits_value (a @ b) \<noteq> None"
    using assms ok [of a] ok [of b] ok [of "a @ b"] by (simp_all add: digits_value_def)
  ultimately show ?thesis
    by (simp add: parse_f64_def split: option.splits)
qed

end
