(* ===== verification/Rust_Fmt.thy ===== *)
theory Rust_Fmt
  imports Rust_Chars
begin

text \<open>
  More of the standard library, for the schema files and the executor: lines and words of a text,
  lossy decoding of bytes, printing of integers and floating-point numbers, and the floating-point
  comparisons the code uses.
\<close>

section \<open>Lines and words\<close>

definition strip_cr :: "string \<Rightarrow> string" where
  "strip_cr s = (if s \<noteq> [] \<and> last s = CHR 0x0D then butlast s else s)"

definition str_lines :: "string \<Rightarrow> string list" where
  "str_lines s =
     (let ls = split_at (CHR 0x0A) s in map strip_cr (butlast ls) @ (if last ls = [] then [] else [last ls]))"

fun words_from :: "rchar list \<Rightarrow> string \<Rightarrow> string list" where
  "words_from [] w = (if w = [] then [] else [w])"
| "words_from (c # cs) w =
     (if is_whitespace c then (if w = [] then [] else [w]) @ words_from cs [] else words_from cs (w @ c))"

definition split_whitespace :: "string \<Rightarrow> string list" where
  "split_whitespace s = words_from (char_list s) []"

section \<open>Lossy decoding\<close>

definition replacement :: bytes where
  "replacement = [0xEF, 0xBF, 0xBD]"

lemma utf8_scan_bad: "utf8_scan i bs = Some (j, Some n) \<Longrightarrow> 0 < n \<and> i \<le> j \<and> j < i + length bs"
proof (induction i bs rule: utf8_scan.induct)
  case (2 i b bs)
  note st = 2(5) [unfolded utf8_scan.simps(2)]
  consider (a) "b < 0x80" | (b) "\<not> b < 0x80" "0xC2 \<le> b \<and> b \<le> 0xDF"
    | (c) "\<not> b < 0x80" "\<not> (0xC2 \<le> b \<and> b \<le> 0xDF)" "0xE0 \<le> b \<and> b \<le> 0xEF"
    | (d) "\<not> b < 0x80" "\<not> (0xC2 \<le> b \<and> b \<le> 0xDF)" "\<not> (0xE0 \<le> b \<and> b \<le> 0xEF)" "0xF0 \<le> b \<and> b \<le> 0xF4"
    | (e) "\<not> b < 0x80" "\<not> (0xC2 \<le> b \<and> b \<le> 0xDF)" "\<not> (0xE0 \<le> b \<and> b \<le> 0xEF)"
        "\<not> (0xF0 \<le> b \<and> b \<le> 0xF4)"
    by blast
  then show ?case
  proof cases
    case a
    with st 2(1) [OF a] show ?thesis by simp
  next
    case b
    note st' = st [unfolded if_not_P [OF b(1)] if_P [OF b(2)]]
    show ?thesis
    proof (cases bs)
      case (Cons x r)
      with st' 2(2) [OF b, of x r] show ?thesis by (auto split: if_splits)
    qed (use st' in simp)
  next
    case c
    note st' = st [unfolded if_not_P [OF c(1)] if_not_P [OF c(2)] if_P [OF c(3)]]
    show ?thesis
    proof (cases bs rule: remdups_adj.cases)
      case (3 x y r)
      with st' 2(3) [OF c, of x "y # r" y r] show ?thesis by (auto split: if_splits)
    qed (use st' in \<open>auto split: if_splits\<close>)
  next
    case d
    note st' = st [unfolded if_not_P [OF d(1)] if_not_P [OF d(2)] if_not_P [OF d(3)] if_P [OF d(4)]]
    show ?thesis
    proof (cases bs rule: remdups_adj.cases)
      case (3 x y r)
      with st' 2(4) [OF d, of x "y # r" y r] show ?thesis
        by (cases r) (auto split: if_splits)
    qed (use st' in \<open>auto split: if_splits\<close>)
  next
    case e
    with st show ?thesis by simp
  qed
qed simp

function from_utf8_lossy :: "bytes \<Rightarrow> bytes" where
  "from_utf8_lossy bs =
     (case utf8_scan 0 bs of
        None \<Rightarrow> bs
      | Some (i, None) \<Rightarrow> take i bs @ replacement
      | Some (i, Some n) \<Rightarrow> take i bs @ replacement @ from_utf8_lossy (drop (i + n) bs))"
  by pat_completeness auto
termination
  by (relation "measure length") (auto dest: utf8_scan_bad)

declare from_utf8_lossy.simps [simp del]

definition lossy :: "bytes \<Rightarrow> string" where
  "lossy bs = map char_of_byte (from_utf8_lossy bs)"

lemma lossy_valid: "valid_str s \<Longrightarrow> lossy (as_bytes_str s) = s"
  unfolding lossy_def by (subst from_utf8_lossy.simps) (simp add: valid_str_def)

section \<open>Numbers\<close>

definition show_i64 :: "i64 \<Rightarrow> string" where
  "show_i64 n = (if 0 \<le> sint n then show_nat (nat (sint n)) else CHR 0x2D # show_nat (nat (- sint n)))"

definition f64_negative :: "f64 \<Rightarrow> bool" where
  "f64_negative x \<longleftrightarrow> bit (f64_bits x) 63"

definition f64_exponent :: "f64 \<Rightarrow> nat" where
  "f64_exponent x = unat (drop_bit 52 (f64_bits x) AND 0x7FF)"

definition f64_fraction :: "f64 \<Rightarrow> nat" where
  "f64_fraction x = unat (f64_bits x AND 0xFFFFFFFFFFFFF)"

definition f64_finite :: "f64 \<Rightarrow> bool" where
  "f64_finite x \<longleftrightarrow> f64_exponent x \<noteq> 0x7FF"

definition f64_nan :: "f64 \<Rightarrow> bool" where
  "f64_nan x \<longleftrightarrow> f64_exponent x = 0x7FF \<and> f64_fraction x \<noteq> 0"

text \<open>The magnitude of a finite number, in units of the least positive one.\<close>

definition f64_units :: "f64 \<Rightarrow> nat" where
  "f64_units x =
     (if f64_exponent x = 0 then f64_fraction x
      else (2 ^ 52 + f64_fraction x) * 2 ^ (f64_exponent x - 1))"

definition f64_int :: "f64 \<Rightarrow> int" where
  "f64_int x = (if f64_negative x then - int (f64_units x) else int (f64_units x))"

definition f64_eq :: "f64 \<Rightarrow> f64 \<Rightarrow> bool" where
  "f64_eq x y \<longleftrightarrow>
     \<not> f64_nan x \<and> \<not> f64_nan y
     \<and> (if f64_finite x \<and> f64_finite y then f64_int x = f64_int y else f64_bits x = f64_bits y)"

text \<open>\<open>(x - y).abs() < f64::EPSILON\<close>: the difference is rounded before it is compared.\<close>

definition f64_close :: "f64 \<Rightarrow> f64 \<Rightarrow> bool" where
  "f64_close x y \<longleftrightarrow>
     f64_finite x \<and> f64_finite y
     \<and> f64_bits (f64_of_ratio (nat \<bar>f64_int x - f64_int y\<bar>) (2 ^ 1074)) < 0x3CB0000000000000"

text \<open>
  \<open>Display\<close> for \<open>f64\<close>: the shortest decimal digits that read back as the same number, the nearest
  such (a tie goes up), written without an exponent. \<open>scaled n d q\<close> is \<open>n / d\<close> divided by
  \<open>10 ^ q\<close>, as a numerator and a denominator.
\<close>

definition scaled :: "nat \<Rightarrow> nat \<Rightarrow> int \<Rightarrow> nat \<times> nat" where
  "scaled n d q = (if 0 \<le> q then (n, d * 10 ^ nat q) else (n * 10 ^ nat (- q), d))"

definition of_decimal :: "nat \<Rightarrow> int \<Rightarrow> f64" where
  "of_decimal m q = (if 0 \<le> q then f64_of_ratio (m * 10 ^ nat q) 1 else f64_of_ratio m (10 ^ nat (- q)))"

fun leading_zeros :: "nat \<Rightarrow> nat \<Rightarrow> nat \<Rightarrow> nat" where
  "leading_zeros 0 n d = 0"
| "leading_zeros (Suc k) n d = (if d \<le> n then 0 else Suc (leading_zeros k (10 * n) d))"

definition decimal_exponent :: "nat \<Rightarrow> nat \<Rightarrow> int" where
  "decimal_exponent n d =
     (if d \<le> n then int (length (show_nat (n div d))) else 1 - int (leading_zeros 400 n d))"

definition shortest_at :: "f64 \<Rightarrow> nat \<Rightarrow> nat \<Rightarrow> nat \<Rightarrow> (nat \<times> int) option" where
  "shortest_at x n d k =
     (let q = decimal_exponent n d - int k;
          (a, b) = scaled n d q;
          lo = a div b;
          down = (of_decimal lo q = x);
          up = (of_decimal (lo + 1) q = x)
      in if up \<and> (\<not> down \<or> b \<le> 2 * (a mod b)) then Some (lo + 1, q)
         else if down then Some (lo, q) else None)"

definition shortest :: "f64 \<Rightarrow> nat \<times> int" where
  "shortest x =
     (case List.map_filter (shortest_at x (f64_units x) (2 ^ 1074)) [1..<18] of r # _ \<Rightarrow> r | [] \<Rightarrow> (0, 0))"

definition place_point :: "string \<Rightarrow> int \<Rightarrow> string" where
  "place_point ds q =
     (let ds' = ds @ replicate (nat q) (CHR ''0'');
          f = nat (- q);
          whole = (if length ds' \<le> f then ''0'' else take (length ds' - f) ds');
          frac = rev (dropWhile (\<lambda>c. c = CHR ''0'')
                   (rev (replicate (f - length ds') (CHR ''0'') @ drop (length ds' - f) ds')))
      in if f = 0 \<or> frac = [] then whole else whole @ ''.'' @ frac)"

definition show_f64 :: "f64 \<Rightarrow> string" where
  "show_f64 x =
     (if f64_nan x then ''NaN''
      else
        (if f64_negative x then ''-'' else []) @
        (if \<not> f64_finite x then ''inf''
         else if f64_units x = 0 then ''0''
         else (case shortest (F64 (f64_bits x AND 0x7FFFFFFFFFFFFFFF)) of (m, q) \<Rightarrow> place_point (show_nat m) q)))"

end
