(* ===== verification/Ql_Value.thy ===== *)
theory Ql_Value
  imports Rust_Fmt
begin

text \<open>
  Runtime values and results of the query executor (\<open>epochql/src/exec/value.rs\<close>) and paths into
  documents (\<open>epochql/src/schema/path.rs\<close>).
\<close>

section \<open>Values\<close>

datatype Value =
    V_Null
  | V_Bool bool
  | V_Int i64
  | V_Float f64
  | V_String string
  | V_Map "(string \<times> Value) list"

type_synonym doc = "(string \<times> Value) list"

definition value_from_bytes :: "bytes \<Rightarrow> Value" where
  "value_from_bytes bs = V_String (lossy bs)"

fun to_storage_bytes :: "Value \<Rightarrow> string + bytes" where
  "to_storage_bytes V_Null = Inr []"
| "to_storage_bytes (V_Bool b) = Inr (as_bytes_str (if b then ''true'' else ''false''))"
| "to_storage_bytes (V_Int n) = Inr (as_bytes_str (show_i64 n))"
| "to_storage_bytes (V_Float x) = Inr (as_bytes_str (show_f64 x))"
| "to_storage_bytes (V_String s) = Inr (as_bytes_str s)"
| "to_storage_bytes (V_Map _) = Inl ''cannot store nested maps as a single HAMT value yet''"

fun is_truthy :: "Value \<Rightarrow> bool" where
  "is_truthy V_Null = False"
| "is_truthy (V_Bool b) = b"
| "is_truthy (V_Int n) = (n \<noteq> 0)"
| "is_truthy (V_Float x) = (\<not> f64_eq x (F64 0))"
| "is_truthy (V_String s) = (s \<noteq> [])"
| "is_truthy (V_Map m) = (m \<noteq> [])"

fun show_value :: "Value \<Rightarrow> string" where
  "show_value V_Null = ''null''"
| "show_value (V_Bool b) = (if b then ''true'' else ''false'')"
| "show_value (V_Int n) = show_i64 n"
| "show_value (V_Float x) = show_f64 x"
| "show_value (V_String s) = s"
| "show_value (V_Map m) = ''{'' @ join_with '', '' (map (\<lambda>(k, v). k @ '': '' @ show_value v) m) @ ''}''"

text \<open>The derived equality, with the comparison of floating-point numbers.\<close>

fun value_eq :: "Value \<Rightarrow> Value \<Rightarrow> bool"
  and entries_eq :: "(string \<times> Value) list \<Rightarrow> (string \<times> Value) list \<Rightarrow> bool" where
  "value_eq V_Null V_Null = True"
| "value_eq (V_Bool a) (V_Bool b) = (a = b)"
| "value_eq (V_Int a) (V_Int b) = (a = b)"
| "value_eq (V_Float a) (V_Float b) = f64_eq a b"
| "value_eq (V_String a) (V_String b) = (a = b)"
| "value_eq (V_Map a) (V_Map b) = entries_eq a b"
| "value_eq _ _ = False"
| "entries_eq [] [] = True"
| "entries_eq ((k, v) # a) ((l, w) # b) = (k = l \<and> value_eq v w \<and> entries_eq a b)"
| "entries_eq _ _ = False"

section \<open>Results\<close>

record QueryResult =
  qr_columns :: "string list"
  qr_rows :: "Value list list"

definition query_empty :: QueryResult where
  "query_empty = \<lparr>qr_columns = [], qr_rows = []\<rparr>"

record MutationResult =
  mr_summary :: string
  mr_hash :: "string option"

datatype ExecResult = R_Query QueryResult | R_Mutation MutationResult

definition show_exec_result :: "ExecResult \<Rightarrow> string" where
  "show_exec_result r =
     (case r of
        R_Query q \<Rightarrow>
          if qr_columns q = [] then ''(no columns)''
          else
            let header = join_with '' | '' (qr_columns q) in
            header @ [CHR 0x0A] @ replicate (length header) (CHR ''-'') @ [CHR 0x0A]
            @ concat (map (\<lambda>row. join_with '' | '' (map show_value row) @ [CHR 0x0A]) (qr_rows q))
            @ ''('' @ show_nat (length (qr_rows q)) @ '' row(s))''
      | R_Mutation m \<Rightarrow>
          mr_summary m @ (case mr_hash m of Some h \<Rightarrow> '' ['' @ h @ '']'' | None \<Rightarrow> []))"

section \<open>Documents and paths\<close>

definition flatten_entries :: "(bytes \<times> bytes) list \<Rightarrow> doc" where
  "flatten_entries entries =
     fold (\<lambda>(k, v) m. bt_insert (lossy k) (value_from_bytes v) m) entries []"

fun walk_path :: "Value \<Rightarrow> string list \<Rightarrow> Value option" where
  "walk_path v [] = Some v"
| "walk_path v (part # parts) =
     (case v of
        V_Map m \<Rightarrow> (case map_of m part of Some w \<Rightarrow> walk_path w parts | None \<Rightarrow> None)
      | _ \<Rightarrow> None)"

definition extract_path :: "doc \<Rightarrow> string \<Rightarrow> Value option" where
  "extract_path d path =
     (case map_of d path of
        Some v \<Rightarrow> Some v
      | None \<Rightarrow>
          (case filter (\<lambda>p. p \<noteq> []) (split_at (CHR ''.'') path) of
             [] \<Rightarrow> None
           | first # parts \<Rightarrow>
               (case map_of d first of Some v \<Rightarrow> walk_path v parts | None \<Rightarrow> None)))"

fun value_to_index_key :: "Value \<Rightarrow> bytes option" where
  "value_to_index_key V_Null = None"
| "value_to_index_key (V_Bool b) = Some (as_bytes_str (if b then ''true'' else ''false''))"
| "value_to_index_key (V_Int n) = Some (as_bytes_str (show_i64 n))"
| "value_to_index_key (V_Float x) = Some (as_bytes_str (show_f64 x))"
| "value_to_index_key (V_String s) = Some (as_bytes_str s)"
| "value_to_index_key (V_Map _) = None"

lemma sorted_flatten: "sorted_map (flatten_entries es)"
proof -
  have "sorted_map m \<Longrightarrow> sorted_map (fold (\<lambda>(k, v) m. bt_insert (lossy k) (value_from_bytes v) m) es m)" for m
    by (induction es arbitrary: m) auto
  then show ?thesis by (simp add: flatten_entries_def)
qed

lemma flatten_lookup:
  assumes "distinct (map fst es)" "\<forall>k \<in> fst ` set es. valid_str (map char_of_byte k)"
    and "valid_str key"
  shows "map_of (flatten_entries es) key = map_option value_from_bytes (map_of es (as_bytes_str key))"
proof -
  have "map_of (fold (\<lambda>(k, v) m. bt_insert (lossy k) (value_from_bytes v) m) es m) key =
      (case map_of es (as_bytes_str key) of Some v \<Rightarrow> Some (value_from_bytes v) | None \<Rightarrow> map_of m key)" for m
    using assms(1,2)
  proof (induction es arbitrary: m)
    case (Cons e es)
    obtain k v where e: "e = (k, v)" by force
    have "valid_str (map char_of_byte k)"
      using Cons.prems(2) e by simp
    then have l: "lossy k = map char_of_byte k"
      using lossy_valid [of "map char_of_byte k"] by simp
    have "key = map char_of_byte k \<longleftrightarrow> as_bytes_str key = k"
      by (metis as_bytes_str_map map_char_of_byte_as_bytes)
    then show ?case
      using Cons.IH [of "bt_insert (lossy k) (value_from_bytes v) m"] Cons.prems e l
      by (auto split: option.splits simp: map_of_eq_None_iff [symmetric] image_iff)
  qed simp
  from this [of "[]"] show ?thesis
    by (simp add: flatten_entries_def split: option.split)
qed

end
