(* ===== verification/Ql_Lexer.thy ===== *)
theory Ql_Lexer
  imports Rust_Chars
begin

text \<open>
  The EpochQL tokenizer (\<open>epochql/src/lexer.rs\<close>) and its errors (\<open>epochql/src/error.rs\<close>). The
  lexer is the record of the source, its characters with their byte offsets, and a position; each
  method is a function of that record. Loops recurse on the number of characters left, so the
  tokenizer is a total function. Error messages that the code formats from values are kept as a
  constructor applied to these values.
\<close>

section \<open>Tokens\<close>

datatype (plugins only: code size) TokenKind =
    T_Use | T_Branch | T_Commit | T_Tag | T_Head | T_Match | T_Traverse | T_MergeBase | T_ShortestPath
  | T_Ancestors | T_Where | T_Select | T_As | T_Create | T_Delete | T_From | T_Checkout | T_Merge
  | T_Into | T_Strategy | T_FastForward | T_ThreeWay | T_Squash | T_Diff | T_And | T_Or | T_Message
  | T_Parents | T_Path | T_Parent | T_Child | T_Ancestor | T_Descendant | T_Null | T_True | T_False
  | T_Collection | T_Index | T_Key | T_Drop | T_On | T_TypeKw | T_TyString | T_TyInt | T_TyBool
  | T_TyBytes
  | T_Ident string | T_String string | T_Int i64 | T_Float f64
  | T_Semicolon | T_Comma | T_Dot | T_Colon | T_Eq | T_Neq | T_Star | T_DotDot | T_LParen | T_RParen
  | T_LBrace | T_RBrace | T_LBracket | T_RBracket | T_ArrowRight | T_ArrowLeft | T_Minus
  | T_Eof

record Token =
  tok_kind :: TokenKind
  tok_offset :: nat
  tok_end :: nat

section \<open>Errors\<close>

datatype err_message =
    Msg string
  | Unexpected_character rchar
  | Invalid_float string
  | Invalid_integer string
  | Expected_found TokenKind TokenKind
  | Hash_too_long nat
  | Hash_not_hex string

record ParseError =
  pe_message :: err_message
  pe_offset :: "nat option"
  pe_line :: "nat option"
  pe_column :: "nat option"

definition parse_error_new :: "err_message \<Rightarrow> ParseError" where
  "parse_error_new m = \<lparr>pe_message = m, pe_offset = None, pe_line = None, pe_column = None\<rparr>"

definition parse_error_at :: "nat \<Rightarrow> err_message \<Rightarrow> ParseError" where
  "parse_error_at offset m =
     \<lparr>pe_message = m, pe_offset = Some offset, pe_line = None, pe_column = None\<rparr>"

fun line_col_loop :: "nat \<Rightarrow> (nat \<times> rchar) list \<Rightarrow> nat \<Rightarrow> nat \<Rightarrow> nat \<times> nat" where
  "line_col_loop offset [] line col = (line, col)"
| "line_col_loop offset ((i, ch) # cs) line col =
     (if offset \<le> i then (line, col)
      else if ch = [CHR 0x0A] then line_col_loop offset cs (line + 1) 1
      else line_col_loop offset cs line (col + 1))"

definition offset_to_line_col :: "string \<Rightarrow> nat \<Rightarrow> nat \<times> nat" where
  "offset_to_line_col source offset = line_col_loop offset (char_indices source) 1 1"

definition with_location :: "ParseError \<Rightarrow> string \<Rightarrow> ParseError" where
  "with_location e source =
     (case pe_offset e of
        Some offset \<Rightarrow>
          let (line, column) = offset_to_line_col source offset
          in e\<lparr>pe_line := Some line, pe_column := Some column\<rparr>
      | None \<Rightarrow> e)"

section \<open>The lexer's state\<close>

record Lexer =
  lx_source :: string
  lx_chars :: "(nat \<times> rchar) list"
  lx_pos :: nat

definition lexer_new :: "string \<Rightarrow> Lexer" where
  "lexer_new source = \<lparr>lx_source = source, lx_chars = char_indices source, lx_pos = 0\<rparr>"

definition peek_ahead :: "nat \<Rightarrow> Lexer \<Rightarrow> (nat \<times> rchar) option" where
  "peek_ahead n l =
     (if lx_pos l + n < length (lx_chars l) then Some (lx_chars l ! (lx_pos l + n)) else None)"

definition peek :: "Lexer \<Rightarrow> (nat \<times> rchar) option" where
  "peek l = (if lx_pos l < length (lx_chars l) then Some (lx_chars l ! lx_pos l) else None)"

definition bump :: "Lexer \<Rightarrow> Lexer" where
  "bump l = (if peek l \<noteq> None then l\<lparr>lx_pos := lx_pos l + 1\<rparr> else l)"

definition current_byte_offset :: "Lexer \<Rightarrow> nat" where
  "current_byte_offset l = (case peek l of Some (i, _) \<Rightarrow> i | None \<Rightarrow> length (lx_source l))"

definition lex_error :: "Lexer \<Rightarrow> nat \<Rightarrow> err_message \<Rightarrow> ParseError" where
  "lex_error l offset m = with_location (parse_error_at offset m) (lx_source l)"

definition left :: "Lexer \<Rightarrow> nat" where
  "left l = length (lx_chars l) - lx_pos l"

lemma left_bump: "peek l \<noteq> None \<Longrightarrow> left (bump l) < left l"
  by (auto simp: left_def bump_def peek_def split: if_splits)

lemma left_bump_le: "left (bump l) \<le> left l"
  by (auto simp: left_def bump_def)

section \<open>Loops over characters\<close>

function bump_while :: "(rchar \<Rightarrow> bool) \<Rightarrow> Lexer \<Rightarrow> Lexer" where
  "bump_while p l =
     (case peek l of
        Some (i, ch) \<Rightarrow> if p ch then bump_while p (bump l) else l
      | None \<Rightarrow> l)"
  by pat_completeness auto
termination
  by (relation "measure (\<lambda>(p, l). left l)") (auto simp: left_bump)

declare bump_while.simps [simp del]

function bump_line :: "Lexer \<Rightarrow> Lexer" where
  "bump_line l =
     (case peek l of
        Some (i, ch) \<Rightarrow> if ch = [CHR 0x0A] then bump l else bump_line (bump l)
      | None \<Rightarrow> l)"
  by pat_completeness auto
termination
  by (relation "measure left") (auto simp: left_bump)

declare bump_line.simps [simp del]

lemma left_bump_while: "left (bump_while p l) \<le> left l"
proof (induction p l rule: bump_while.induct)
  case (1 p l)
  then show ?case
    by (subst bump_while.simps) (fastforce split: option.split intro: order_trans [OF _ left_bump_le] left_bump_le)
qed

lemma left_bump_line: "left (bump_line l) \<le> left l"
proof (induction l rule: bump_line.induct)
  case (1 l)
  then show ?case
    by (subst bump_line.simps) (fastforce split: option.split intro: order_trans [OF _ left_bump_le] left_bump_le)
qed

definition at_comment :: "Lexer \<Rightarrow> bool" where
  "at_comment l \<longleftrightarrow>
     map_option snd (peek l) = Some ''-'' \<and> map_option snd (peek_ahead 1 l) = Some ''-''"

function skip_whitespace_and_comments :: "Lexer \<Rightarrow> Lexer" where
  "skip_whitespace_and_comments l =
     (let l = bump_while is_whitespace l
      in if at_comment l then skip_whitespace_and_comments (bump_line (bump (bump l))) else l)"
  by pat_completeness auto
termination
proof (relation "measure left")
  fix l x
  assume x: "x = bump_while is_whitespace l" and c: "at_comment x"
  have "left (bump x) < left x"
    using c by (intro left_bump) (auto simp: at_comment_def)
  then show "(bump_line (bump (bump x)), l) \<in> measure left"
    using left_bump_line [of "bump (bump x)"] left_bump_le [of "bump x"] left_bump_while [of is_whitespace l] x
    by simp
qed simp

declare skip_whitespace_and_comments.simps [simp del]

section \<open>Single tokens\<close>

type_synonym 'a lex = "Lexer \<Rightarrow> (ParseError + 'a) \<times> Lexer"

definition finish_token :: "nat \<Rightarrow> TokenKind \<Rightarrow> Token lex" where
  "finish_token offset kind l =
     (Inr \<lparr>tok_kind = kind, tok_offset = offset, tok_end = current_byte_offset l\<rparr>, l)"

definition unescape :: "rchar \<Rightarrow> rchar" where
  "unescape c =
     (if c = ''n'' then [CHR 0x0A] else if c = ''t'' then [CHR 0x09] else if c = ''r'' then [CHR 0x0D]
      else c)"

function lex_string_loop :: "nat \<Rightarrow> string \<Rightarrow> string lex" where
  "lex_string_loop offset val l =
     (case peek l of
        None \<Rightarrow> (Inl (lex_error l offset (Msg ''unterminated string literal'')), l)
      | Some (i, c) \<Rightarrow>
          if c = [CHR 0x22] then (Inr val, bump l)
          else if c = [CHR 0x5C] then
            (case peek (bump l) of
               Some (j, e) \<Rightarrow> lex_string_loop offset (val @ unescape e) (bump (bump l))
             | None \<Rightarrow> (Inl (lex_error l offset (Msg ''unterminated escape in string'')), bump l))
          else lex_string_loop offset (val @ c) (bump l))"
  by pat_completeness auto
termination
proof (relation "measure (\<lambda>(offset, val, l). left l)")
  fix offset val l x i c y j e
  assume "peek l = Some x"
  then show "((offset, val @ unescape e, bump (bump l)), offset, val, l) \<in> measure (\<lambda>(offset, val, l). left l)"
    using left_bump [of l] left_bump_le [of "bump l"] by simp
qed (auto simp: left_bump)

declare lex_string_loop.simps [simp del]

definition lex_string :: "nat \<Rightarrow> Token lex" where
  "lex_string offset l =
     try_st (lex_string_loop offset []) (\<lambda>val. finish_token offset (T_String val)) (bump l)"

definition is_float :: "Lexer \<Rightarrow> bool" where
  "is_float l \<longleftrightarrow>
     map_option snd (peek l) = Some ''.''
     \<and> (case peek_ahead 1 l of Some (_, c) \<Rightarrow> is_ascii_digit c | None \<Rightarrow> False)"

definition lex_number :: "nat \<Rightarrow> Token lex" where
  "lex_number offset l0 =
     (let l = bump_while is_ascii_digit l0 in
      if is_float l then
        let l = bump_while is_ascii_digit (bump l);
            text = slice (lx_source l) offset (current_byte_offset l)
        in (case parse_f64 text of
              Some v \<Rightarrow> finish_token offset (T_Float v) l
            | None \<Rightarrow> (Inl (lex_error l offset (Invalid_float text)), l))
      else
        let text = slice (lx_source l) offset (current_byte_offset l)
        in (case parse_i64 text of
              Some v \<Rightarrow> finish_token offset (T_Int v) l
            | None \<Rightarrow> (Inl (lex_error l offset (Invalid_integer text)), l)))"

definition keyword_table :: "(string \<times> TokenKind) list" where
  "keyword_table =
    [(''USE'', T_Use), (''BRANCH'', T_Branch), (''COMMIT'', T_Commit), (''TAG'', T_Tag),
     (''HEAD'', T_Head), (''MATCH'', T_Match), (''TRAVERSE'', T_Traverse),
     (''MERGE_BASE'', T_MergeBase), (''SHORTEST_PATH'', T_ShortestPath), (''ANCESTORS'', T_Ancestors),
     (''WHERE'', T_Where), (''SELECT'', T_Select), (''AS'', T_As), (''CREATE'', T_Create),
     (''DELETE'', T_Delete), (''FROM'', T_From), (''CHECKOUT'', T_Checkout), (''MERGE'', T_Merge),
     (''INTO'', T_Into), (''STRATEGY'', T_Strategy), (''FAST_FORWARD'', T_FastForward),
     (''THREE_WAY'', T_ThreeWay), (''SQUASH'', T_Squash), (''DIFF'', T_Diff), (''AND'', T_And),
     (''OR'', T_Or), (''MESSAGE'', T_Message), (''PARENTS'', T_Parents), (''PATH'', T_Path),
     (''PARENT'', T_Parent), (''CHILD'', T_Child), (''ANCESTOR'', T_Ancestor),
     (''DESCENDANT'', T_Descendant), (''NULL'', T_Null), (''TRUE'', T_True), (''FALSE'', T_False),
     (''COLLECTION'', T_Collection), (''INDEX'', T_Index), (''KEY'', T_Key), (''DROP'', T_Drop),
     (''ON'', T_On), (''TYPE'', T_TypeKw), (''STRING'', T_TyString), (''INT'', T_TyInt),
     (''BOOL'', T_TyBool), (''BYTES'', T_TyBytes)]"

definition keyword_or_ident :: "string \<Rightarrow> TokenKind" where
  "keyword_or_ident text =
     (case map_of keyword_table (to_ascii_uppercase text) of Some k \<Rightarrow> k | None \<Rightarrow> T_Ident text)"

definition ident_char :: "rchar \<Rightarrow> bool" where
  "ident_char c \<longleftrightarrow> is_ascii_alphanumeric c \<or> c = ''_''"

definition lex_ident_or_keyword :: "nat \<Rightarrow> Token lex" where
  "lex_ident_or_keyword offset l0 =
     (let l = bump_while ident_char l0
      in finish_token offset (keyword_or_ident (slice (lx_source l) offset (current_byte_offset l))) l)"

definition single_char_tokens :: "(rchar \<times> TokenKind) list" where
  "single_char_tokens =
    [('';'', T_Semicolon), ('','', T_Comma), ('':'', T_Colon), (''*'', T_Star), (''('', T_LParen),
     ('')'', T_RParen), (''{'', T_LBrace), (''}'', T_RBrace), (''['', T_LBracket), ('']'', T_RBracket),
     (''='', T_Eq)]"

definition quoted :: "rchar \<Rightarrow> string" where
  "quoted c = CHR 0x27 # c @ [CHR 0x27]"

definition next_token :: "Token lex" where
  "next_token l0 =
     (let l = skip_whitespace_and_comments l0 in
      case peek l of
        None \<Rightarrow>
          (Inr \<lparr>tok_kind = T_Eof, tok_offset = length (lx_source l), tok_end = length (lx_source l)\<rparr>, l)
      | Some (offset, ch) \<Rightarrow>
          let second = map_option snd (peek (bump l)) in
          case map_of single_char_tokens ch of
            Some k \<Rightarrow> finish_token offset k (bump l)
          | None \<Rightarrow>
              if ch = ''!'' then
                if second = Some ''='' then finish_token offset T_Neq (bump (bump l))
                else (Inl (lex_error l offset (Msg (''expected '' @ quoted ''='' @ '' after '' @ quoted ''!''))), bump l)
              else if ch = ''.'' then
                if second = Some ''.'' then finish_token offset T_DotDot (bump (bump l))
                else finish_token offset T_Dot (bump l)
              else if ch = ''-'' then
                if second = Some ''>'' then finish_token offset T_ArrowRight (bump (bump l))
                else finish_token offset T_Minus (bump l)
              else if ch = ''<'' then
                if second = Some ''-'' then finish_token offset T_ArrowLeft (bump (bump l))
                else (Inl (lex_error l offset (Msg (''expected '' @ quoted ''-'' @ '' after '' @ quoted ''<''))), bump l)
              else if ch = [CHR 0x22] then lex_string offset l
              else if is_ascii_digit ch then lex_number offset l
              else if is_ascii_alphabetic ch \<or> ch = ''_'' then lex_ident_or_keyword offset l
              else (Inl (lex_error l offset (Unexpected_character ch)), l))"

section \<open>The token sequence\<close>

text \<open>
  To see that \<open>tokenize\<close> ends: a token other than the end of input consumes a character. All
  methods only move the position.
\<close>

definition moved :: "Lexer \<Rightarrow> Lexer \<Rightarrow> bool" where
  "moved l l' \<longleftrightarrow> (\<exists>k. l' = (bump ^^ k) l)"

lemma moved_refl [simp]: "moved l l"
  unfolding moved_def by (rule exI [of _ 0]) simp

lemma moved_trans [trans]:
  assumes "moved l l'" "moved l' l''"
  shows "moved l l''"
proof -
  from assms obtain m n where "l' = (bump ^^ m) l" "l'' = (bump ^^ n) l'"
    by (auto simp: moved_def)
  then have "l'' = (bump ^^ (n + m)) l"
    by (simp add: funpow_add)
  then show ?thesis
    unfolding moved_def ..
qed

lemma moved_bump [simp]: "moved l (bump l)"
  unfolding moved_def by (rule exI [of _ 1]) simp

lemma moved_induct [consumes 1, case_names refl bump]:
  assumes "moved l l'" "P l" "\<And>l'. moved l l' \<Longrightarrow> P l' \<Longrightarrow> P (bump l')"
  shows "P l'"
proof -
  from assms(1) obtain k where "l' = (bump ^^ k) l"
    by (auto simp: moved_def)
  moreover have "P ((bump ^^ k) l)" for k
  proof (induction k)
    case (Suc k)
    have "moved l ((bump ^^ k) l)"
      unfolding moved_def by blast
    from assms(3) [OF this Suc] show ?case by simp
  qed (simp add: assms(2))
  ultimately show ?thesis by simp
qed

lemma bump_source [simp]: "lx_source (bump l) = lx_source l" "lx_chars (bump l) = lx_chars l"
  by (simp_all add: bump_def)

lemma moved_source: "moved l l' \<Longrightarrow> lx_source l' = lx_source l"
  by (induction rule: moved_induct) simp_all

lemma left_moved: "moved l l' \<Longrightarrow> left l' \<le> left l"
  by (induction rule: moved_induct) (auto intro: order_trans [OF left_bump_le])

lemma moved_bump_while [simp]: "moved l (bump_while p l)"
proof (induction p l rule: bump_while.induct)
  case (1 p l)
  then show ?case
    by (subst bump_while.simps) (fastforce split: option.split intro: moved_trans [OF moved_bump])
qed

lemma moved_bump_line [simp]: "moved l (bump_line l)"
proof (induction l rule: bump_line.induct)
  case (1 l)
  then show ?case
    by (subst bump_line.simps) (fastforce split: option.split intro: moved_trans [OF moved_bump])
qed

lemma moved_skip [simp]: "moved l (skip_whitespace_and_comments l)"
proof (induction l rule: skip_whitespace_and_comments.induct)
  case (1 l)
  let ?l = "bump_while is_whitespace l"
  have "moved ?l (skip_whitespace_and_comments (bump_line (bump (bump ?l))))" if "at_comment ?l"
    by (rule moved_trans [OF moved_bump moved_trans [OF moved_bump moved_trans [OF moved_bump_line]]])
      (rule 1 [OF refl that])
  with moved_trans [OF moved_bump_while [of l is_whitespace]] show ?case
    by (subst skip_whitespace_and_comments.simps) (simp add: Let_def)
qed

lemma moved_lex_string_loop: "moved l (snd (lex_string_loop offset val l))"
proof (induction offset val l rule: lex_string_loop.induct)
  case (1 offset val l)
  have "moved l (bump (bump l))"
    by (rule moved_trans [OF moved_bump moved_bump])
  with 1 show ?case
    by (subst lex_string_loop.simps)
      (auto split: option.split intro: moved_trans [OF moved_bump] moved_trans)
qed

lemma moved_lex_string: "moved l (snd (lex_string offset l))"
proof -
  have "moved (bump l) (snd (lex_string offset l))"
    using moved_lex_string_loop [of "bump l" offset "[]"]
    by (auto simp: lex_string_def try_st_def finish_token_def split: prod.splits sum.splits)
  then show ?thesis
    by (rule moved_trans [OF moved_bump])
qed

lemma moved_lex_number: "moved l (snd (lex_number offset l))"
proof -
  let ?d = "bump_while is_ascii_digit l"
  have "moved l (bump_while is_ascii_digit (bump ?d))"
    by (rule moved_trans [OF moved_bump_while moved_trans [OF moved_bump moved_bump_while]])
  then show ?thesis
    by (simp add: lex_number_def finish_token_def Let_def split: option.split)
qed

lemma moved_lex_ident: "moved l (snd (lex_ident_or_keyword offset l))"
  by (simp add: lex_ident_or_keyword_def finish_token_def Let_def)

lemma snd_finish_token [simp]: "snd (finish_token offset kind l) = l"
  by (simp add: finish_token_def)

lemma moved_next_token: "moved l (snd (next_token l))"
proof -
  let ?l = "skip_whitespace_and_comments l"
  have bb: "moved ?l (bump (bump ?l))"
    by (rule moved_trans [OF moved_bump moved_bump])
  have "moved ?l (snd (next_token l))"
  proof (cases "peek ?l")
    case None
    then show ?thesis by (simp add: next_token_def Let_def)
  next
    case (Some x)
    obtain offset ch where x: "x = (offset, ch)" by force
    show ?thesis
      unfolding next_token_def Let_def Some x option.case prod.case
      by (cases "map_of single_char_tokens ch")
        (simp_all add: bb moved_lex_string moved_lex_number moved_lex_ident)
  qed
  then show ?thesis
    by (rule moved_trans [OF moved_skip])
qed

lemma left_bump_while_less:
  assumes "peek l = Some (i, c)" "p c"
  shows "left (bump_while p l) < left l"
  using assms left_bump_while [of p "bump l"] left_bump [of l]
  by (subst bump_while.simps) simp

lemma keyword_or_ident_kinds:
  "keyword_or_ident text = T_Ident text \<or> keyword_or_ident text \<in> snd ` set keyword_table"
  by (auto simp: keyword_or_ident_def split: option.split dest: map_of_SomeD intro: rev_image_eqI)

lemma keyword_not_Eof: "keyword_or_ident text \<noteq> T_Eof"
  using keyword_or_ident_kinds [of "text"] by (auto simp: keyword_table_def)

lemma single_not_Eof: "map_of single_char_tokens ch = Some k \<Longrightarrow> k \<noteq> T_Eof"
  by (drule map_of_SomeD) (auto simp: single_char_tokens_def)

lemma next_token_progress:
  assumes "next_token l = (Inr t, l')" "tok_kind t \<noteq> T_Eof"
  shows "left l' < left l"
proof -
  let ?l = "skip_whitespace_and_comments l"
  obtain offset ch where pk: "peek ?l = Some (offset, ch)"
  proof (cases "peek ?l")
    case None
    with assms show ?thesis by (auto simp: next_token_def Let_def)
  next
    case (Some x)
    with that show ?thesis by (cases x) simp
  qed
  have b: "left (bump ?l) < left ?l"
    using pk by (intro left_bump) simp
  have bb: "left (bump (bump ?l)) < left ?l"
    using b left_bump_le [of "bump ?l"] by simp
  have str: "left (snd (lex_string offset ?l)) < left ?l"
    using moved_lex_string_loop [of "bump ?l" offset "[]", THEN left_moved] b
    by (auto simp: lex_string_def try_st_def finish_token_def split: prod.splits sum.splits)
  have num: "left (snd (lex_number offset ?l)) < left ?l" if "is_ascii_digit ch"
  proof -
    let ?d = "bump_while is_ascii_digit ?l"
    have "left ?d < left ?l"
      using pk that by (rule left_bump_while_less)
    moreover have "left (bump_while is_ascii_digit (bump ?d)) \<le> left ?d"
      using left_bump_while left_bump_le by (rule order_trans)
    ultimately show ?thesis
      by (auto simp: lex_number_def finish_token_def Let_def split: option.splits)
  qed
  have ident: "left (snd (lex_ident_or_keyword offset ?l)) < left ?l" if "is_ascii_alphabetic ch \<or> ch = ''_''"
  proof -
    have "ident_char ch"
      using that by (auto simp: ident_char_def is_ascii_alphanumeric_def)
    with pk have "left (bump_while ident_char ?l) < left ?l"
      by (rule left_bump_while_less)
    then show ?thesis
      by (simp add: lex_ident_or_keyword_def finish_token_def Let_def)
  qed
  have "left (snd (next_token l)) < left ?l \<or> (\<exists>e. fst (next_token l) = Inl e)"
    unfolding next_token_def Let_def pk option.case prod.case
    by (cases "map_of single_char_tokens ch") (simp_all add: b bb str num ident)
  then have "left l' < left ?l"
    using assms(1) by simp
  with left_moved [OF moved_skip, of l] show ?thesis by simp
qed

function tokenize_loop :: "Token list \<Rightarrow> Lexer \<Rightarrow> ParseError + Token list" where
  "tokenize_loop tokens l =
     (case next_token l of
        (Inl e, l') \<Rightarrow> Inl e
      | (Inr t, l') \<Rightarrow>
          if tok_kind t = T_Eof then Inr (tokens @ [t]) else tokenize_loop (tokens @ [t]) l')"
  by pat_completeness auto
termination
  by (relation "measure (\<lambda>(tokens, l). left l)") (auto dest: next_token_progress [OF sym])

declare tokenize_loop.simps [simp del]

definition tokenize :: "string \<Rightarrow> ParseError + Token list" where
  "tokenize source = tokenize_loop [] (lexer_new source)"

end
