(* ===== verification/Ql_Ast.thy ===== *)
theory Ql_Ast
  imports Rust_Chars
begin

text \<open>
  The EpochQL abstract syntax tree (\<open>epochql/src/ast.rs\<close>), constructor by constructor. A
  \<open>BTreeMap\<close> is a key-sorted association list; boxes disappear.
\<close>

section \<open>Expressions\<close>

datatype BinaryOp = Op_Eq | Op_Neq | Op_And | Op_Or

datatype Expression =
    E_Null
  | E_Bool bool
  | E_Int i64
  | E_Float f64
  | E_String string
  | E_Variable string
  | E_PropertyAccess Expression string
  | E_Binary Expression BinaryOp Expression
  | E_Map "(string \<times> Expression) list"

section \<open>Queries\<close>

datatype TargetRef = TR_Head | TR_Branch string | TR_Commit string | TR_Tag string

record ContextClause =
  cc_target :: TargetRef

record NodePattern =
  np_variable :: "string option"
  np_label :: "string option"
  np_properties :: "(string \<times> Expression) list"

datatype EdgeDirection = Outgoing | Incoming

datatype EdgeType = ET_Parent | ET_Child | ET_Ancestor | ET_Descendant

datatype HopMultiplier =
    Hop_Any
  | Hop_Exact u32
  | Hop_Range "u32 option" "u32 option"

record EdgePattern =
  ep_direction :: EdgeDirection
  ep_edge_type :: EdgeType
  ep_multiplier :: "HopMultiplier option"

datatype PatternElement = PE_Node NodePattern | PE_Edge EdgePattern

record Pattern =
  pat_elements :: "PatternElement list"

record MatchClause =
  mc_patterns :: "Pattern list"

datatype TraversalClause =
    TC_MergeBase TargetRef TargetRef
  | TC_ShortestPath TargetRef TargetRef
  | TC_Ancestors TargetRef

record ProjectionItem =
  pi_expression :: Expression
  pi_alias :: "string option"

record SelectClause =
  sc_items :: "ProjectionItem list"

record QueryStatement =
  qs_context :: "ContextClause option"
  qs_match_clause :: "MatchClause option"
  qs_traversal :: "TraversalClause option"
  qs_where_clause :: "Expression option"
  qs_select :: "SelectClause option"

section \<open>Version-control statements\<close>

record CommitStmt =
  cs_payload :: "(string \<times> Expression) list"
  cs_message :: "string option"
  cs_parents :: "TargetRef list option"

datatype BranchStmt =
    BS_Create string "TargetRef option"
  | BS_Delete string

datatype MergeStrategy = MS_FastForward | MS_ThreeWay | MS_Squash

record MergeStmt =
  ms_source :: TargetRef
  ms_into :: TargetRef
  ms_strategy :: MergeStrategy

record DiffStmt =
  df_left :: TargetRef
  df_right :: TargetRef
  df_path :: "string option"

datatype VersionStatement =
    VS_Commit CommitStmt
  | VS_Branch BranchStmt
  | VS_Checkout TargetRef
  | VS_Merge MergeStmt
  | VS_Diff DiffStmt

datatype Statement = Query QueryStatement | Version VersionStatement

end
