(* ===== verification/Ql_Parser.thy ===== *)
theory Ql_Parser
  imports Ql_Lexer Ql_Ast
begin

text \<open>
  The EpochQL recursive-descent parser (\<open>epochql/src/parser.rs\<close>), method by method. A parser is
  the record of the source, the tokens and a position; a method maps it to a result and the
  parser after the call. Slicing the source at a byte that is no character boundary panics, as in
  Rust. Recursion through \<open>parse_expression\<close> and every loop is bounded by fuel; running out is the
  failure \<open>P_Fuel\<close>, which \<open>Ql_Grammar\<close> shows never happens with one unit per token.
  A \<open>Vec\<close> of tokens is never empty here (\<open>tokenize\<close> ends it with \<open>Eof\<close>), so \<open>current\<close> is total.
\<close>

section \<open>State and helpers\<close>

record Parser =
  ps_source :: string
  ps_tokens :: "Token list"
  ps_pos :: nat

datatype parse_failure = P_Err ParseError | P_Panic | P_Fuel

type_synonym 'a parse = "Parser \<Rightarrow> (parse_failure + 'a) \<times> Parser"

definition parser_new :: "string \<Rightarrow> Token list \<Rightarrow> Parser" where
  "parser_new source tokens = \<lparr>ps_source = source, ps_tokens = tokens, ps_pos = 0\<rparr>"

definition current :: "Parser \<Rightarrow> Token" where
  "current p = ps_tokens p ! min (ps_pos p) (length (ps_tokens p) - 1)"

abbreviation kind :: "Parser \<Rightarrow> TokenKind" where
  "kind p \<equiv> tok_kind (current p)"

definition is_eof :: "Parser \<Rightarrow> bool" where
  "is_eof p \<longleftrightarrow> kind p = T_Eof"

definition ident_lit :: "TokenKind \<Rightarrow> string option" where
  "ident_lit k = (case k of T_Ident s \<Rightarrow> Some s | _ \<Rightarrow> None)"

definition string_lit :: "TokenKind \<Rightarrow> string option" where
  "string_lit k = (case k of T_String s \<Rightarrow> Some s | _ \<Rightarrow> None)"

definition int_lit :: "TokenKind \<Rightarrow> i64 option" where
  "int_lit k = (case k of T_Int n \<Rightarrow> Some n | _ \<Rightarrow> None)"

definition float_lit :: "TokenKind \<Rightarrow> f64 option" where
  "float_lit k = (case k of T_Float x \<Rightarrow> Some x | _ \<Rightarrow> None)"

definition same_discriminant :: "TokenKind \<Rightarrow> TokenKind \<Rightarrow> bool" where
  "same_discriminant j k \<longleftrightarrow>
     j = k \<or> ident_lit j \<noteq> None \<and> ident_lit k \<noteq> None \<or> string_lit j \<noteq> None \<and> string_lit k \<noteq> None
     \<or> int_lit j \<noteq> None \<and> int_lit k \<noteq> None \<or> float_lit j \<noteq> None \<and> float_lit k \<noteq> None"

definition check :: "Parser \<Rightarrow> TokenKind \<Rightarrow> bool" where
  "check p k \<longleftrightarrow> same_discriminant (kind p) k"

definition looks_like_ident :: "Parser \<Rightarrow> bool" where
  "looks_like_ident p \<longleftrightarrow>
     ident_lit (kind p) \<noteq> None
     \<or> kind p \<in> {T_Use, T_Branch, T_Commit, T_Tag, T_Head, T_Match, T_Traverse, T_MergeBase,
         T_ShortestPath, T_Ancestors, T_Where, T_Select, T_As, T_Create, T_Delete, T_From, T_Checkout,
         T_Merge, T_Into, T_Strategy, T_FastForward, T_ThreeWay, T_Squash, T_Diff, T_And, T_Or,
         T_Message, T_Parents, T_Path, T_Parent, T_Child, T_Ancestor, T_Descendant, T_Null, T_True,
         T_False, T_Collection, T_Index, T_Key, T_Drop, T_On, T_TypeKw, T_TyString, T_TyInt, T_TyBool,
         T_TyBytes}"

definition p_bump :: "Token parse" where
  "p_bump p =
     (Inr (current p), if ps_pos p < length (ps_tokens p) - 1 then p\<lparr>ps_pos := ps_pos p + 1\<rparr> else p)"

definition p_error :: "Parser \<Rightarrow> err_message \<Rightarrow> ParseError" where
  "p_error p m = with_location (parse_error_at (tok_offset (current p)) m) (ps_source p)"

definition p_fail :: "err_message \<Rightarrow> 'a parse" where
  "p_fail m p = (Inl (P_Err (p_error p m)), p)"

definition p_ok :: "'a \<Rightarrow> 'a parse" where
  "p_ok x p = (Inr x, p)"

definition expect :: "TokenKind \<Rightarrow> Token parse" where
  "expect k p = (if check p k then p_bump p else p_fail (Expected_found k (kind p)) p)"

text \<open>\<open>if self.check(k) { self.bump(); m } else { m' }\<close>\<close>

definition p_when :: "TokenKind \<Rightarrow> 'a parse \<Rightarrow> 'a parse \<Rightarrow> 'a parse" where
  "p_when k m m' p = (if check p k then try_st p_bump (\<lambda>_. m) p else m' p)"

definition p_slice :: "nat \<Rightarrow> nat \<Rightarrow> string parse" where
  "p_slice i j p =
     (if i \<le> j \<and> boundary (ps_source p) i \<and> boundary (ps_source p) j
      then (Inr (slice (ps_source p) i j), p) else (Inl P_Panic, p))"

definition expect_ident_or_keyword_as_ident :: "string parse" where
  "expect_ident_or_keyword_as_ident p =
     (if \<not> looks_like_ident p then p_fail (Msg ''expected identifier'') p
      else try_st p_bump (\<lambda>_. p_slice (tok_offset (current p)) (tok_end (current p))) p)"

definition expect_ident :: "string parse" where
  "expect_ident = expect_ident_or_keyword_as_ident"

definition expect_string :: "string parse" where
  "expect_string p =
     (case string_lit (kind p) of
        Some s \<Rightarrow> try_st p_bump (\<lambda>_. p_ok s) p
      | None \<Rightarrow> p_fail (Msg ''expected string literal'') p)"

definition expect_name :: "string parse" where
  "expect_name p = (if string_lit (kind p) \<noteq> None then expect_string p else expect_ident p)"

definition expect_u32 :: "u32 parse" where
  "expect_u32 p =
     (case int_lit (kind p) of
        Some n \<Rightarrow>
          if 0 \<le> sint n \<and> sint n \<le> 0xFFFFFFFF then try_st p_bump (\<lambda>_. p_ok (ucast n)) p
          else p_fail (Msg ''expected non-negative integer'') p
      | None \<Rightarrow> p_fail (Msg ''expected non-negative integer'') p)"

definition validate_hex_hash :: "string \<Rightarrow> err_message + unit" where
  "validate_hex_hash s =
     (if s = [] then Inl (Msg ''commit hash must not be empty'')
      else if length s > 64 then Inl (Hash_too_long (length s))
      else if \<not> list_all is_ascii_hexdigit (char_list s) then Inl (Hash_not_hex s)
      else Inr ())"

definition expect_eof_or_semicolon :: "unit parse" where
  "expect_eof_or_semicolon =
     try_st (p_when T_Semicolon (p_ok ()) (p_ok ()))
       (\<lambda>_ p. if is_eof p then p_ok () p else p_fail (Msg ''unexpected tokens after statement'') p)"

definition can_start_statement :: "Parser \<Rightarrow> bool" where
  "can_start_statement p \<longleftrightarrow>
     kind p \<in> {T_Use, T_Match, T_Traverse, T_Where, T_Select, T_Commit, T_Create, T_Delete, T_Checkout,
       T_Merge, T_Diff}"

section \<open>Targets\<close>

definition ref_name :: "err_message \<Rightarrow> string parse" where
  "ref_name m p =
     (if ident_lit (kind p) \<noteq> None then expect_ident p
      else if string_lit (kind p) \<noteq> None then expect_string p
      else p_fail m p)"

definition parse_target_ref :: "TargetRef parse" where
  "parse_target_ref p =
     (if kind p = T_Head then try_st p_bump (\<lambda>_. p_ok TR_Head) p
      else if kind p = T_Branch then
        try_st p_bump (\<lambda>_.
        try_st (ref_name (Msg ''expected branch name after BRANCH'')) (\<lambda>name. p_ok (TR_Branch name))) p
      else if kind p = T_Commit then
        try_st p_bump (\<lambda>_.
        try_st expect_string (\<lambda>hex.
          case validate_hex_hash hex of Inl m \<Rightarrow> p_fail m | Inr _ \<Rightarrow> p_ok (TR_Commit hex))) p
      else if kind p = T_Tag then
        try_st p_bump (\<lambda>_.
        try_st (ref_name (Msg ''expected tag name after TAG'')) (\<lambda>name. p_ok (TR_Tag name))) p
      else p_fail (Msg ''expected HEAD, BRANCH, COMMIT, or TAG'') p)"

section \<open>Expressions\<close>

text \<open>
  \<open>E\<close> is the recursive call of \<open>parse_expression\<close>; \<open>n\<close> bounds the loops. A loop is a function
  of the value accumulated so far.
\<close>

primrec map_entries :: "Expression parse \<Rightarrow> nat \<Rightarrow> (string \<times> Expression) list \<Rightarrow>
    (string \<times> Expression) list parse" where
  "map_entries E 0 m p = (Inl P_Fuel, p)"
| "map_entries E (Suc n) m p =
     try_st expect_ident_or_keyword_as_ident (\<lambda>key.
     try_st (expect T_Colon) (\<lambda>_.
     try_st E (\<lambda>val.
     p_when T_Comma (map_entries E n (bt_insert key val m)) (p_ok (bt_insert key val m))))) p"

definition parse_map_literal :: "Expression parse \<Rightarrow> nat \<Rightarrow> (string \<times> Expression) list parse" where
  "parse_map_literal E n =
     try_st (expect T_LBrace) (\<lambda>_.
     try_st (\<lambda>p. if \<not> check p T_RBrace then map_entries E n [] p else p_ok [] p) (\<lambda>m.
     try_st (expect T_RBrace) (\<lambda>_. p_ok m)))"

definition parse_primary :: "Expression parse \<Rightarrow> nat \<Rightarrow> Expression parse" where
  "parse_primary E n p =
     (if kind p = T_Null then try_st p_bump (\<lambda>_. p_ok E_Null) p
      else if kind p = T_True then try_st p_bump (\<lambda>_. p_ok (E_Bool True)) p
      else if kind p = T_False then try_st p_bump (\<lambda>_. p_ok (E_Bool False)) p
      else if kind p = T_LBrace then try_st (parse_map_literal E n) (\<lambda>m. p_ok (E_Map m)) p
      else if kind p = T_LParen then
        try_st p_bump (\<lambda>_. try_st E (\<lambda>expr. try_st (expect T_RParen) (\<lambda>_. p_ok expr))) p
      else if kind p = T_Minus then
        try_st p_bump (\<lambda>_ p.
          case int_lit (kind p) of
            Some i \<Rightarrow> try_st p_bump (\<lambda>_. p_ok (E_Int (- i))) p
          | None \<Rightarrow>
             (case float_lit (kind p) of
                Some x \<Rightarrow> try_st p_bump (\<lambda>_. p_ok (E_Float (f64_neg x))) p
              | None \<Rightarrow> p_fail (Msg (''expected number after '' @ quoted ''-'')) p)) p
      else
        case int_lit (kind p) of
          Some i \<Rightarrow> try_st p_bump (\<lambda>_. p_ok (E_Int i)) p
        | None \<Rightarrow>
           (case float_lit (kind p) of
              Some x \<Rightarrow> try_st p_bump (\<lambda>_. p_ok (E_Float x)) p
            | None \<Rightarrow>
               (case string_lit (kind p) of
                  Some s \<Rightarrow> try_st p_bump (\<lambda>_. p_ok (E_String s)) p
                | None \<Rightarrow>
                    if looks_like_ident p then try_st expect_ident (\<lambda>name. p_ok (E_Variable name)) p
                    else p_fail (Msg ''expected expression'') p)))"

primrec postfix_loop :: "nat \<Rightarrow> Expression \<Rightarrow> Expression parse" where
  "postfix_loop 0 expr p = (Inl P_Fuel, p)"
| "postfix_loop (Suc n) expr p =
     p_when T_Dot
       (try_st expect_ident_or_keyword_as_ident (\<lambda>property.
        postfix_loop n (E_PropertyAccess expr property)))
       (p_ok expr) p"

definition parse_postfix :: "Expression parse \<Rightarrow> nat \<Rightarrow> Expression parse" where
  "parse_postfix E n = try_st (parse_primary E n) (postfix_loop n)"

primrec equality_loop :: "Expression parse \<Rightarrow> nat \<Rightarrow> Expression \<Rightarrow> Expression parse" where
  "equality_loop M 0 l p = (Inl P_Fuel, p)"
| "equality_loop M (Suc n) l p =
     (if kind p = T_Eq then
        try_st p_bump (\<lambda>_. try_st M (\<lambda>r. equality_loop M n (E_Binary l Op_Eq r))) p
      else if kind p = T_Neq then
        try_st p_bump (\<lambda>_. try_st M (\<lambda>r. equality_loop M n (E_Binary l Op_Neq r))) p
      else p_ok l p)"

definition parse_equality :: "Expression parse \<Rightarrow> nat \<Rightarrow> Expression parse" where
  "parse_equality E n = try_st (parse_postfix E n) (equality_loop (parse_postfix E n) n)"

text \<open>The loops of \<open>parse_and\<close> and \<open>parse_or\<close> differ in the token and the operator only.\<close>

primrec binary_loop :: "TokenKind \<Rightarrow> BinaryOp \<Rightarrow> Expression parse \<Rightarrow> nat \<Rightarrow> Expression \<Rightarrow> Expression parse"
where
  "binary_loop k bop M 0 l p = (Inl P_Fuel, p)"
| "binary_loop k bop M (Suc n) l p =
     p_when k (try_st M (\<lambda>r. binary_loop k bop M n (E_Binary l bop r))) (p_ok l) p"

definition parse_and :: "Expression parse \<Rightarrow> nat \<Rightarrow> Expression parse" where
  "parse_and E n = try_st (parse_equality E n) (binary_loop T_And Op_And (parse_equality E n) n)"

definition parse_or :: "Expression parse \<Rightarrow> nat \<Rightarrow> Expression parse" where
  "parse_or E n = try_st (parse_and E n) (binary_loop T_Or Op_Or (parse_and E n) n)"

primrec parse_expression :: "nat \<Rightarrow> Expression parse" where
  "parse_expression 0 p = (Inl P_Fuel, p)"
| "parse_expression (Suc n) p = parse_or (parse_expression n) (Suc n) p"

section \<open>Version statements\<close>

primrec target_list :: "nat \<Rightarrow> TargetRef list \<Rightarrow> TargetRef list parse" where
  "target_list 0 list p = (Inl P_Fuel, p)"
| "target_list (Suc n) list p =
     try_st parse_target_ref (\<lambda>t.
     p_when T_Comma (target_list n (list @ [t])) (p_ok (list @ [t]))) p"

primrec commit_clauses :: "nat \<Rightarrow> string option \<Rightarrow> TargetRef list option \<Rightarrow>
    (string option \<times> TargetRef list option) parse" where
  "commit_clauses 0 message parents p = (Inl P_Fuel, p)"
| "commit_clauses (Suc n) message parents p =
     (if kind p = T_Message then
        try_st p_bump (\<lambda>_.
        try_st expect_string (\<lambda>s. commit_clauses n (Some s) parents)) p
      else if kind p = T_Parents then
        try_st p_bump (\<lambda>_.
        try_st (expect T_LBracket) (\<lambda>_.
        try_st (\<lambda>p. if \<not> check p T_RBracket then target_list n [] p else p_ok [] p) (\<lambda>list.
        try_st (expect T_RBracket) (\<lambda>_. commit_clauses n message (Some list))))) p
      else p_ok (message, parents) p)"

definition parse_commit_stmt :: "nat \<Rightarrow> CommitStmt parse" where
  "parse_commit_stmt n =
     try_st (expect T_Commit) (\<lambda>_.
     try_st (parse_map_literal (parse_expression n) n) (\<lambda>payload.
     try_st (commit_clauses n None None) (\<lambda>(message, parents).
     p_ok \<lparr>cs_payload = payload, cs_message = message, cs_parents = parents\<rparr>)))"

definition parse_branch_stmt :: "BranchStmt parse" where
  "parse_branch_stmt p =
     (if kind p = T_Create then
        try_st p_bump (\<lambda>_.
        try_st (expect T_Branch) (\<lambda>_.
        try_st expect_name (\<lambda>name.
        try_st (p_when T_From (try_st parse_target_ref (\<lambda>t. p_ok (Some t))) (p_ok None)) (\<lambda>from.
        p_ok (BS_Create name from))))) p
      else if kind p = T_Delete then
        try_st p_bump (\<lambda>_.
        try_st (expect T_Branch) (\<lambda>_.
        try_st expect_name (\<lambda>name. p_ok (BS_Delete name)))) p
      else p_fail (Msg ''expected CREATE or DELETE BRANCH'') p)"

definition parse_strategy :: "MergeStrategy parse" where
  "parse_strategy p =
     (if kind p = T_FastForward then try_st p_bump (\<lambda>_. p_ok MS_FastForward) p
      else if kind p = T_ThreeWay then try_st p_bump (\<lambda>_. p_ok MS_ThreeWay) p
      else if kind p = T_Squash then try_st p_bump (\<lambda>_. p_ok MS_Squash) p
      else p_fail (Msg ''expected FAST_FORWARD, THREE_WAY, or SQUASH merge strategy'') p)"

definition parse_merge_stmt :: "MergeStmt parse" where
  "parse_merge_stmt =
     try_st (expect T_Merge) (\<lambda>_.
     try_st parse_target_ref (\<lambda>source.
     try_st (expect T_Into) (\<lambda>_.
     try_st parse_target_ref (\<lambda>into.
     try_st (p_when T_Strategy parse_strategy (p_ok MS_FastForward)) (\<lambda>strategy.
     p_ok \<lparr>ms_source = source, ms_into = into, ms_strategy = strategy\<rparr>)))))"

definition parse_diff_stmt :: "DiffStmt parse" where
  "parse_diff_stmt =
     try_st (expect T_Diff) (\<lambda>_.
     try_st parse_target_ref (\<lambda>l.
     try_st (expect T_And) (\<lambda>_.
     try_st parse_target_ref (\<lambda>r.
     try_st (p_when T_Path (try_st expect_string (\<lambda>s. p_ok (Some s))) (p_ok None)) (\<lambda>path.
     p_ok \<lparr>df_left = l, df_right = r, df_path = path\<rparr>)))))"

definition parse_version_statement :: "nat \<Rightarrow> VersionStatement parse" where
  "parse_version_statement n p =
     (if kind p = T_Commit then try_st (parse_commit_stmt n) (\<lambda>s. p_ok (VS_Commit s)) p
      else if kind p = T_Create \<or> kind p = T_Delete then try_st parse_branch_stmt (\<lambda>s. p_ok (VS_Branch s)) p
      else if kind p = T_Checkout then
        try_st p_bump (\<lambda>_. try_st parse_target_ref (\<lambda>t. p_ok (VS_Checkout t))) p
      else if kind p = T_Merge then try_st parse_merge_stmt (\<lambda>s. p_ok (VS_Merge s)) p
      else if kind p = T_Diff then try_st parse_diff_stmt (\<lambda>s. p_ok (VS_Diff s)) p
      else p_fail (Msg ''expected version statement'') p)"

section \<open>Query statements\<close>

definition is_edge_start :: "Parser \<Rightarrow> bool" where
  "is_edge_start p \<longleftrightarrow> kind p \<in> {T_ArrowRight, T_ArrowLeft, T_Minus}"

definition parse_node_pattern :: "nat \<Rightarrow> NodePattern parse" where
  "parse_node_pattern n =
     try_st (expect T_LParen) (\<lambda>_.
     try_st (\<lambda>p. if looks_like_ident p then try_st expect_ident (\<lambda>s. p_ok (Some s)) p else p_ok None p)
       (\<lambda>variable.
     try_st (p_when T_Colon (try_st expect_ident_or_keyword_as_ident (\<lambda>s. p_ok (Some s))) (p_ok None))
       (\<lambda>label.
     try_st (\<lambda>p. if check p T_LBrace then parse_map_literal (parse_expression n) n p else p_ok [] p)
       (\<lambda>properties.
     try_st (expect T_RParen) (\<lambda>_.
     p_ok \<lparr>np_variable = variable, np_label = label, np_properties = properties\<rparr>)))))"

definition parse_edge_type :: "EdgeType parse" where
  "parse_edge_type p =
     (if kind p = T_Parent then try_st p_bump (\<lambda>_. p_ok ET_Parent) p
      else if kind p = T_Child then try_st p_bump (\<lambda>_. p_ok ET_Child) p
      else if kind p = T_Ancestor then try_st p_bump (\<lambda>_. p_ok ET_Ancestor) p
      else if kind p = T_Descendant then try_st p_bump (\<lambda>_. p_ok ET_Descendant) p
      else p_fail (Msg ''expected PARENT, CHILD, ANCESTOR, or DESCENDANT'') p)"

definition at_int :: "Parser \<Rightarrow> bool" where
  "at_int p \<longleftrightarrow> int_lit (kind p) \<noteq> None"

definition parse_hop_multiplier :: "HopMultiplier parse" where
  "parse_hop_multiplier =
     try_st (expect T_Star) (\<lambda>_ p.
       if at_int p then
         try_st expect_u32 (\<lambda>n.
         p_when T_DotDot
           (\<lambda>p. if at_int p then try_st expect_u32 (\<lambda>m. p_ok (Hop_Range (Some n) (Some m))) p
                else p_ok (Hop_Range (Some n) None) p)
           (p_ok (Hop_Exact n))) p
       else
         p_when T_DotDot
           (\<lambda>p. if at_int p then try_st expect_u32 (\<lambda>m. p_ok (Hop_Range None (Some m))) p
                else p_ok Hop_Any p)
           (p_ok Hop_Any) p)"

definition parse_edge_body :: "(EdgeType option \<times> HopMultiplier option) parse" where
  "parse_edge_body =
     try_st
       (p_when T_Colon (try_st parse_edge_type (\<lambda>t. p_ok (Some t)))
         (\<lambda>p. if kind p \<in> {T_Parent, T_Child, T_Ancestor, T_Descendant}
              then try_st parse_edge_type (\<lambda>t. p_ok (Some t)) p else p_ok None p))
       (\<lambda>edge_type.
     try_st
       (\<lambda>p. if check p T_Star then try_st parse_hop_multiplier (\<lambda>h. p_ok (Some h)) p else p_ok None p)
       (\<lambda>multiplier. p_ok (edge_type, multiplier)))"

definition unwrap_or :: "'a option \<Rightarrow> 'a \<Rightarrow> 'a" where
  "unwrap_or x d = (case x of Some y \<Rightarrow> y | None \<Rightarrow> d)"

definition parse_bracket_edge :: "EdgeDirection \<Rightarrow> EdgePattern parse" where
  "parse_bracket_edge direction =
     try_st (expect T_LBracket) (\<lambda>_.
     try_st parse_edge_body (\<lambda>(edge_type, multiplier).
     try_st (expect T_RBracket) (\<lambda>_.
     case direction of
       Incoming \<Rightarrow>
         try_st (expect T_Minus) (\<lambda>_.
         p_ok \<lparr>ep_direction = direction, ep_edge_type = unwrap_or edge_type ET_Parent,
               ep_multiplier = multiplier\<rparr>)
     | Outgoing \<Rightarrow>
         try_st (expect T_ArrowRight) (\<lambda>_.
         p_ok \<lparr>ep_direction = direction, ep_edge_type = unwrap_or edge_type ET_Child,
               ep_multiplier = multiplier\<rparr>))))"

definition parse_edge_pattern :: "EdgePattern parse" where
  "parse_edge_pattern p =
     (if kind p = T_ArrowRight then
        try_st p_bump (\<lambda>_.
        p_ok \<lparr>ep_direction = Outgoing, ep_edge_type = ET_Child, ep_multiplier = None\<rparr>) p
      else if kind p = T_ArrowLeft then
        try_st p_bump (\<lambda>_ p.
          if check p T_LBracket then parse_bracket_edge Incoming p
          else p_ok \<lparr>ep_direction = Incoming, ep_edge_type = ET_Parent, ep_multiplier = None\<rparr> p) p
      else if kind p = T_Minus then
        try_st p_bump (\<lambda>_.
        try_st (expect T_LBracket) (\<lambda>_.
        try_st parse_edge_body (\<lambda>(edge_type, multiplier).
        try_st (expect T_RBracket) (\<lambda>_.
        try_st (expect T_ArrowRight) (\<lambda>_.
        p_ok \<lparr>ep_direction = Outgoing, ep_edge_type = unwrap_or edge_type ET_Child,
              ep_multiplier = multiplier\<rparr>))))) p
      else p_fail (Msg ''expected edge pattern (->, <-, -[...]->, or <-[...]-)'') p)"

primrec pattern_loop :: "nat \<Rightarrow> PatternElement list \<Rightarrow> PatternElement list parse" where
  "pattern_loop 0 elements p = (Inl P_Fuel, p)"
| "pattern_loop (Suc n) elements p =
     (if is_edge_start p then
        try_st parse_edge_pattern (\<lambda>e.
        try_st (parse_node_pattern n) (\<lambda>v.
        pattern_loop n (elements @ [PE_Edge e] @ [PE_Node v]))) p
      else p_ok elements p)"

definition parse_pattern :: "nat \<Rightarrow> Pattern parse" where
  "parse_pattern n =
     try_st (parse_node_pattern n) (\<lambda>v.
     try_st (pattern_loop n [PE_Node v]) (\<lambda>elements. p_ok \<lparr>pat_elements = elements\<rparr>))"

primrec match_loop :: "nat \<Rightarrow> Pattern list \<Rightarrow> Pattern list parse" where
  "match_loop 0 patterns p = (Inl P_Fuel, p)"
| "match_loop (Suc n) patterns p =
     p_when T_Comma (try_st (parse_pattern n) (\<lambda>q. match_loop n (patterns @ [q]))) (p_ok patterns) p"

definition parse_match_clause :: "nat \<Rightarrow> MatchClause parse" where
  "parse_match_clause n =
     try_st (expect T_Match) (\<lambda>_.
     try_st (parse_pattern n) (\<lambda>q.
     try_st (match_loop n [q]) (\<lambda>patterns. p_ok \<lparr>mc_patterns = patterns\<rparr>)))"

definition two_targets :: "(TargetRef \<Rightarrow> TargetRef \<Rightarrow> 'a) \<Rightarrow> 'a parse" where
  "two_targets c =
     try_st p_bump (\<lambda>_.
     try_st (expect T_LParen) (\<lambda>_.
     try_st parse_target_ref (\<lambda>a.
     try_st (expect T_Comma) (\<lambda>_.
     try_st parse_target_ref (\<lambda>b.
     try_st (expect T_RParen) (\<lambda>_. p_ok (c a b)))))))"

definition parse_traversal_clause :: "TraversalClause parse" where
  "parse_traversal_clause =
     try_st (expect T_Traverse) (\<lambda>_ p.
       if kind p = T_MergeBase then two_targets TC_MergeBase p
       else if kind p = T_ShortestPath then two_targets TC_ShortestPath p
       else if kind p = T_Ancestors then
         try_st p_bump (\<lambda>_.
         try_st (expect T_LParen) (\<lambda>_.
         try_st parse_target_ref (\<lambda>a.
         try_st (expect T_RParen) (\<lambda>_. p_ok (TC_Ancestors a))))) p
       else p_fail (Msg ''expected MERGE_BASE, SHORTEST_PATH, or ANCESTORS after TRAVERSE'') p)"

definition parse_projection_item :: "nat \<Rightarrow> ProjectionItem parse" where
  "parse_projection_item n =
     try_st (parse_expression n) (\<lambda>expression.
     try_st (p_when T_As (try_st expect_ident (\<lambda>s. p_ok (Some s))) (p_ok None)) (\<lambda>alias.
     p_ok \<lparr>pi_expression = expression, pi_alias = alias\<rparr>))"

primrec select_loop :: "nat \<Rightarrow> ProjectionItem list \<Rightarrow> ProjectionItem list parse" where
  "select_loop 0 items p = (Inl P_Fuel, p)"
| "select_loop (Suc n) items p =
     p_when T_Comma (try_st (parse_projection_item n) (\<lambda>i. select_loop n (items @ [i]))) (p_ok items) p"

definition parse_select_clause :: "nat \<Rightarrow> SelectClause parse" where
  "parse_select_clause n =
     try_st (expect T_Select) (\<lambda>_.
     try_st (parse_projection_item n) (\<lambda>i.
     try_st (select_loop n [i]) (\<lambda>items. p_ok \<lparr>sc_items = items\<rparr>)))"

text \<open>\<open>if self.check(k) { slot = Some(m) }\<close>, the clause itself reading the keyword\<close>

definition p_clause :: "TokenKind \<Rightarrow> 'a parse \<Rightarrow> 'a option parse" where
  "p_clause k m p = (if check p k then try_st m (\<lambda>x. p_ok (Some x)) p else p_ok None p)"

definition parse_query_statement :: "nat \<Rightarrow> QueryStatement parse" where
  "parse_query_statement n =
     try_st (p_clause T_Use (try_st p_bump (\<lambda>_. try_st parse_target_ref (\<lambda>t. p_ok \<lparr>cc_target = t\<rparr>)))) (\<lambda>context.
     try_st (p_clause T_Match (parse_match_clause n)) (\<lambda>match_clause.
     try_st (p_clause T_Traverse parse_traversal_clause) (\<lambda>traversal.
     try_st (p_clause T_Where (try_st p_bump (\<lambda>_. parse_expression n))) (\<lambda>where_clause.
     try_st (p_clause T_Select (parse_select_clause n)) (\<lambda>select.
     if context = None \<and> match_clause = None \<and> traversal = None \<and> where_clause = None \<and> select = None
     then p_fail (Msg ''expected query clause (USE, MATCH, TRAVERSE, WHERE, or SELECT)'')
     else p_ok \<lparr>qs_context = context, qs_match_clause = match_clause, qs_traversal = traversal,
                qs_where_clause = where_clause, qs_select = select\<rparr>)))))"

section \<open>Statements and scripts\<close>

definition parse_statement :: "nat \<Rightarrow> Statement parse" where
  "parse_statement n p =
     (if kind p \<in> {T_Commit, T_Create, T_Delete, T_Checkout, T_Merge, T_Diff}
      then try_st (parse_version_statement n) (\<lambda>s. p_ok (Version s)) p
      else try_st (parse_query_statement n) (\<lambda>s. p_ok (Query s)) p)"

definition parse :: "string \<Rightarrow> parse_failure + Statement" where
  "parse source =
     try_res (map_err P_Err (tokenize source)) (\<lambda>tokens.
       fst (try_st (parse_statement (length tokens)) (\<lambda>stmt.
            try_st expect_eof_or_semicolon (\<lambda>_. p_ok stmt)) (parser_new source tokens)))"

primrec script_loop :: "nat \<Rightarrow> Statement list \<Rightarrow> Statement list parse" where
  "script_loop 0 stmts p = (Inl P_Fuel, p)"
| "script_loop (Suc n) stmts p =
     (if is_eof p then p_ok stmts p
      else
        try_st (parse_statement (Suc n)) (\<lambda>stmt.
        try_st (p_when T_Semicolon (p_ok ()) (p_ok ())) (\<lambda>_ p.
          if is_eof p then p_ok (stmts @ [stmt]) p
          else if \<not> can_start_statement p then p_fail (Msg ''expected statement or end of input'') p
          else script_loop n (stmts @ [stmt]) p)) p)"

definition parse_script :: "string \<Rightarrow> parse_failure + Statement list" where
  "parse_script source =
     try_res (map_err P_Err (tokenize source)) (\<lambda>tokens.
       fst (script_loop (length tokens) [] (parser_new source tokens)))"

end
