(* ===== verification/Ql_Eval.thy ===== *)
theory Ql_Eval
  imports Ql_Value Ql_Parser Disk_Store
begin

text \<open>
  The part of the executor (\<open>epochql/src/exec/engine.rs\<close>) that does not touch the store: errors, bound
  commits, expressions and commit payloads.
\<close>

section \<open>Errors\<close>

text \<open>
  An \<open>ExecError\<close> is a text. The texts of parse errors and the debug form of an expression are kept as
  the values they print.
\<close>

datatype ExecError =
    XE_Msg string
  | XE_Parse ParseError
  | XE_Not_literal Expression

datatype exec_failure = X_Err ExecError | X_Panic | X_Fuel

type_synonym 'a xres = "exec_failure + 'a"

definition x_err :: "string \<Rightarrow> 'a xres" where
  "x_err msg = Inl (X_Err (XE_Msg msg))"

primrec from_store :: "failure \<Rightarrow> exec_failure" where
  "from_store (Err e) = X_Err (XE_Msg (show_error e))"
| "from_store Panic = X_Panic"
| "from_store OutOfFuel = X_Fuel"

primrec from_parse :: "parse_failure \<Rightarrow> exec_failure" where
  "from_parse (P_Err e) = X_Err (XE_Parse e)"
| "from_parse P_Panic = X_Panic"
| "from_parse P_Fuel = X_Fuel"

section \<open>Bound commits\<close>

record BoundCommit =
  bc_hash :: hash
  bc_commit :: Commit
  bc_state :: doc

type_synonym bindings = "(string \<times> BoundCommit) list"

definition property_of :: "BoundCommit \<Rightarrow> string \<Rightarrow> Value" where
  "property_of b key =
     (if key = ''hash'' then V_String (to_string (bc_hash b))
      else if key = ''message'' then V_String (message (bc_commit b))
      else if key = ''timestamp'' then V_Int (timestamp (bc_commit b))
      else if key = ''root_hamt'' then V_String (to_string (root_hamt (bc_commit b)))
      else case map_of (bc_state b) key of Some v \<Rightarrow> v | None \<Rightarrow> V_Null)"

section \<open>Expressions\<close>

definition hash_prefix :: "string \<Rightarrow> string \<Rightarrow> bool" where
  "hash_prefix x y \<longleftrightarrow> 6 \<le> length x \<and> take (length x) y = x"

fun values_eq :: "Value \<Rightarrow> Value \<Rightarrow> bool" where
  "values_eq V_Null V_Null = True"
| "values_eq (V_Bool x) (V_Bool y) = (x = y)"
| "values_eq (V_Int x) (V_Int y) = (x = y)"
| "values_eq (V_Float x) (V_Float y) = f64_close x y"
| "values_eq (V_String x) (V_String y) =
     (x = y \<or> (let xl = map to_ascii_lower x; yl = map to_ascii_lower y in hash_prefix xl yl \<or> hash_prefix yl xl))"
| "values_eq (V_Int x) (V_String y) = (parse_i64 y = Some x)"
| "values_eq (V_String y) (V_Int x) = (parse_i64 y = Some x)"
| "values_eq _ _ = False"

definition lookup_var :: "bindings \<Rightarrow> string \<Rightarrow> BoundCommit xres" where
  "lookup_var bs name =
     (case map_of bs name of
        Some b \<Rightarrow> Inr b
      | None \<Rightarrow> x_err (''unbound variable '' @ quoted name))"

primrec binary_op :: "BinaryOp \<Rightarrow> Value \<Rightarrow> Value \<Rightarrow> bool" where
  "binary_op Op_Eq l r = values_eq l r"
| "binary_op Op_Neq l r = (\<not> values_eq l r)"
| "binary_op Op_And l r = (is_truthy l \<and> is_truthy r)"
| "binary_op Op_Or l r = (is_truthy l \<or> is_truthy r)"

fun eval_expr :: "bindings \<Rightarrow> Expression \<Rightarrow> Value xres"
  and eval_entries :: "bindings \<Rightarrow> (string \<times> Expression) list \<Rightarrow> doc \<Rightarrow> doc xres" where
  "eval_expr bs E_Null = Inr V_Null"
| "eval_expr bs (E_Bool b) = Inr (V_Bool b)"
| "eval_expr bs (E_Int n) = Inr (V_Int n)"
| "eval_expr bs (E_Float x) = Inr (V_Float x)"
| "eval_expr bs (E_String s) = Inr (V_String s)"
| "eval_expr bs (E_Map m) = try_res (eval_entries bs m []) (\<lambda>out. Inr (V_Map out))"
| "eval_expr bs (E_Variable name) =
     try_res (lookup_var bs name) (\<lambda>b. Inr (V_String (to_string (bc_hash b))))"
| "eval_expr bs (E_PropertyAccess obj property) =
     (case obj of
        E_Variable name \<Rightarrow> try_res (lookup_var bs name) (\<lambda>b. Inr (property_of b property))
      | _ \<Rightarrow>
          try_res (eval_expr bs obj) (\<lambda>base.
            Inr (case base of
                   V_Map m \<Rightarrow> (case map_of m property of Some v \<Rightarrow> v | None \<Rightarrow> V_Null)
                 | _ \<Rightarrow> V_Null)))"
| "eval_expr bs (E_Binary a op b) =
     try_res (eval_expr bs a) (\<lambda>l.
     try_res (eval_expr bs b) (\<lambda>r. Inr (V_Bool (binary_op op l r))))"
| "eval_entries bs [] out = Inr out"
| "eval_entries bs ((k, e) # m) out =
     try_res (eval_expr bs e) (\<lambda>v. eval_entries bs m (bt_insert k v out))"

definition eval_bool :: "Expression \<Rightarrow> bindings \<Rightarrow> bool xres" where
  "eval_bool e bs = try_res (eval_expr bs e) (\<lambda>v. Inr (is_truthy v))"

definition expression_label :: "Expression \<Rightarrow> nat \<Rightarrow> string" where
  "expression_label e idx =
     (case e of
        E_Variable n \<Rightarrow> n
      | E_PropertyAccess _ property \<Rightarrow> property
      | _ \<Rightarrow> ''col'' @ show_nat idx)"

section \<open>Payloads\<close>

fun eval_literal_expr :: "Expression \<Rightarrow> Value xres"
  and eval_literal_entries :: "(string \<times> Expression) list \<Rightarrow> doc \<Rightarrow> doc xres" where
  "eval_literal_expr E_Null = Inr V_Null"
| "eval_literal_expr (E_Bool b) = Inr (V_Bool b)"
| "eval_literal_expr (E_Int n) = Inr (V_Int n)"
| "eval_literal_expr (E_Float x) = Inr (V_Float x)"
| "eval_literal_expr (E_String s) = Inr (V_String s)"
| "eval_literal_expr (E_Map m) = try_res (eval_literal_entries m []) (\<lambda>out. Inr (V_Map out))"
| "eval_literal_expr other = Inl (X_Err (XE_Not_literal other))"
| "eval_literal_entries [] out = Inr out"
| "eval_literal_entries ((k, e) # m) out =
     try_res (eval_literal_expr e) (\<lambda>v. eval_literal_entries m (bt_insert k v out))"

definition child_path :: "string \<Rightarrow> string \<Rightarrow> string" where
  "child_path pre k = (if pre = [] then k else pre @ ''.'' @ k)"

fun push_payload_ops :: "HamtOp list \<Rightarrow> string \<Rightarrow> Value \<Rightarrow> HamtOp list xres"
  and push_payload_entries :: "HamtOp list \<Rightarrow> string \<Rightarrow> doc \<Rightarrow> HamtOp list xres" where
  "push_payload_ops ops pre (V_Map m) = push_payload_entries ops pre m"
| "push_payload_ops ops pre other =
     (case to_storage_bytes other of
        Inl e \<Rightarrow> x_err e
      | Inr b \<Rightarrow> Inr (ops @ [Put (as_bytes_str pre) b]))"
| "push_payload_entries ops pre [] = Inr ops"
| "push_payload_entries ops pre ((k, v) # m) =
     try_res (push_payload_ops ops (child_path pre k) v) (\<lambda>ops. push_payload_entries ops pre m)"

section \<open>Edges\<close>

definition hop_bounds :: "HopMultiplier option \<Rightarrow> EdgeType \<Rightarrow> u32 \<times> u32" where
  "hop_bounds mult edge_type =
     (let default_max = (case edge_type of
            ET_Parent \<Rightarrow> 1 | ET_Child \<Rightarrow> 1 | ET_Ancestor \<Rightarrow> 64 | ET_Descendant \<Rightarrow> 64) in
      case mult of
        None \<Rightarrow> (1, default_max)
      | Some Hop_Any \<Rightarrow> (1, 64)
      | Some (Hop_Exact n) \<Rightarrow> (n, n)
      | Some (Hop_Range lo hi) \<Rightarrow>
          (case lo of Some m \<Rightarrow> m | None \<Rightarrow> 1, case hi of Some m \<Rightarrow> m | None \<Rightarrow> 64))"

definition pattern_node_var :: "PatternElement \<Rightarrow> nat \<Rightarrow> string" where
  "pattern_node_var e idx =
     (case e of
        PE_Node n \<Rightarrow> (case np_variable n of Some v \<Rightarrow> v | None \<Rightarrow> ''_'' @ show_nat idx)
      | _ \<Rightarrow> ''_'' @ show_nat idx)"

section \<open>Evaluation fails only on unbound variables\<close>

fun free_vars :: "Expression \<Rightarrow> string set" where
  "free_vars (E_Variable x) = {x}"
| "free_vars (E_PropertyAccess e _) = free_vars e"
| "free_vars (E_Binary a _ b) = free_vars a \<union> free_vars b"
| "free_vars (E_Map m) = (\<Union>(k, e) \<in> set m. free_vars e)"
| "free_vars _ = {}"

text \<open>The result of evaluating something with these variables.\<close>

definition unbound_only :: "bindings \<Rightarrow> string set \<Rightarrow> 'a xres \<Rightarrow> bool" where
  "unbound_only bs xs r \<longleftrightarrow>
     (case r of
        Inr _ \<Rightarrow> xs \<subseteq> fst ` set bs
      | Inl err \<Rightarrow> \<exists>x. x \<in> xs \<and> x \<notin> fst ` set bs \<and> err = X_Err (XE_Msg (''unbound variable '' @ quoted x)))"

lemma unbound_only_Inr [simp]: "unbound_only bs xs (Inr v) \<longleftrightarrow> xs \<subseteq> fst ` set bs"
  by (simp add: unbound_only_def)

lemma unbound_only_try:
  assumes "unbound_only bs xs r" "\<And>v. r = Inr v \<Longrightarrow> unbound_only bs ys (f v)"
  shows "unbound_only bs (xs \<union> ys) (try_res r f)"
  using assms by (cases r) (auto simp: unbound_only_def split: sum.splits)

lemma unbound_only_pure: "unbound_only bs xs r \<Longrightarrow> unbound_only bs xs (try_res r (\<lambda>v. Inr (g v)))"
  by (cases r) (simp_all add: unbound_only_def)

lemma unbound_only_lookup: "unbound_only bs {x} (lookup_var bs x)"
  by (auto simp: lookup_var_def unbound_only_def x_err_def map_of_eq_None_iff split: option.split
      dest: map_of_SomeD intro: rev_image_eqI)

lemma eval_unbound:
  "unbound_only bs (free_vars e) (eval_expr bs e)"
  "unbound_only bs (\<Union>(k, e) \<in> set m. free_vars e) (eval_entries bs m out)"
proof (induction bs e and bs m out rule: eval_expr_eval_entries.induct)
  case (8 bs obj property)
  then show ?case
    by (cases obj) (auto intro: unbound_only_pure unbound_only_lookup)
next
  case (9 bs a op b)
  then show ?case
    by (auto intro!: unbound_only_try unbound_only_pure)
next
  case (11 bs k e m out)
  then show ?case
    by (auto intro!: unbound_only_try)
qed (simp_all add: unbound_only_pure unbound_only_lookup)

text \<open>C26: evaluating an expression gives a value exactly when all its variables are bound; otherwise the
  error names one that is not. No operator and no value makes evaluation fail.\<close>

theorem eval_expr_defined:
  "((\<exists>v. eval_expr bs e = Inr v) \<longleftrightarrow> free_vars e \<subseteq> fst ` set bs)
     \<and> ((\<exists>x. x \<in> free_vars e \<and> x \<notin> fst ` set bs \<and>
          eval_expr bs e = Inl (X_Err (XE_Msg (''unbound variable '' @ quoted x))))
        \<longleftrightarrow> \<not> free_vars e \<subseteq> fst ` set bs)"
  using eval_unbound(1) [of bs e] by (cases "eval_expr bs e") (auto simp: unbound_only_def)

definition texts_equal :: "string \<Rightarrow> string \<Rightarrow> bool" where
  "texts_equal x y \<longleftrightarrow> x = y \<or> (let n = min (length x) (length y) in
     6 \<le> n \<and> take n (map to_ascii_lower x) = take n (map to_ascii_lower y))"

lemma values_eq_texts: "values_eq (V_String x) (V_String y) \<longleftrightarrow> texts_equal x y"
proof -
  have "length x = length y" if "map to_ascii_lower x = map to_ascii_lower y"
    using that by (rule map_eq_imp_length_eq)
  then show ?thesis
    by (cases "length x \<le> length y"; cases "map to_ascii_lower x = map to_ascii_lower y")
      (auto simp: texts_equal_def hash_prefix_def Let_def min_def not_le)
qed

lemma texts_equal_extend:
  assumes "6 \<le> length x" "to_ascii_lower a \<noteq> to_ascii_lower b"
  shows "texts_equal (x @ [a]) x" "texts_equal x (x @ [b])" "\<not> texts_equal (x @ [a]) (x @ [b])"
  using assms by (auto simp: texts_equal_def Let_def)

text \<open>C27: texts are compared as hashes may be abbreviated, whatever they are. Two texts are equal for a query
  exactly if they are the same, or if both have at least six bytes and agree, up to the case of
  letters, as far as the shorter one goes; and \<open>!=\<close> is the negation. So equality is not transitive:
  a text of six bytes or more equals each of two extensions of it that are not equal.\<close>

theorem text_equality:
  "(\<forall>x y. eval_expr bs (E_Binary (E_String x) Op_Eq (E_String y)) = Inr (V_Bool (texts_equal x y))
      \<and> eval_expr bs (E_Binary (E_String x) Op_Neq (E_String y)) = Inr (V_Bool (\<not> texts_equal x y)))
   \<and> (\<forall>x a b. 6 \<le> length x \<longrightarrow> to_ascii_lower a \<noteq> to_ascii_lower b \<longrightarrow>
      texts_equal (x @ [a]) x \<and> texts_equal x (x @ [b]) \<and> \<not> texts_equal (x @ [a]) (x @ [b]))"
  using texts_equal_extend by (simp del: values_eq.simps add: values_eq_texts)

theorem text_equality_witness:
  "eval_expr [] (E_Binary (E_String ''agent_12'') Op_Eq (E_String ''agent_1'')) = Inr (V_Bool True)
   \<and> eval_expr [] (E_Binary (E_String ''agent_1'') Op_Eq (E_String ''agent_13'')) = Inr (V_Bool True)
   \<and> eval_expr [] (E_Binary (E_String ''agent_12'') Op_Eq (E_String ''agent_13'')) = Inr (V_Bool False)"
proof -
  have "6 \<le> length ''agent_1''" "to_ascii_lower (CHR ''2'') \<noteq> to_ascii_lower (CHR ''3'')"
    by code_simp+
  from text_equality [of "[]", THEN conjunct2, rule_format, OF this]
  show ?thesis
    by (simp del: values_eq.simps eval_expr.simps add: text_equality [of "[]", THEN conjunct1, rule_format, THEN conjunct1])
qed

section \<open>Payloads put their leaves\<close>

fun leaves :: "string \<Rightarrow> Value \<Rightarrow> (string \<times> Value) list"
  and leaves_of :: "string \<Rightarrow> doc \<Rightarrow> (string \<times> Value) list" where
  "leaves pre (V_Map m) = leaves_of pre m"
| "leaves pre v = [(pre, v)]"
| "leaves_of pre [] = []"
| "leaves_of pre ((k, v) # m) = leaves (child_path pre k) v @ leaves_of pre m"

definition leaf_op :: "string \<times> Value \<Rightarrow> HamtOp" where
  "leaf_op = (\<lambda>(p, v). Put (as_bytes_str p) (projr (to_storage_bytes v)))"

lemma push_payload_leaves:
  "push_payload_ops ops pre v = Inr (ops @ map leaf_op (leaves pre v))"
  "push_payload_entries ops pre m = Inr (ops @ map leaf_op (leaves_of pre m))"
  by (induction ops pre v and ops pre m rule: push_payload_ops_push_payload_entries.induct)
    (simp_all add: leaf_op_def)

text \<open>Keys as the parser gives them: not empty and without dots.\<close>

fun plain_keys :: "Value \<Rightarrow> bool" where
  "plain_keys (V_Map m) \<longleftrightarrow> sorted_map m \<and> (\<forall>(k, v) \<in> set m. k \<noteq> [] \<and> CHR ''.'' \<notin> set k \<and> plain_keys v)"
| "plain_keys _ \<longleftrightarrow> True"

lemma storage_leaf: "(\<exists>b. to_storage_bytes v = Inr b) \<longleftrightarrow> (\<forall>m. v \<noteq> V_Map m)"
  by (cases v) simp_all

lemma set_leaves_of: "set (leaves_of pre m) = (\<Union>(k, v) \<in> set m. set (leaves (child_path pre k) v))"
  by (induction m) auto

lemma walk_scalar: "\<forall>m. v \<noteq> V_Map m \<Longrightarrow> walk_path v path = Some x \<longleftrightarrow> path = [] \<and> x = v"
  by (cases path; cases v) auto

lemma leaves_paths:
  "plain_keys v \<Longrightarrow> (p, x) \<in> set (leaves pre v) \<longleftrightarrow>
     (\<exists>path. walk_path v path = Some x \<and> (\<forall>m. x \<noteq> V_Map m) \<and> p = foldl child_path pre path)"
proof (induction v arbitrary: pre rule: plain_keys.induct)
  case (1 m)
  have kv: "(k, v) \<in> set m \<longleftrightarrow> map_of m k = Some v" for k v
    using 1(2) by (simp add: sorted_map_distinct)
  have "(p, x) \<in> set (leaves pre (V_Map m)) \<longleftrightarrow>
      (\<exists>k v. map_of m k = Some v \<and> (p, x) \<in> set (leaves (child_path pre k) v))"
    using kv by (auto simp: set_leaves_of)
  also have "\<dots> \<longleftrightarrow> (\<exists>k v path. map_of m k = Some v \<and> walk_path v path = Some x \<and> (\<forall>m. x \<noteq> V_Map m)
      \<and> p = foldl child_path (child_path pre k) path)"
    using 1 kv by fastforce
  also have "\<dots> \<longleftrightarrow> (\<exists>path. walk_path (V_Map m) path = Some x \<and> (\<forall>m. x \<noteq> V_Map m) \<and> p = foldl child_path pre path)"
    (is "?l = ?r")
  proof
    assume ?l
    then obtain k v path where "map_of m k = Some v" "walk_path v path = Some x" "\<forall>m. x \<noteq> V_Map m"
      "p = foldl child_path (child_path pre k) path"
      by blast
    then show ?r
      by (intro exI [of _ "k # path"]) simp
  next
    assume ?r
    then obtain path where path: "walk_path (V_Map m) path = Some x" "\<forall>m. x \<noteq> V_Map m" "p = foldl child_path pre path"
      by blast
    then show ?l
      by (cases path) (auto split: option.splits)
  qed
  finally show ?case .
qed (auto simp: walk_scalar)

lemma child_paths_join: "key \<noteq> [] \<Longrightarrow> foldl child_path key path = join_with ''.'' (key # path)"
proof (induction path arbitrary: key)
  case (Cons k ks)
  then show ?case
    using Cons.IH [of "key @ ''.'' @ k"] by (simp add: child_path_def join_with_def)
qed (simp add: join_with_def)

lemma split_join: "\<forall>p \<in> set (q # ps). c \<notin> set p \<Longrightarrow> split_at c (join_with [c] (q # ps)) = q # ps"
proof (induction ps arbitrary: q)
  case (Cons p ps)
  have "join_with [c] (q # p # ps) = q @ c # join_with [c] (p # ps)"
    by (simp add: join_with_def)
  then show ?case
    using Cons by (simp add: split_at_Cons_sep)
qed (simp add: join_with_def split_at_plain)

lemma walk_plain: "plain_keys v \<Longrightarrow> walk_path v path = Some x \<Longrightarrow> k \<in> set path \<Longrightarrow> CHR ''.'' \<notin> set k"
proof (induction v path rule: walk_path.induct)
  case (2 v part parts)
  then show ?case
    by (cases v) (fastforce split: option.splits dest: map_of_SomeD)+
qed simp

text \<open>C25: committing a payload never fails on a value, and stores under the dotted form of a path exactly
  what the value has at that path, for every path that ends in a scalar.\<close>

theorem payload_ops_paths:
  assumes "plain_keys v" "key \<noteq> []" "CHR ''.'' \<notin> set key" "\<forall>k \<in> set path. CHR ''.'' \<notin> set k"
  shows "\<exists>ops. push_payload_ops [] key v = Inr ops
    \<and> (Put (as_bytes_str (join_with ''.'' (key # path))) b \<in> set ops
       \<longleftrightarrow> (\<exists>x. walk_path v path = Some x \<and> to_storage_bytes x = Inr b))"
proof -
  let ?join = "\<lambda>path. join_with ''.'' (key # path)"
  have mem: "Put (as_bytes_str p) b \<in> set (map leaf_op (leaves key v)) \<longleftrightarrow>
      (\<exists>x. (p, x) \<in> set (leaves key v) \<and> projr (to_storage_bytes x) = b)" for p
    by (force simp: leaf_op_def)
  have inj: "?join path' = ?join path \<longleftrightarrow> path' = path" if "walk_path v path' = Some x" for path' x
    using split_join [of key path "CHR ''.''"] split_join [of key path' "CHR ''.''"] walk_plain [OF assms(1) that] assms(3,4)
    by auto
  have "(\<exists>x. (?join path, x) \<in> set (leaves key v) \<and> projr (to_storage_bytes x) = b) \<longleftrightarrow>
      (\<exists>x. walk_path v path = Some x \<and> (\<forall>m. x \<noteq> V_Map m) \<and> projr (to_storage_bytes x) = b)"
    unfolding leaves_paths [OF assms(1)] child_paths_join [OF assms(2)] using inj by metis
  also have "\<dots> \<longleftrightarrow> (\<exists>x. walk_path v path = Some x \<and> to_storage_bytes x = Inr b)"
    by (metis storage_leaf sum.sel(2))
  finally show ?thesis
    using mem push_payload_leaves(1) [of "[]" key v] by simp
qed

definition ex_payload :: Value where
  "ex_payload = V_Map [(''prefs'', V_Map [(''theme'', V_String ''dark'')])]"

theorem payload_ops_paths_witness:
  "\<exists>ops. push_payload_ops [] ''meta'' ex_payload = Inr ops
     \<and> Put (as_bytes_str ''meta.prefs.theme'') (as_bytes_str ''dark'') \<in> set ops"
  using payload_ops_paths [of ex_payload "''meta''" "[''prefs'', ''theme'']" "as_bytes_str ''dark''"]
  by (auto simp: ex_payload_def sorted_map_def join_with_def)

end
