(* ===== verification/Ql_Tokens.thy ===== *)
theory Ql_Tokens
  imports Ql_Lexer "HOL-Library.Sublist"
begin

text \<open>
  What the tokenizer computes. \<open>token_text\<close> is the lexical grammar as a relation between the
  characters of a token and its kind, \<open>layout\<close> describes what may stand between tokens, and
  \<open>offending\<close> what cannot start a token. The theorems state that the tokens of a source tile it, that
  every token is spelled as the grammar says, and that a source is rejected where, read from the left
  with the longest token each time, what follows is offending.
\<close>

section \<open>The lexical grammar\<close>

inductive string_body :: "rchar list \<Rightarrow> string \<Rightarrow> bool" where
  "string_body [] []"
| "c \<noteq> [CHR 0x22] \<Longrightarrow> c \<noteq> [CHR 0x5C] \<Longrightarrow> string_body cs v \<Longrightarrow> string_body (c # cs) (c @ v)"
| "string_body cs v \<Longrightarrow> string_body ([CHR 0x5C] # e # cs) (unescape e @ v)"

inductive token_text :: "rchar list \<Rightarrow> TokenKind \<Rightarrow> bool" where
  "map_of single_char_tokens c = Some k \<Longrightarrow> token_text [c] k"
| "token_text [''!'', ''=''] T_Neq"
| "token_text [''.''] T_Dot"
| "token_text [''.'', ''.''] T_DotDot"
| "token_text [''-''] T_Minus"
| "token_text [''-'', ''>''] T_ArrowRight"
| "token_text [''<'', ''-''] T_ArrowLeft"
| "string_body cs v \<Longrightarrow> token_text ([CHR 0x22] # cs @ [[CHR 0x22]]) (T_String v)"
| "ds \<noteq> [] \<Longrightarrow> list_all is_ascii_digit ds \<Longrightarrow> parse_i64 (concat ds) = Some n \<Longrightarrow> token_text ds (T_Int n)"
| "ds \<noteq> [] \<Longrightarrow> es \<noteq> [] \<Longrightarrow> list_all is_ascii_digit ds \<Longrightarrow> list_all is_ascii_digit es \<Longrightarrow>
     parse_f64 (concat (ds @ ''.'' # es)) = Some x \<Longrightarrow> token_text (ds @ ''.'' # es) (T_Float x)"
| "is_ascii_alphabetic c \<or> c = ''_'' \<Longrightarrow> list_all ident_char cs \<Longrightarrow>
     token_text (c # cs) (keyword_or_ident (concat (c # cs)))"

text \<open>White space and comments; a comment ends with its line, or with the source if \<open>at_end\<close>.\<close>

inductive layout :: "bool \<Rightarrow> rchar list \<Rightarrow> bool" for at_end where
  "layout at_end []"
| "is_whitespace c \<Longrightarrow> layout at_end cs \<Longrightarrow> layout at_end (c # cs)"
| "[CHR 0x0A] \<notin> set line \<Longrightarrow> layout at_end cs \<Longrightarrow> layout at_end (''-'' # ''-'' # line @ [CHR 0x0A] # cs)"
| "at_end \<Longrightarrow> [CHR 0x0A] \<notin> set line \<Longrightarrow> layout at_end (''-'' # ''-'' # line)"

text \<open>Nothing that follows belongs to the token.\<close>

definition heads :: "(rchar \<Rightarrow> bool) \<Rightarrow> rchar list \<Rightarrow> bool" where
  "heads q cs \<longleftrightarrow> cs \<noteq> [] \<and> q (hd cs)"

definition stops :: "rchar list \<Rightarrow> rchar list \<Rightarrow> bool" where
  "stops tx rest \<longleftrightarrow>
     (is_ascii_alphabetic (hd tx) \<or> hd tx = ''_'' \<longrightarrow> \<not> heads ident_char rest)
     \<and> (is_ascii_digit (hd tx) \<longrightarrow> \<not> heads is_ascii_digit rest
          \<and> (list_all is_ascii_digit tx \<longrightarrow> \<not> (heads ((=) ''.'') rest \<and> heads is_ascii_digit (tl rest))))
     \<and> (tx = [''.''] \<longrightarrow> \<not> heads ((=) ''.'') rest)
     \<and> (tx = [''-''] \<longrightarrow> \<not> heads ((=) ''>'') rest)"

text \<open>What cannot start a token, and the message for it.\<close>

definition offending_body :: "rchar list \<Rightarrow> err_message \<Rightarrow> bool" where
  "offending_body cs m \<longleftrightarrow>
     (\<exists>v. string_body cs v) \<and> m = Msg ''unterminated string literal''
     \<or> (\<exists>body v. cs = body @ [[CHR 0x5C]] \<and> string_body body v) \<and> m = Msg ''unterminated escape in string''"

inductive offending :: "rchar list \<Rightarrow> err_message \<Rightarrow> bool" where
  offending_bang: "\<not> heads ((=) ''='') cs \<Longrightarrow>
     offending (''!'' # cs) (Msg (''expected '' @ quoted ''='' @ '' after '' @ quoted ''!''))"
| offending_less: "\<not> heads ((=) ''-'') cs \<Longrightarrow>
     offending (''<'' # cs) (Msg (''expected '' @ quoted ''-'' @ '' after '' @ quoted ''<''))"
| offending_string: "offending_body cs m \<Longrightarrow> offending ([CHR 0x22] # cs) m"
| offending_int: "ds \<noteq> [] \<Longrightarrow> list_all is_ascii_digit ds \<Longrightarrow> stops ds cs \<Longrightarrow> parse_i64 (concat ds) = None \<Longrightarrow>
     offending (ds @ cs) (Invalid_integer (concat ds))"
| offending_float: "ds \<noteq> [] \<Longrightarrow> es \<noteq> [] \<Longrightarrow> list_all is_ascii_digit ds \<Longrightarrow> list_all is_ascii_digit es \<Longrightarrow>
     \<not> heads is_ascii_digit cs \<Longrightarrow> parse_f64 (concat (ds @ ''.'' # es)) = None \<Longrightarrow>
     offending (ds @ ''.'' # es @ cs) (Invalid_float (concat (ds @ ''.'' # es)))"
| offending_char: "map_of single_char_tokens c = None \<Longrightarrow> c \<notin> {''!'', ''.'', ''-'', ''<'', [CHR 0x22], ''_''} \<Longrightarrow>
     \<not> is_ascii_digit c \<Longrightarrow> \<not> is_ascii_alphabetic c \<Longrightarrow> \<not> is_whitespace c \<Longrightarrow>
     offending (c # cs) (Unexpected_character c)"

definition no_layout :: "rchar list \<Rightarrow> bool" where
  "no_layout cs \<longleftrightarrow> (\<forall>c ds. cs = c # ds \<longrightarrow> \<not> is_whitespace c) \<and> (\<forall>ds. cs \<noteq> ''-'' # ''-'' # ds)"

text \<open>
  \<open>lexed pre rest\<close>: read from the left, taking as layout and as token all that can be taken, \<open>pre\<close> is a
  sequence of tokens and layout when \<open>rest\<close> follows.
\<close>

inductive lexed :: "rchar list \<Rightarrow> rchar list \<Rightarrow> bool" where
  lexed_layout: "layout False gap \<Longrightarrow> no_layout rest \<Longrightarrow> lexed gap rest"
| lexed_token: "layout False gap \<Longrightarrow> no_layout (tx @ pre @ rest) \<Longrightarrow> token_text tx k \<Longrightarrow> stops tx (pre @ rest) \<Longrightarrow>
     lexed pre rest \<Longrightarrow> lexed (gap @ tx @ pre) rest"

lemma heads_simps [simp]: "\<not> heads q []" "heads q (c # cs) = q c"
  by (simp_all add: heads_def)

lemma heads_dropWhile: "\<not> heads q (dropWhile q cs)"
  using hd_dropWhile [of q cs] by (auto simp: heads_def simp del: dropWhile_eq_Nil_conv)

lemma token_text_neq_Nil: "token_text cs k \<Longrightarrow> cs \<noteq> []"
  by (induction rule: token_text.induct) auto


section \<open>The lexer at a suffix of the source\<close>

text \<open>
  A lexer state is determined by the characters still to be read. \<open>at_suffix s cs\<close> is the lexer
  over \<open>s\<close> with \<open>cs\<close> left.
\<close>

definition byte_pos :: "string \<Rightarrow> rchar list \<Rightarrow> nat" where
  "byte_pos s cs = length s - length (concat cs)"

definition at_suffix :: "string \<Rightarrow> rchar list \<Rightarrow> Lexer" where
  "at_suffix s cs =
     \<lparr>lx_source = s, lx_chars = char_indices s, lx_pos = length (char_list s) - length cs\<rparr>"

lemma lexer_new_at: "lexer_new s = at_suffix s (char_list s)"
  by (simp add: lexer_new_def at_suffix_def)

lemma source_at [simp]: "lx_source (at_suffix s cs) = s"
  by (simp add: at_suffix_def)

lemma byte_pos_prefix:
  assumes "char_list s = pre @ cs"
  shows "byte_pos s cs = length (concat pre)"
proof -
  have "length s = length (concat pre) + length (concat cs)"
    using arg_cong [OF assms, of "\<lambda>x. length (concat x)"] by simp
  then show ?thesis by (simp add: byte_pos_def)
qed

lemma byte_pos_Nil [simp]: "byte_pos s [] = length s"
  by (simp add: byte_pos_def)

lemma char_indices_split:
  assumes "char_list s = pre @ cs"
  shows "char_indices s = index_from 0 pre @ index_from (byte_pos s cs) cs"
  unfolding char_indices_def assms by (simp add: byte_pos_prefix [OF assms])

lemma peek_ahead_at:
  assumes "suffix cs (char_list s)"
  shows "map_option snd (peek_ahead n (at_suffix s cs)) = (if n < length cs then Some (cs ! n) else None)"
proof -
  from assms obtain pre where pre: "char_list s = pre @ cs"
    by (auto simp: suffix_def)
  then show ?thesis
    by (auto simp: peek_ahead_def at_suffix_def char_indices_split [OF pre] nth_append index_from_nth)
qed

lemma peek_at:
  assumes "suffix cs (char_list s)"
  shows "peek (at_suffix s cs) = (case cs of [] \<Rightarrow> None | c # _ \<Rightarrow> Some (byte_pos s cs, c))"
proof -
  from assms obtain pre where pre: "char_list s = pre @ cs"
    by (auto simp: suffix_def)
  then show ?thesis
    by (cases cs) (auto simp: peek_def at_suffix_def char_indices_split [OF pre] nth_append)
qed

lemma bump_at [simp]: "suffix (c # cs) (char_list s) \<Longrightarrow> bump (at_suffix s (c # cs)) = at_suffix s cs"
  by (frule peek_at) (auto simp: bump_def at_suffix_def suffix_def)

lemma bump_at_Nil [simp]: "bump (at_suffix s []) = at_suffix s []"
  using peek_at [of "[]" s] by (simp add: bump_def)

lemma offset_at: "suffix cs (char_list s) \<Longrightarrow> current_byte_offset (at_suffix s cs) = byte_pos s cs"
  by (simp add: current_byte_offset_def peek_at split: list.split)

lemma suffix_ConsD1: "suffix (c # cs) xs \<Longrightarrow> suffix cs xs"
  by (rule suffix_ConsD)

lemma bump_while_at:
  "suffix cs (char_list s) \<Longrightarrow> bump_while q (at_suffix s cs) = at_suffix s (dropWhile q cs)"
proof (induction cs)
  case Nil
  then show ?case by (subst bump_while.simps) (simp add: peek_at)
next
  case (Cons c cs)
  then show ?case
    by (subst bump_while.simps) (simp add: peek_at suffix_ConsD1)
qed

lemma slice_at:
  assumes "suffix (cs @ ds) (char_list s)"
  shows "slice s (byte_pos s (cs @ ds)) (byte_pos s ds) = concat cs"
proof -
  from assms obtain pre where pre: "char_list s = pre @ cs @ ds"
    by (auto simp: suffix_def)
  have "s = concat pre @ concat cs @ concat ds"
    using concat_char_list [of s] pre by simp
  moreover have "byte_pos s ds = length (concat pre) + length (concat cs)"
    using byte_pos_prefix [of s "pre @ cs" ds] pre by simp
  ultimately show ?thesis
    using byte_pos_prefix [OF pre] by (simp add: slice_def)
qed

lemma boundary_at: "suffix cs (char_list s) \<Longrightarrow> boundary s (byte_pos s cs)"
proof (cases cs)
  case (Cons c ds)
  assume "suffix cs (char_list s)"
  then obtain pre where pre: "char_list s = pre @ cs"
    by (auto simp: suffix_def)
  show ?thesis
    unfolding boundary_def char_indices_split [OF pre] by (simp add: Cons)
qed (simp add: boundary_def)

section \<open>Layout\<close>

lemma layout_spaces: "list_all is_whitespace w \<Longrightarrow> layout b cs \<Longrightarrow> layout b (w @ cs)"
  by (induction w) (auto intro: layout.intros)

lemma bump_line_at:
  "suffix cs (char_list s) \<Longrightarrow>
     bump_line (at_suffix s cs) = at_suffix s (drop 1 (dropWhile (\<lambda>c. c \<noteq> [CHR 0x0A]) cs))"
proof (induction cs)
  case Nil
  then show ?case by (subst bump_line.simps) (simp add: peek_at)
next
  case (Cons c cs)
  then show ?case
    by (subst bump_line.simps) (auto simp: peek_at suffix_ConsD1)
qed

lemma at_comment_at:
  assumes "suffix cs (char_list s)"
  shows "at_comment (at_suffix s cs) \<longleftrightarrow> (\<exists>ds. cs = ''-'' # ''-'' # ds)"
proof (cases cs)
  case Nil
  then show ?thesis using assms by (simp add: at_comment_def peek_at)
next
  case (Cons c ds)
  have "map_option snd (peek_ahead 1 (at_suffix s cs)) = (if 1 < length cs then Some (cs ! 1) else None)"
    by (rule peek_ahead_at [OF assms])
  then show ?thesis
    using assms Cons by (cases ds) (auto simp: at_comment_def peek_at)
qed

lemma no_layout_dropWhile: "\<forall>ds. dropWhile is_whitespace cs \<noteq> ''-'' # ''-'' # ds \<Longrightarrow>
    no_layout (dropWhile is_whitespace cs)"
  by (auto simp: no_layout_def dest: hd_dropWhile [of is_whitespace cs, OF _] simp: dropWhile_eq_Cons_conv)

lemma skip_at:
  assumes "suffix cs (char_list s)"
  shows "\<exists>gap ds. cs = gap @ ds \<and> layout (ds = []) gap \<and> no_layout ds \<and>
    skip_whitespace_and_comments (at_suffix s cs) = at_suffix s ds"
  using assms
proof (induction cs rule: length_induct)
  case (1 cs)
  let ?w = "takeWhile is_whitespace cs" and ?r = "dropWhile is_whitespace cs"
  have w: "list_all is_whitespace ?w"
    by (auto simp: list_all_iff dest: set_takeWhileD)
  have sr: "suffix ?r (char_list s)"
    using suffix_order.trans [OF suffix_dropWhile 1(2)] .
  have step: "skip_whitespace_and_comments (at_suffix s cs) =
    (if at_comment (at_suffix s ?r)
     then skip_whitespace_and_comments (bump_line (bump (bump (at_suffix s ?r)))) else at_suffix s ?r)"
    by (subst skip_whitespace_and_comments.simps) (simp add: bump_while_at [OF 1(2)] Let_def)
  show ?case
  proof (cases "\<exists>ds. ?r = ''-'' # ''-'' # ds")
    case False
    then have "skip_whitespace_and_comments (at_suffix s cs) = at_suffix s ?r"
      using step at_comment_at [OF sr] by simp
    with False w layout_spaces [OF w layout.intros(1)] no_layout_dropWhile [of cs] show ?thesis
      by (intro exI [of _ ?w] exI [of _ ?r]) simp
  next
    case True
    then obtain ds where ds: "?r = ''-'' # ''-'' # ds" by blast
    let ?line = "takeWhile (\<lambda>c. c \<noteq> [CHR 0x0A]) ds" and ?t = "dropWhile (\<lambda>c. c \<noteq> [CHR 0x0A]) ds"
    have sd: "suffix ds (char_list s)" "suffix (''-'' # ds) (char_list s)"
      using sr ds by (auto dest: suffix_ConsD1)
    have skip: "skip_whitespace_and_comments (at_suffix s cs) =
        skip_whitespace_and_comments (at_suffix s (drop 1 ?t))"
      using step at_comment_at [OF sr] sr sd by (simp add: ds bump_line_at)
    have nl: "[CHR 0x0A] \<notin> set ?line"
      by (auto dest: set_takeWhileD)
    have "length (?w @ ?r) = length cs"
      by (simp del: length_append)
    then have "length ds < length cs"
      using ds by simp
    then have "length (drop 1 ?t) < length cs"
      using length_dropWhile_le [of "\<lambda>c. c \<noteq> [CHR 0x0A]" ds] by simp
    moreover have "suffix (drop 1 ?t) (char_list s)"
      using suffix_order.trans [OF suffix_drop suffix_order.trans [OF suffix_dropWhile sd(1)]] .
    ultimately obtain gap es where ih: "drop 1 ?t = gap @ es" "layout (es = []) gap" "no_layout es"
        "skip_whitespace_and_comments (at_suffix s (drop 1 ?t)) = at_suffix s es"
      using 1(1) by blast
    have cs: "cs = ?w @ ''-'' # ''-'' # ?line @ ?t"
      using ds by (metis takeWhile_dropWhile_id)
    show ?thesis
    proof (cases ?t)
      case Nil
      then have "gap = []" "es = []" using ih(1) unfolding Nil by simp_all
      moreover have "layout True cs"
        using layout_spaces [OF w layout.intros(4) [OF TrueI nl]] cs Nil by simp
      ultimately show ?thesis
        using ih skip by (metis append_Nil2)
    next
      case (Cons c t)
      then have c: "c = [CHR 0x0A]"
        using hd_dropWhile [of "\<lambda>c. c \<noteq> [CHR 0x0A]" ds] by simp
      have "layout (es = []) (?w @ ''-'' # ''-'' # ?line @ [CHR 0x0A] # gap)"
        by (rule layout_spaces [OF w layout.intros(3) [OF nl ih(2)]])
      moreover have "cs = (?w @ ''-'' # ''-'' # ?line @ [CHR 0x0A] # gap) @ es"
        using cs Cons c ih(1) by simp
      ultimately show ?thesis
        using ih skip by metis
    qed
  qed
qed

section \<open>Single tokens\<close>

definition located_error :: "string \<Rightarrow> rchar list \<Rightarrow> ParseError \<Rightarrow> bool" where
  "located_error s cs e \<longleftrightarrow> (\<exists>m. offending cs m \<and> e = with_location (parse_error_at (byte_pos s cs) m) s)"

definition lexes :: "string \<Rightarrow> rchar list \<Rightarrow> (ParseError + Token) \<times> Lexer \<Rightarrow> bool" where
  "lexes s cs res \<longleftrightarrow>
     (case res of
        (Inl e, l) \<Rightarrow> located_error s cs e
      | (Inr t, l) \<Rightarrow>
          \<exists>tx ds. cs = tx @ ds \<and> token_text tx (tok_kind t) \<and> stops tx ds \<and> l = at_suffix s ds
            \<and> tok_offset t = byte_pos s cs \<and> tok_end t = byte_pos s ds)"

lemma lexes_error: "offending cs m \<Longrightarrow> lexes s cs (Inl (lex_error (at_suffix s ds) (byte_pos s cs) m), l)"
  by (auto simp: lexes_def located_error_def lex_error_def)

lemma lexes_token:
  assumes "suffix (tx @ ds) (char_list s)" "token_text tx k" "stops tx ds"
  shows "lexes s (tx @ ds) (finish_token (byte_pos s (tx @ ds)) k (at_suffix s ds))"
proof -
  have "suffix ds (char_list s)"
    using assms(1) by (rule suffix_appendD)
  with assms(2,3) show ?thesis
    by (auto simp: lexes_def finish_token_def offset_at)
qed

lemma lexes_if:
  "(b \<Longrightarrow> lexes s cs x) \<Longrightarrow> (\<not> b \<Longrightarrow> lexes s cs y) \<Longrightarrow> lexes s cs (if b then x else y)"
  by simp

text \<open>The body of a string: up to the closing quote, or the end of the source.\<close>

definition string_lexed :: "string \<Rightarrow> nat \<Rightarrow> string \<Rightarrow> rchar list \<Rightarrow> (ParseError + string) \<times> Lexer \<Rightarrow> bool" where
  "string_lexed s i val cs res \<longleftrightarrow>
     (\<exists>body v ds. cs = body @ [CHR 0x22] # ds \<and> string_body body v \<and> res = (Inr (val @ v), at_suffix s ds))
     \<or> (\<exists>m l es. offending_body cs m \<and> res = (Inl (lex_error (at_suffix s es) i m), l))"

lemma string_lexed_char:
  assumes "c \<noteq> [CHR 0x22]" "c \<noteq> [CHR 0x5C]" "string_lexed s i (val @ c) ds res"
  shows "string_lexed s i val (c # ds) res"
proof -
  have "offending_body (c # ds) m" if "offending_body ds m" for m
    using that string_body.intros(2) [OF assms(1,2)] unfolding offending_body_def by (metis append_Cons)
  moreover have "c # body @ ts = (c # body) @ ts" for body ts
    by simp
  ultimately show ?thesis
    using assms(3) string_body.intros(2) [OF assms(1,2)] unfolding string_lexed_def by (metis append_assoc)
qed

lemma string_lexed_escape:
  assumes "string_lexed s i (val @ unescape x) es res"
  shows "string_lexed s i val ([CHR 0x5C] # x # es) res"
proof -
  have "offending_body ([CHR 0x5C] # x # es) m" if "offending_body es m" for m
    using that string_body.intros(3) [of _ _ x] unfolding offending_body_def by (metis append_Cons)
  moreover have "[CHR 0x5C] # x # body @ ts = ([CHR 0x5C] # x # body) @ ts" for body ts
    by simp
  ultimately show ?thesis
    using assms string_body.intros(3) [of _ _ x] unfolding string_lexed_def by (metis append_assoc)
qed

lemma lex_string_loop_at:
  assumes "suffix cs (char_list s)"
  shows "string_lexed s i val cs (lex_string_loop i val (at_suffix s cs))"
  using assms
proof (induction cs arbitrary: val rule: length_induct)
  case (1 cs)
  note step = lex_string_loop.simps [of i val "at_suffix s cs"]
  show ?case
  proof (cases cs)
    case Nil
    have "offending_body [] (Msg ''unterminated string literal'')"
      by (auto simp: offending_body_def intro: string_body.intros)
    with Nil 1(2) show ?thesis
      unfolding step by (auto simp: peek_at string_lexed_def)
  next
    case (Cons c ds)
    have sd: "suffix ds (char_list s)" and b: "bump (at_suffix s cs) = at_suffix s ds"
      using 1(2) Cons by (auto dest: suffix_ConsD1)
    consider (q) "c = [CHR 0x22]" | (e) "c = [CHR 0x5C]" | (o) "c \<noteq> [CHR 0x22]" "c \<noteq> [CHR 0x5C]" by blast
    then show ?thesis
    proof cases
      case q
      then have "lex_string_loop i val (at_suffix s cs) = (Inr (val @ []), at_suffix s ds)"
        using step 1(2) Cons b by (simp add: peek_at)
      with q Cons string_body.intros(1) show ?thesis
        unfolding string_lexed_def by (metis append_Nil)
    next
      case o
      then have "lex_string_loop i val (at_suffix s cs) = lex_string_loop i (val @ c) (at_suffix s ds)"
        using step 1(2) Cons b by (simp add: peek_at)
      with 1(1) [rule_format, of ds "val @ c"] sd Cons o show ?thesis
        by (simp add: string_lexed_char)
    next
      case e
      show ?thesis
      proof (cases ds)
        case Nil
        have "offending_body [[CHR 0x5C]] (Msg ''unterminated escape in string'')"
          by (auto simp: offending_body_def intro: string_body.intros exI [of _ "[]"])
        then show ?thesis
          using step 1(2) Cons b e sd Nil by (auto simp: peek_at string_lexed_def)
      next
        case (Cons x es)
        have eq: "lex_string_loop i val (at_suffix s cs) = lex_string_loop i (val @ unescape x) (at_suffix s es)"
          using step 1(2) \<open>cs = c # ds\<close> Cons b e sd by (simp add: peek_at)
        have "suffix es (char_list s)" "length es < length cs"
          using sd Cons \<open>cs = c # ds\<close> by (auto dest: suffix_ConsD1)
        with 1(1) [rule_format, of es "val @ unescape x"] eq show ?thesis
          using Cons \<open>cs = c # ds\<close> e by (simp add: string_lexed_escape)
      qed
    qed
  qed
qed

lemma stops_quote: "stops ([CHR 0x22] # tx) ds"
  by (simp add: stops_def is_ascii_alphabetic_def is_ascii_digit_def digit_byte_def alpha_byte_def one_byte_def)

lemma lex_string_lexes:
  assumes "suffix ([CHR 0x22] # cs) (char_list s)"
  shows "lexes s ([CHR 0x22] # cs) (lex_string (byte_pos s ([CHR 0x22] # cs)) (at_suffix s ([CHR 0x22] # cs)))"
proof -
  let ?i = "byte_pos s ([CHR 0x22] # cs)"
  have b: "bump (at_suffix s ([CHR 0x22] # cs)) = at_suffix s cs"
    using assms by simp
  from suffix_ConsD1 [OF assms] have "suffix cs (char_list s)" .
  from lex_string_loop_at [OF this, of ?i "[]"] show ?thesis
    unfolding string_lexed_def
  proof (elim disjE exE conjE)
    fix body v ds
    assume *: "cs = body @ [CHR 0x22] # ds" "string_body body v"
      "lex_string_loop ?i [] (at_suffix s cs) = (Inr ([] @ v), at_suffix s ds)"
    have eq: "[CHR 0x22] # cs = ([CHR 0x22] # body @ [[CHR 0x22]]) @ ds"
      using *(1) by simp
    have "lex_string ?i (at_suffix s ([CHR 0x22] # cs)) = finish_token ?i (T_String v) (at_suffix s ds)"
      using *(3) b by (simp add: lex_string_def try_st_def)
    with lexes_token [OF assms [unfolded eq] token_text.intros(8) [OF *(2)] stops_quote] show ?thesis
      by (simp add: eq)
  next
    fix m l es
    assume *: "offending_body cs m" "lex_string_loop ?i [] (at_suffix s cs) = (Inl (lex_error (at_suffix s es) ?i m), l)"
    then have "lex_string ?i (at_suffix s ([CHR 0x22] # cs)) = (Inl (lex_error (at_suffix s es) ?i m), l)"
      using b by (simp add: lex_string_def try_st_def)
    then show ?thesis
      using lexes_error [OF offending_string [OF *(1)]] by simp
  qed
qed

lemma is_float_at:
  assumes "suffix cs (char_list s)"
  shows "is_float (at_suffix s cs) \<longleftrightarrow> (\<exists>d ds. cs = ''.'' # d # ds \<and> is_ascii_digit d)"
proof (cases cs)
  case Nil
  then show ?thesis using assms by (simp add: is_float_def peek_at)
next
  case (Cons c ds)
  have "map_option snd (peek_ahead 1 (at_suffix s cs)) = (if 1 < length cs then Some (cs ! 1) else None)"
    by (rule peek_ahead_at [OF assms])
  then show ?thesis
    using assms Cons by (cases ds) (auto simp: is_float_def peek_at split: option.split)
qed

lemma span_digits:
  assumes "suffix cs (char_list s)"
  obtains ds r where "cs = ds @ r" "list_all p ds" "r = dropWhile p cs" "suffix r (char_list s)"
    "bump_while p (at_suffix s cs) = at_suffix s r" "ds = takeWhile p cs"
proof
  show "cs = takeWhile p cs @ dropWhile p cs" by simp
  show "list_all p (takeWhile p cs)"
    by (auto simp: list_all_iff dest: set_takeWhileD)
  show "suffix (dropWhile p cs) (char_list s)"
    using suffix_order.trans [OF suffix_dropWhile assms] .
qed (simp_all add: bump_while_at [OF assms])

lemma digit_not_alpha: "is_ascii_digit c \<Longrightarrow> \<not> is_ascii_alphabetic c \<and> c \<noteq> ''_''"
  by (auto simp: is_ascii_digit_def is_ascii_alphabetic_def digit_byte_def alpha_byte_def dest!: one_byte_cases)

lemma alpha_not_digit: "is_ascii_alphabetic c \<or> c = ''_'' \<Longrightarrow> \<not> is_ascii_digit c"
  using digit_not_alpha by blast

lemma dot_not_digit: "\<not> is_ascii_digit ''.''"
  by (simp add: is_ascii_digit_def one_byte_def digit_byte_def)

lemma lex_number_lexes:
  assumes "suffix (c # cs) (char_list s)" "is_ascii_digit c"
  shows "lexes s (c # cs) (lex_number (byte_pos s (c # cs)) (at_suffix s (c # cs)))"
proof -
  let ?i = "byte_pos s (c # cs)"
  obtain ds r where ds: "c # cs = ds @ r" "list_all is_ascii_digit ds" "suffix r (char_list s)"
      "bump_while is_ascii_digit (at_suffix s (c # cs)) = at_suffix s r" "ds = takeWhile is_ascii_digit (c # cs)"
    using span_digits [OF assms(1), where p = is_ascii_digit] by metis
  have ne: "ds \<noteq> []" and hd_c: "hd ds = c"
    using ds(5) assms(2) by simp_all
  show ?thesis
  proof (cases "is_float (at_suffix s r)")
    case True
    then obtain d r' where r: "r = ''.'' # d # r'" "is_ascii_digit d"
      using is_float_at [OF ds(3)] by blast
    then have sd: "suffix (d # r') (char_list s)"
      using ds(3) by (auto dest: suffix_ConsD1)
    obtain es t where es: "d # r' = es @ t" "list_all is_ascii_digit es" "suffix t (char_list s)"
        "bump_while is_ascii_digit (at_suffix s (d # r')) = at_suffix s t" "es = takeWhile is_ascii_digit (d # r')"
      using span_digits [OF sd, where p = is_ascii_digit] by metis
    have es_ne: "es \<noteq> []"
      using es(5) r(2) by simp
    have eq: "c # cs = (ds @ ''.'' # es) @ t"
      using ds(1) r(1) es(1) by simp
    have b: "bump (at_suffix s r) = at_suffix s (d # r')"
      using ds(3) r(1) by simp
    have sl: "slice s ?i (byte_pos s t) = concat (ds @ ''.'' # es)"
      using slice_at [OF assms(1) [unfolded eq]] by (simp only: eq)
    have lex: "lex_number ?i (at_suffix s (c # cs)) =
        (case parse_f64 (concat (ds @ ''.'' # es)) of
           Some v \<Rightarrow> finish_token ?i (T_Float v) (at_suffix s t)
         | None \<Rightarrow> (Inl (lex_error (at_suffix s t) ?i (Invalid_float (concat (ds @ ''.'' # es)))), at_suffix s t))"
      using True unfolding lex_number_def Let_def ds(4) b es(4) source_at offset_at [OF es(3)] sl
      by (simp only: if_True)
    have end_digits: "\<not> heads is_ascii_digit t"
      using heads_dropWhile [of is_ascii_digit "d # r'"] es(1,5) by (metis append_same_eq takeWhile_dropWhile_id same_append_eq)
    show ?thesis
    proof (cases "parse_f64 (concat (ds @ ''.'' # es))")
      case None
      have "offending (c # cs) (Invalid_float (concat (ds @ ''.'' # es)))"
        using offending_float [OF ne es_ne ds(2) es(2) end_digits None] by (simp add: eq)
      then show ?thesis
        using lex None by (simp add: lexes_error)
    next
      case (Some v)
      have "stops (ds @ ''.'' # es) t"
        using end_digits hd_c es_ne ne
        by (auto simp: stops_def digit_not_alpha [OF assms(2)] dot_not_digit append_eq_Cons_conv)
      from lexes_token [OF assms(1) [unfolded eq] token_text.intros(10) [OF ne es_ne ds(2) es(2) Some] this]
      show ?thesis using lex Some by (simp add: eq)
    qed
  next
    case False
    have sl: "slice s ?i (byte_pos s r) = concat ds"
      using slice_at [OF assms(1) [unfolded ds(1)]] by (simp only: ds(1))
    have lex: "lex_number ?i (at_suffix s (c # cs)) =
        (case parse_i64 (concat ds) of
           Some v \<Rightarrow> finish_token ?i (T_Int v) (at_suffix s r)
         | None \<Rightarrow> (Inl (lex_error (at_suffix s r) ?i (Invalid_integer (concat ds))), at_suffix s r))"
      using False unfolding lex_number_def Let_def ds(4) source_at offset_at [OF ds(3)] sl
      by (simp only: if_False)
    have "\<not> heads is_ascii_digit r"
      using heads_dropWhile [of is_ascii_digit "c # cs"] ds(1,5) by (metis same_append_eq takeWhile_dropWhile_id)
    moreover have "\<not> (heads ((=) ''.'') r \<and> heads is_ascii_digit (tl r))"
      using False is_float_at [OF ds(3)] by (cases r; cases "tl r") (auto simp: heads_def)
    moreover have "tx \<noteq> [''.''] \<and> tx \<noteq> [''-'']" if "hd tx = c" for tx
      using that assms(2) by (auto simp: is_ascii_digit_def one_byte_def digit_byte_def)
    ultimately have stop: "stops ds r"
      using hd_c by (simp add: stops_def digit_not_alpha [OF assms(2)])
    show ?thesis
    proof (cases "parse_i64 (concat ds)")
      case None
      have "offending (c # cs) (Invalid_integer (concat ds))"
        using offending_int [OF ne ds(2) stop None] by (simp add: ds(1))
      then show ?thesis
        using lex None by (simp add: lexes_error)
    next
      case (Some v)
      from lexes_token [OF assms(1) [unfolded ds(1)] token_text.intros(9) [OF ne ds(2) Some] stop]
      show ?thesis using lex Some by (simp add: ds(1))
    qed
  qed
qed

lemma lex_ident_lexes:
  assumes "suffix (c # cs) (char_list s)" "is_ascii_alphabetic c \<or> c = ''_''"
  shows "lexes s (c # cs) (lex_ident_or_keyword (byte_pos s (c # cs)) (at_suffix s (c # cs)))"
proof -
  obtain ds r where ds: "c # cs = ds @ r" "list_all ident_char ds" "suffix r (char_list s)"
      "bump_while ident_char (at_suffix s (c # cs)) = at_suffix s r" "ds = takeWhile ident_char (c # cs)"
    using span_digits [OF assms(1), where p = ident_char] by metis
  have "ident_char c"
    using assms(2) by (auto simp: ident_char_def is_ascii_alphanumeric_def)
  then obtain es where es: "ds = c # es"
    using ds(5) by auto
  have tok: "token_text ds (keyword_or_ident (concat ds))"
    using token_text.intros(11) [OF assms(2), of es] ds(2) es by simp
  have "\<not> heads ident_char r"
    using heads_dropWhile [of ident_char "c # cs"] ds(1,5) by (metis same_append_eq takeWhile_dropWhile_id)
  moreover have "c \<noteq> ''.''" "c \<noteq> ''-''"
    using assms(2) by (auto simp: is_ascii_alphabetic_def one_byte_def alpha_byte_def)
  ultimately have "stops ds r"
    by (auto simp: stops_def es alpha_not_digit [OF assms(2)])
  from lexes_token [OF assms(1) [unfolded ds(1)] tok this] show ?thesis
    using ds(4) slice_at [OF assms(1) [unfolded ds(1)]] offset_at [OF ds(3)]
    by (simp add: lex_ident_or_keyword_def Let_def ds(1))
qed

lemma sign_bytes:
  "\<not> is_ascii_alphabetic ''!''" "\<not> is_ascii_alphabetic ''.''" "\<not> is_ascii_alphabetic ''-''" "\<not> is_ascii_alphabetic ''<''"
  "\<not> is_ascii_digit ''!''" "\<not> is_ascii_digit ''.''" "\<not> is_ascii_digit ''-''" "\<not> is_ascii_digit ''<''"
  by (simp_all add: is_ascii_alphabetic_def is_ascii_digit_def one_byte_def alpha_byte_def digit_byte_def)

lemma stops_sign: "c \<in> {''!'', ''.'', ''-'', ''<''} \<Longrightarrow> tx \<noteq> [] \<Longrightarrow> stops (c # tx) ds"
  by (auto simp: stops_def sign_bytes)

lemma stops_single:
  assumes "map_of single_char_tokens c = Some k"
  shows "stops [c] ds"
  using map_of_SomeD [OF assms]
  by (auto simp: single_char_tokens_def stops_def is_ascii_alphabetic_def is_ascii_digit_def one_byte_def alpha_byte_def
      digit_byte_def)

lemma next_token_at:
  assumes "suffix cs (char_list s)"
  obtains gap ds where "cs = gap @ ds" "layout (ds = []) gap" "no_layout ds"
    "ds = [] \<Longrightarrow> next_token (at_suffix s cs) =
       (Inr \<lparr>tok_kind = T_Eof, tok_offset = length s, tok_end = length s\<rparr>, at_suffix s [])"
    "ds \<noteq> [] \<Longrightarrow> lexes s ds (next_token (at_suffix s cs))"
proof -
  obtain gap ds where g: "cs = gap @ ds" "layout (ds = []) gap"
      "skip_whitespace_and_comments (at_suffix s cs) = at_suffix s ds" "no_layout ds"
    using skip_at [OF assms] by blast
  have sd: "suffix ds (char_list s)"
    using assms g(1) by (auto dest: suffix_appendD)
  have eof: "next_token (at_suffix s cs) =
       (Inr \<lparr>tok_kind = T_Eof, tok_offset = length s, tok_end = length s\<rparr>, at_suffix s [])" if "ds = []"
    using that sd by (simp add: next_token_def g(3) peek_at Let_def)
  have "lexes s ds (next_token (at_suffix s cs))" if "ds \<noteq> []"
  proof -
    from that obtain c es where c: "ds = c # es"
      by (cases ds) auto
    have se: "suffix (c # es) (char_list s)" "suffix es (char_list s)"
      using sd c by (auto dest: suffix_ConsD1)
    have pk: "peek (at_suffix s (c # es)) = Some (byte_pos s (c # es), c)"
      using sd c by (simp add: peek_at)
    have b: "bump (at_suffix s (c # es)) = at_suffix s es"
      using sd c by simp
    have pk1: "map_option snd (peek (at_suffix s es)) = Some d \<longleftrightarrow> heads ((=) d) es" for d
      using se(2) by (cases es) (auto simp: peek_at)
    have one: "lexes s (c # es) (finish_token (byte_pos s (c # es)) k (at_suffix s es))"
      if "token_text [c] k" "stops [c] es" for k
      using lexes_token [of "[c]" es s k] se(1) that by simp
    have two: "lexes s (c # es) (finish_token (byte_pos s (c # es)) k (bump (at_suffix s es)))"
      if "map_option snd (peek (at_suffix s es)) = Some d" "token_text [c, d] k" "c \<in> {''!'', ''.'', ''-'', ''<''}" for d k
    proof -
      from that(1) se(2) obtain fs where "es = d # fs"
        by (cases es) (auto simp: peek_at)
      with lexes_token [of "[c, d]" fs s k] stops_sign [OF that(3), of "[d]" fs] se that(2) show ?thesis by simp
    qed
    have pairs: "c = ''!'' \<Longrightarrow> token_text [c, ''=''] T_Neq" "c = ''.'' \<Longrightarrow> token_text [c, ''.''] T_DotDot"
      "c = ''-'' \<Longrightarrow> token_text [c, ''>''] T_ArrowRight" "c = ''<'' \<Longrightarrow> token_text [c, ''-''] T_ArrowLeft"
      by (simp_all add: token_text.intros)
    have singles: "c = ''.'' \<Longrightarrow> token_text [c] T_Dot" "c = ''-'' \<Longrightarrow> token_text [c] T_Minus"
      by (simp_all add: token_text.intros)
    have signs: "c = ''!'' \<Longrightarrow> c \<in> {''!'', ''.'', ''-'', ''<''}" "c = ''.'' \<Longrightarrow> c \<in> {''!'', ''.'', ''-'', ''<''}"
      "c = ''-'' \<Longrightarrow> c \<in> {''!'', ''.'', ''-'', ''<''}" "c = ''<'' \<Longrightarrow> c \<in> {''!'', ''.'', ''-'', ''<''}"
      by simp_all
    have stop1: "map_option snd (peek (at_suffix s es)) \<noteq> Some ''.'' \<Longrightarrow> c = ''.'' \<Longrightarrow> stops [c] es"
      "map_option snd (peek (at_suffix s es)) \<noteq> Some ''>'' \<Longrightarrow> c = ''-'' \<Longrightarrow> stops [c] es"
      unfolding pk1 by (simp_all add: stops_def sign_bytes)
    have bad: "map_option snd (peek (at_suffix s es)) \<noteq> Some ''='' \<Longrightarrow> c = ''!'' \<Longrightarrow>
        offending (c # es) (Msg (''expected '' @ quoted ''='' @ '' after '' @ quoted ''!''))"
      "map_option snd (peek (at_suffix s es)) \<noteq> Some ''-'' \<Longrightarrow> c = ''<'' \<Longrightarrow>
        offending (c # es) (Msg (''expected '' @ quoted ''-'' @ '' after '' @ quoted ''<''))"
      unfolding pk1 using offending_bang [of es] offending_less [of es] by blast+
    have "\<not> is_whitespace c"
      using g(4) c by (simp add: no_layout_def)
    then have unexpected: "map_of single_char_tokens c = None \<Longrightarrow> c \<noteq> ''!'' \<Longrightarrow> c \<noteq> ''.'' \<Longrightarrow> c \<noteq> ''-'' \<Longrightarrow> c \<noteq> ''<'' \<Longrightarrow>
        c \<noteq> [CHR 0x22] \<Longrightarrow> \<not> is_ascii_digit c \<Longrightarrow> \<not> (is_ascii_alphabetic c \<or> c = ''_'') \<Longrightarrow>
        offending (c # es) (Unexpected_character c)"
      by (intro offending_char) simp_all
    have str: "c = [CHR 0x22] \<Longrightarrow> lexes s (c # es) (lex_string (byte_pos s (c # es)) (at_suffix s (c # es)))"
      using lex_string_lexes [of es s] se by simp
    show ?thesis
    proof (cases "map_of single_char_tokens c")
      case None
      show ?thesis
        unfolding next_token_def g(3) c Let_def pk option.case prod.case b None
        by (intro lexes_if; (rule lexes_error, rule bad, assumption, assumption
            | rule one, rule singles, assumption, rule stop1, assumption, assumption
            | rule two, assumption, rule pairs, assumption, rule signs, assumption | rule str, assumption
            | rule lex_number_lexes [OF se(1)], assumption | rule lex_ident_lexes [OF se(1)], assumption
            | rule lexes_error, rule unexpected [OF None]; assumption))
    next
      case (Some k)
      show ?thesis
        unfolding next_token_def g(3) c Let_def pk option.case prod.case b Some
        by (rule one [OF token_text.intros(1) [OF Some] stops_single [OF Some]])
    qed
  qed
  with that g eof show ?thesis by blast
qed

section \<open>Tokens tile the source\<close>

text \<open>
  \<open>tiles s cs ts\<close>: the layout and the texts of the tokens \<open>ts\<close>, in order, make up the
  characters \<open>cs\<close> at the end of \<open>s\<close>; the last token, the only one of kind \<open>Eof\<close>, is empty.
\<close>

inductive tiles :: "string \<Rightarrow> rchar list \<Rightarrow> Token list \<Rightarrow> bool" for s where
  tiles_eof: "layout True gap \<Longrightarrow>
     tiles s gap [\<lparr>tok_kind = T_Eof, tok_offset = length s, tok_end = length s\<rparr>]"
| tiles_token: "layout False gap \<Longrightarrow> token_text tx k \<Longrightarrow> tiles s ds ts \<Longrightarrow>
     tiles s (gap @ tx @ ds)
       (\<lparr>tok_kind = k, tok_offset = byte_pos s (tx @ ds), tok_end = byte_pos s ds\<rparr> # ts)"

lemma token_text_not_Eof: "token_text cs k \<Longrightarrow> k \<noteq> T_Eof"
  by (induction rule: token_text.induct) (auto simp: keyword_not_Eof dest: single_not_Eof)

lemma tokenize_loop_at:
  assumes "suffix cs (char_list s)"
  shows "case tokenize_loop ts (at_suffix s cs) of
      Inl e \<Rightarrow> \<exists>pre ds. cs = pre @ ds \<and> lexed pre ds \<and> located_error s ds e
    | Inr us \<Rightarrow> \<exists>vs. us = ts @ vs \<and> tiles s cs vs"
  using assms
proof (induction cs arbitrary: ts rule: length_induct)
  case (1 cs)
  obtain gap ds where g: "cs = gap @ ds" "layout (ds = []) gap"
    "ds = [] \<Longrightarrow> next_token (at_suffix s cs) =
       (Inr \<lparr>tok_kind = T_Eof, tok_offset = length s, tok_end = length s\<rparr>, at_suffix s [])"
    "ds \<noteq> [] \<Longrightarrow> lexes s ds (next_token (at_suffix s cs))" "no_layout ds"
    using next_token_at [OF 1(2)] by blast
  note step = tokenize_loop.simps [of ts "at_suffix s cs"]
  show ?case
  proof (cases "ds = []")
    case True
    then show ?thesis
      using g step by (auto intro: tiles_eof)
  next
    case False
    then have gap: "layout False gap"
      using g(2) by simp
    show ?thesis
    proof (cases "next_token (at_suffix s cs)")
      case (Pair r l)
      show ?thesis
      proof (cases r)
        case (Inl e)
        then have "located_error s ds e"
          using g(4) [OF False] Pair by (simp add: lexes_def)
        with g(1) lexed_layout [OF gap g(5)] show ?thesis
          using step Pair Inl by auto
      next
        case (Inr t)
        then obtain tx fs where t: "ds = tx @ fs" "token_text tx (tok_kind t)" "l = at_suffix s fs"
            "tok_offset t = byte_pos s ds" "tok_end t = byte_pos s fs" "stops tx fs"
          using g(4) [OF False] Pair by (auto simp: lexes_def)
        have len: "length fs < length cs" and sf: "suffix fs (char_list s)"
          using t(1) g(1) token_text_neq_Nil [OF t(2)] 1(2) by (auto dest: suffix_appendD)
        have "t = \<lparr>tok_kind = tok_kind t, tok_offset = byte_pos s (tx @ fs), tok_end = byte_pos s fs\<rparr>"
          using t by simp
        then have tile: "tiles s cs (t # vs)" if "tiles s fs vs" for vs
          using tiles_token [OF gap t(2) that] g(1) t(1) by simp
        have eq: "tokenize_loop ts (at_suffix s cs) = tokenize_loop (ts @ [t]) (at_suffix s fs)"
          using step Pair Inr t(3) token_text_not_Eof [OF t(2)] by simp
        have more: "\<exists>pre' ds'. cs = pre' @ ds' \<and> lexed pre' ds' \<and> located_error s ds' e"
          if "fs = pre @ es" "lexed pre es" "located_error s es e" for pre es e
          using lexed_token [OF gap _ t(2) _ that(2)] g(1,5) t(1,6) that
          by (intro exI [of _ "gap @ tx @ pre"] exI [of _ es]) simp
        from 1(1) [rule_format, OF len sf, of "ts @ [t]"] tile more show ?thesis
          unfolding eq by (auto split: sum.splits)
      qed
    qed
  qed
qed

lemma tokenize_tiles: "tokenize s = Inr ts \<Longrightarrow> tiles s (char_list s) ts"
  using tokenize_loop_at [of "char_list s" s "[]"] by (simp add: tokenize_def lexer_new_at)

lemma tokenize_error_at:
  "tokenize s = Inl e \<Longrightarrow> \<exists>pre rest. char_list s = pre @ rest \<and> lexed pre rest \<and> located_error s rest e"
  using tokenize_loop_at [of "char_list s" s "[]"] by (simp add: tokenize_def lexer_new_at)

section \<open>Positions of errors\<close>

definition line_of :: "rchar list \<Rightarrow> nat" where
  "line_of pre = Suc (length (filter (\<lambda>c. c = [CHR 0x0A]) pre))"

definition column_of :: "rchar list \<Rightarrow> nat" where
  "column_of pre = Suc (length (takeWhile (\<lambda>c. c \<noteq> [CHR 0x0A]) (rev pre)))"

lemma line_col_loop_prefix:
  assumes "\<forall>c \<in> set pre. c \<noteq> []" "\<forall>(i, c) \<in> set rest. i0 + length (concat pre) \<le> i"
  shows "line_col_loop (i0 + length (concat pre)) (index_from i0 pre @ rest) (line_of p0) (column_of p0)
    = (line_of (p0 @ pre), column_of (p0 @ pre))"
  using assms
proof (induction pre arbitrary: i0 p0)
  case Nil
  then show ?case by (cases rest) auto
next
  case (Cons c pre)
  have "line_col_loop (i0 + length (concat (c # pre))) (index_from i0 (c # pre) @ rest) (line_of p0) (column_of p0)
      = line_col_loop (i0 + length c + length (concat pre)) (index_from (i0 + length c) pre @ rest)
          (line_of (p0 @ [c])) (column_of (p0 @ [c]))"
    using Cons.prems by (auto simp: line_of_def column_of_def add.assoc)
  also have "\<dots> = (line_of ((p0 @ [c]) @ pre), column_of ((p0 @ [c]) @ pre))"
    using Cons.prems by (intro Cons.IH) (auto simp: add.assoc)
  finally show ?case by simp
qed

lemma index_from_ge: "(i, c) \<in> set (index_from j cs) \<Longrightarrow> j \<le> i"
  by (induction j cs rule: index_from.induct) auto

lemma line_col_at:
  assumes "char_list s = pre @ cs"
  shows "offset_to_line_col s (byte_pos s cs) = (line_of pre, column_of pre)"
proof -
  have ne: "\<forall>c \<in> set pre. c \<noteq> []"
    using char_list_neq_Nil [of _ s] assms by auto
  have "line_of [] = 1" "column_of [] = 1"
    by (simp_all add: line_of_def column_of_def)
  with line_col_loop_prefix [of pre "index_from (byte_pos s cs) cs" 0 "[]"] ne show ?thesis
    unfolding offset_to_line_col_def char_indices_split [OF assms]
    by (auto simp: byte_pos_prefix [OF assms] dest: index_from_ge)
qed

section \<open>Spans\<close>

lemma tiles_suffix_mono:
  assumes "tiles s cs ts" "suffix cs (char_list s)" "t \<in> set ts"
  shows "\<exists>tx ds. suffix (tx @ ds) (char_list s) \<and> tok_offset t = byte_pos s (tx @ ds)
    \<and> tok_end t = byte_pos s ds
    \<and> (if tok_kind t = T_Eof then tx = [] \<and> ds = [] else token_text tx (tok_kind t))"
  using assms
proof (induction rule: tiles.induct)
  case (tiles_eof gap)
  then show ?case by (intro exI [of _ "[]"]) simp
next
  case (tiles_token gap tx k ds ts)
  have sf: "suffix (tx @ ds) (char_list s)" "suffix ds (char_list s)"
    using tiles_token.prems(1) by (auto dest: suffix_appendD)
  show ?case
  proof (cases "t \<in> set ts")
    case True
    then show ?thesis using tiles_token.IH sf by blast
  next
    case False
    then show ?thesis
      using tiles_token.prems(2) tiles_token.hyps(2) sf token_text_not_Eof
      by (intro exI [of _ tx] exI [of _ ds]) auto
  qed
qed

definition span :: "string \<Rightarrow> Token \<Rightarrow> string" where
  "span s t = slice s (tok_offset t) (tok_end t)"

definition token_ok :: "string \<Rightarrow> Token \<Rightarrow> bool" where
  "token_ok s t \<longleftrightarrow>
     tok_offset t \<le> tok_end t \<and> boundary s (tok_offset t) \<and> boundary s (tok_end t)
     \<and> (tok_kind t \<noteq> T_Eof \<longrightarrow> (\<exists>tx. concat tx = span s t \<and> token_text tx (tok_kind t)))"

lemma byte_pos_append:
  assumes "suffix (xs @ ys) (char_list s)"
  shows "byte_pos s ys = byte_pos s (xs @ ys) + length (concat xs)"
proof -
  from assms obtain pre where "char_list s = pre @ xs @ ys"
    by (auto simp: suffix_def)
  with byte_pos_prefix [of s pre "xs @ ys"] byte_pos_prefix [of s "pre @ xs" ys] show ?thesis
    by simp
qed

lemma tiles_token_ok:
  assumes "tiles s (char_list s) ts" "t \<in> set ts"
  shows "token_ok s t"
proof -
  obtain tx ds where t: "suffix (tx @ ds) (char_list s)" "tok_offset t = byte_pos s (tx @ ds)"
      "tok_end t = byte_pos s ds"
      "if tok_kind t = T_Eof then tx = [] \<and> ds = [] else token_text tx (tok_kind t)"
    using tiles_suffix_mono [OF assms(1) _ assms(2)] by auto
  have "suffix ds (char_list s)"
    using t(1) by (rule suffix_appendD)
  then have "boundary s (tok_offset t)" "boundary s (tok_end t)"
    using boundary_at [OF t(1)] t(2,3) boundary_at by simp_all
  then show ?thesis
    using t(2-4) byte_pos_append [OF t(1)] slice_at [OF t(1)]
    unfolding token_ok_def span_def by (auto split: if_splits)
qed

lemma tiles_shape:
  "tiles s cs ts \<Longrightarrow> ts \<noteq> [] \<and> tok_kind (last ts) = T_Eof \<and> (\<forall>t \<in> set (butlast ts). tok_kind t \<noteq> T_Eof)"
  by (induction rule: tiles.induct) (auto dest: token_text_not_Eof)

lemma tiles_ordered:
  assumes "tiles s cs ts" "suffix cs (char_list s)"
  shows "sorted_wrt (\<lambda>t u. tok_end t \<le> tok_offset u) ts \<and> (\<forall>t \<in> set ts. byte_pos s cs \<le> tok_offset t)"
  using assms
proof (induction rule: tiles.induct)
  case (tiles_eof gap)
  then show ?case by (simp add: byte_pos_def)
next
  case (tiles_token gap tx k ds ts)
  have sf: "suffix (tx @ ds) (char_list s)" "suffix ds (char_list s)"
    using tiles_token.prems by (auto dest: suffix_appendD)
  have "byte_pos s (gap @ tx @ ds) \<le> byte_pos s (tx @ ds)" "byte_pos s (tx @ ds) \<le> byte_pos s ds"
    by (simp_all add: byte_pos_def)
  with tiles_token.IH [OF sf(2)] show ?case by fastforce
qed

text \<open>A keyword or identifier token is spelled in the source; an integer literal is not negative.\<close>

lemma int_literal_nonneg:
  assumes "token_text tx (T_Int n)"
  shows "0 \<le> sint n"
  using assms
proof (cases rule: token_text.cases)
  case (1 c)
  from map_of_SomeD [OF this(2)] show ?thesis by (auto simp: single_char_tokens_def)
next
  case 9
  have "concat tx \<noteq> []" "hd (concat tx) \<noteq> CHR 0x2D"
    using 9 by (auto simp: is_ascii_digit_def digit_byte_def neq_Nil_conv dest!: one_byte_cases)
  then obtain m where "n = of_nat m" "m < 2 ^ 63"
    using 9 by (cases "concat tx") (auto simp: parse_i64_def split: option.splits if_splits)
  then show ?thesis
    by (simp add: signed_of_nat signed_take_bit_int_eq_self)
next
  case (11 c cs)
  then show ?thesis
    using keyword_or_ident_kinds [of "concat tx"] by (auto simp: keyword_table_def)
qed

section \<open>Theorems\<close>

text \<open>
  C30: the tokens of a source tile it. They end with the only \<open>Eof\<close>, follow each other without
  overlap, lie on character boundaries, and each is spelled in the source as the lexical grammar
  says; only white space and comments stand between them.
\<close>

theorem tokenize_sound:
  assumes "tokenize s = Inr ts"
  shows "tiles s (char_list s) ts \<and> ts \<noteq> [] \<and> tok_kind (last ts) = T_Eof
    \<and> (\<forall>t \<in> set (butlast ts). tok_kind t \<noteq> T_Eof)
    \<and> sorted_wrt (\<lambda>t u. tok_end t \<le> tok_offset u) ts \<and> (\<forall>t \<in> set ts. token_ok s t)"
  using tokenize_tiles [OF assms] tiles_shape [OF tokenize_tiles [OF assms]]
    tiles_ordered [OF tokenize_tiles [OF assms]] tiles_token_ok [OF tokenize_tiles [OF assms]]
  by auto

text \<open>
  C31: a source that does not tokenize is rejected where it has to be. It is a sequence of tokens and
  layout, read from the left with the longest token each time, followed by something that cannot start
  a token: an exclamation mark without \<open>=\<close>, a \<open><\<close> without \<open>-\<close>, a string that does not end, a number out
  of range or a character outside the grammar. The error carries the message for that, and the byte
  offset, the line and the column of the place.
\<close>

theorem tokenize_error_located:
  assumes "tokenize s = Inl e"
  shows "\<exists>pre rest m. char_list s = pre @ rest \<and> lexed pre rest \<and> offending rest m
    \<and> e = \<lparr>pe_message = m, pe_offset = Some (length (concat pre)), pe_line = Some (line_of pre),
          pe_column = Some (column_of pre)\<rparr>"
proof -
  obtain pre rest where pre: "char_list s = pre @ rest" "lexed pre rest" "located_error s rest e"
    using tokenize_error_at [OF assms] by blast
  then obtain m where m: "offending rest m" "e = with_location (parse_error_at (byte_pos s rest) m) s"
    by (auto simp: located_error_def)
  then have "e = \<lparr>pe_message = m, pe_offset = Some (length (concat pre)), pe_line = Some (line_of pre),
      pe_column = Some (column_of pre)\<rparr>"
    using line_col_at [OF pre(1)] byte_pos_prefix [OF pre(1)] by (simp add: with_location_def parse_error_at_def)
  with pre(1,2) m(1) show ?thesis by blast
qed

section \<open>Examples\<close>

definition ex_query :: string where
  "ex_query = ''CHECKOUT HEAD;''"

definition ex_tokens :: "Token list" where
  "ex_tokens =
     [\<lparr>tok_kind = T_Checkout, tok_offset = 0, tok_end = 8\<rparr>,
      \<lparr>tok_kind = T_Head, tok_offset = 9, tok_end = 13\<rparr>,
      \<lparr>tok_kind = T_Semicolon, tok_offset = 13, tok_end = 14\<rparr>,
      \<lparr>tok_kind = T_Eof, tok_offset = 14, tok_end = 14\<rparr>]"

definition ex_bad_query :: string where
  "ex_bad_query = ''USE'' @ [CHR 0x0A] @ '' ?''"

lemma tokenize_example: "tokenize ex_query = Inr ex_tokens"
  by code_simp

theorem tokenize_sound_witness:
  "tokenize ex_query = Inr ex_tokens \<and> tiles ex_query (char_list ex_query) ex_tokens"
  using tokenize_sound [OF tokenize_example] tokenize_example by blast

lemma tokenize_bad_example: "tokenize ex_bad_query =
  Inl \<lparr>pe_message = Unexpected_character ''?'', pe_offset = Some 5, pe_line = Some 2, pe_column = Some 2\<rparr>"
  by code_simp

text \<open>The place is the fifth byte: one token, a line break and a space precede it.\<close>

theorem tokenize_error_located_witness:
  "\<exists>pre rest. char_list ex_bad_query = pre @ rest \<and> lexed pre rest \<and> offending rest (Unexpected_character ''?'')
     \<and> length (concat pre) = 5 \<and> line_of pre = 2 \<and> column_of pre = 2"
  using tokenize_error_located [OF tokenize_bad_example] by auto

end
