(* ===== verification/Ql_Grammar.thy ===== *)
theory Ql_Grammar
  imports Ql_Parser Ql_Tokens
begin

text \<open>
  What the parser guarantees: on every source it returns a well-formed statement or an error that
  carries its position, and neither panics nor loops. \<open>good s Q r\<close> is the weakest precondition of
  a parser's result \<open>r\<close>; every method has one rule that says what it returns and that it consumes
  a token. The rules of the expression methods are proved once, in the locale \<open>sub_parser\<close>, for
  an arbitrary parser of sub-expressions, and hold for \<open>parse_expression\<close> by interpretation.
\<close>

section \<open>Well-formed syntax trees\<close>

definition ident_name :: "string \<Rightarrow> bool" where
  "ident_name w \<longleftrightarrow>
     w \<noteq> [] \<and> (alpha_byte (hd w) \<or> hd w = CHR ''_'')
     \<and> list_all (\<lambda>b. alpha_byte b \<or> digit_byte b \<or> b = CHR ''_'') w"

definition opt_all :: "('a \<Rightarrow> bool) \<Rightarrow> 'a option \<Rightarrow> bool" where
  "opt_all P x = (case x of None \<Rightarrow> True | Some y \<Rightarrow> P y)"

fun wf_expr :: "Expression \<Rightarrow> bool" where
  "wf_expr (E_Int i) \<longleftrightarrow> i \<noteq> 0x8000000000000000"
| "wf_expr (E_Variable v) \<longleftrightarrow> ident_name v \<and> map_of keyword_table (to_ascii_uppercase v) \<notin> {Some T_Null, Some T_True, Some T_False}"
| "wf_expr (E_PropertyAccess e q) \<longleftrightarrow> wf_expr e \<and> ident_name q"
| "wf_expr (E_Binary l _ r) \<longleftrightarrow> wf_expr l \<and> wf_expr r"
| "wf_expr (E_Map m) \<longleftrightarrow> sorted_map m \<and> (\<forall>(k, e) \<in> set m. ident_name k \<and> wf_expr e)"
| "wf_expr _ \<longleftrightarrow> True"

definition wf_payload :: "(string \<times> Expression) list \<Rightarrow> bool" where
  "wf_payload m \<longleftrightarrow> wf_expr (E_Map m)"

fun wf_target :: "TargetRef \<Rightarrow> bool" where
  "wf_target (TR_Commit h) \<longleftrightarrow> validate_hex_hash h = Inr ()"
| "wf_target _ \<longleftrightarrow> True"

definition wf_node_pattern :: "NodePattern \<Rightarrow> bool" where
  "wf_node_pattern v \<longleftrightarrow>
     opt_all ident_name (np_variable v) \<and> opt_all ident_name (np_label v) \<and> wf_payload (np_properties v)"

definition wf_edge :: "EdgePattern \<Rightarrow> bool" where
  "wf_edge e \<longleftrightarrow> ep_multiplier e \<noteq> Some (Hop_Range None None)"

text \<open>Nodes and edges alternate, beginning and ending with a node.\<close>

fun wf_elements :: "PatternElement list \<Rightarrow> bool" where
  "wf_elements [PE_Node v] \<longleftrightarrow> wf_node_pattern v"
| "wf_elements (PE_Node v # PE_Edge e # es) \<longleftrightarrow> wf_node_pattern v \<and> wf_edge e \<and> wf_elements es"
| "wf_elements _ \<longleftrightarrow> False"

definition wf_match :: "MatchClause \<Rightarrow> bool" where
  "wf_match m \<longleftrightarrow> mc_patterns m \<noteq> [] \<and> list_all (\<lambda>q. wf_elements (pat_elements q)) (mc_patterns m)"

fun wf_traversal :: "TraversalClause \<Rightarrow> bool" where
  "wf_traversal (TC_MergeBase a b) \<longleftrightarrow> wf_target a \<and> wf_target b"
| "wf_traversal (TC_ShortestPath a b) \<longleftrightarrow> wf_target a \<and> wf_target b"
| "wf_traversal (TC_Ancestors a) \<longleftrightarrow> wf_target a"

definition wf_item :: "ProjectionItem \<Rightarrow> bool" where
  "wf_item i \<longleftrightarrow> wf_expr (pi_expression i) \<and> opt_all ident_name (pi_alias i)"

definition wf_select :: "SelectClause \<Rightarrow> bool" where
  "wf_select c \<longleftrightarrow> sc_items c \<noteq> [] \<and> list_all wf_item (sc_items c)"

definition wf_query :: "QueryStatement \<Rightarrow> bool" where
  "wf_query q \<longleftrightarrow>
     \<not> (qs_context q = None \<and> qs_match_clause q = None \<and> qs_traversal q = None
        \<and> qs_where_clause q = None \<and> qs_select q = None)
     \<and> opt_all (\<lambda>c. wf_target (cc_target c)) (qs_context q) \<and> opt_all wf_match (qs_match_clause q)
     \<and> opt_all wf_traversal (qs_traversal q) \<and> opt_all wf_expr (qs_where_clause q)
     \<and> opt_all wf_select (qs_select q)"

fun wf_version :: "VersionStatement \<Rightarrow> bool" where
  "wf_version (VS_Commit c) \<longleftrightarrow> wf_payload (cs_payload c) \<and> opt_all (list_all wf_target) (cs_parents c)"
| "wf_version (VS_Branch (BS_Create name t)) \<longleftrightarrow> opt_all wf_target t"
| "wf_version (VS_Branch (BS_Delete name)) \<longleftrightarrow> True"
| "wf_version (VS_Checkout t) \<longleftrightarrow> wf_target t"
| "wf_version (VS_Merge m) \<longleftrightarrow> wf_target (ms_source m) \<and> wf_target (ms_into m)"
| "wf_version (VS_Diff d) \<longleftrightarrow> wf_target (df_left d) \<and> wf_target (df_right d)"

fun wf_statement :: "Statement \<Rightarrow> bool" where
  "wf_statement (Query q) \<longleftrightarrow> wf_query q"
| "wf_statement (Version v) \<longleftrightarrow> wf_version v"

lemma opt_all_simps [simp]: "opt_all P None" "opt_all P (Some x) = P x"
  by (simp_all add: opt_all_def)

lemma wf_payload_Nil [simp]: "wf_payload []"
  by (simp add: wf_payload_def)

lemma bt_insert_elem: "x \<in> set (bt_insert k v m) \<Longrightarrow> x = (k, v) \<or> x \<in> set m"
  by (induction k v m rule: bt_insert.induct) (auto split: if_splits)

lemma wf_payload_insert [simp]: "wf_payload m \<Longrightarrow> ident_name k \<Longrightarrow> wf_expr e \<Longrightarrow> wf_payload (bt_insert k e m)"
  by (auto simp: wf_payload_def dest!: bt_insert_elem)

lemma wf_elements_append:
  "wf_elements es \<Longrightarrow> wf_edge e \<Longrightarrow> wf_node_pattern v \<Longrightarrow> wf_elements (es @ [PE_Edge e, PE_Node v])"
  by (induction es rule: wf_elements.induct) auto

section \<open>Parser states\<close>

definition parser_ok :: "string \<Rightarrow> Parser \<Rightarrow> bool" where
  "parser_ok s p \<longleftrightarrow>
     ps_source p = s \<and> ps_pos p < length (ps_tokens p) \<and> tok_kind (last (ps_tokens p)) = T_Eof
     \<and> (\<forall>t \<in> set (butlast (ps_tokens p)). tok_kind t \<noteq> T_Eof) \<and> (\<forall>t \<in> set (ps_tokens p). token_ok s t)"

definition rest_len :: "Parser \<Rightarrow> nat" where
  "rest_len p = length (ps_tokens p) - 1 - ps_pos p"

lemma current_in: "parser_ok s p \<Longrightarrow> current p \<in> set (ps_tokens p)"
  by (auto simp: parser_ok_def current_def intro!: nth_mem)

lemma parser_ok_source: "parser_ok s p \<Longrightarrow> ps_source p = s"
  by (simp add: parser_ok_def)

lemma kind_Eof_iff:
  assumes "parser_ok s p"
  shows "kind p = T_Eof \<longleftrightarrow> rest_len p = 0"
proof (cases "ps_pos p < length (ps_tokens p) - 1")
  case True
  then have "current p = butlast (ps_tokens p) ! ps_pos p"
    by (simp add: current_def nth_butlast)
  moreover have "butlast (ps_tokens p) ! ps_pos p \<in> set (butlast (ps_tokens p))"
    using True by (intro nth_mem) simp
  ultimately have "current p \<in> set (butlast (ps_tokens p))"
    by simp
  then have "kind p \<noteq> T_Eof"
    using assms unfolding parser_ok_def by blast
  with True show ?thesis
    by (simp add: rest_len_def)
next
  case False
  have pos: "ps_pos p < length (ps_tokens p)" and eof: "tok_kind (last (ps_tokens p)) = T_Eof"
    using assms unfolding parser_ok_def by blast+
  from pos have ne: "ps_tokens p \<noteq> []"
    by (cases "ps_tokens p") simp_all
  have min: "min (ps_pos p) (length (ps_tokens p) - 1) = length (ps_tokens p) - 1"
    using False by (rule min_absorb2 [OF leI])
  have "current p = last (ps_tokens p)"
    unfolding current_def min by (rule last_conv_nth [OF ne, symmetric])
  with eof have "kind p = T_Eof"
    by (simp only:)
  moreover have "rest_len p = 0"
    using False by (simp add: rest_len_def)
  ultimately show ?thesis by simp
qed

definition located :: "string \<Rightarrow> ParseError \<Rightarrow> bool" where
  "located s e \<longleftrightarrow>
     (\<exists>pre cs. char_list s = pre @ cs \<and> pe_offset e = Some (length (concat pre))
        \<and> pe_line e = Some (line_of pre) \<and> pe_column e = Some (column_of pre))"

lemma boundary_split:
  assumes "boundary s i"
  obtains pre cs where "char_list s = pre @ cs" "i = byte_pos s cs" "i = length (concat pre)"
proof (cases "i = length s")
  case True
  then show ?thesis using that [of "char_list s" "[]"] by simp
next
  case False
  with assms obtain c where "(i, c) \<in> set (char_indices s)"
    by (auto simp: boundary_def)
  then obtain n where n: "n < length (char_list s)" "index_from 0 (char_list s) ! n = (i, c)"
    by (auto simp: char_indices_def in_set_conv_nth)
  then have i: "i = length (concat (take n (char_list s)))"
    by (simp add: index_from_nth)
  have split: "char_list s = take n (char_list s) @ drop n (char_list s)" by simp
  from that [OF split _ i] show ?thesis
    unfolding i byte_pos_prefix [OF split] by blast
qed

lemma located_at:
  assumes "boundary s i"
  shows "located s (with_location (parse_error_at i m) s)"
proof -
  obtain pre cs where "char_list s = pre @ cs" "i = byte_pos s cs" "i = length (concat pre)"
    using assms by (rule boundary_split)
  with line_col_at [of s pre cs] show ?thesis
    by (auto simp: located_def with_location_def parse_error_at_def)
qed

section \<open>Weakest preconditions\<close>

definition good :: "string \<Rightarrow> ('a \<Rightarrow> Parser \<Rightarrow> bool) \<Rightarrow> (parse_failure + 'a) \<times> Parser \<Rightarrow> bool" where
  "good s Q res =
     (case res of (Inl f, _) \<Rightarrow> (\<exists>e. f = P_Err e \<and> located s e) | (Inr x, p) \<Rightarrow> Q x p)"

named_theorems parse_rules \<open>rules for the result of each method\<close>

lemma good_try [simp]: "good s Q (try_st m f p) \<longleftrightarrow> good s (\<lambda>x p'. good s Q (f x p')) (m p)"
  by (auto simp: good_def try_st_def split: prod.splits sum.splits)

lemma good_ok [simp]: "good s Q (p_ok x p) \<longleftrightarrow> Q x p"
  by (simp add: good_def p_ok_def)

lemma good_mono: "good s Q r \<Longrightarrow> (\<And>x p. Q x p \<Longrightarrow> R x p) \<Longrightarrow> good s R r"
  by (auto simp: good_def split: prod.splits sum.splits)

lemma good_fail [simp]:
  assumes "parser_ok s p"
  shows "good s Q (p_fail m p)"
proof -
  have "token_ok s (current p)"
    using current_in [OF assms] assms by (simp add: parser_ok_def)
  then have "located s (p_error p m)"
    using parser_ok_source [OF assms] by (simp add: p_error_def token_ok_def located_at)
  then show ?thesis
    by (simp add: good_def p_fail_def)
qed

lemma bump_good [parse_rules]:
  assumes "parser_ok s p" "kind p \<noteq> T_Eof"
    "\<And>p'. parser_ok s p' \<Longrightarrow> rest_len p' < rest_len p \<Longrightarrow> Q (current p) p'"
  shows "good s Q (p_bump p)"
proof -
  have "0 < rest_len p"
    using kind_Eof_iff [OF assms(1)] assms(2) by simp
  with assms(1) assms(3) [of "p\<lparr>ps_pos := ps_pos p + 1\<rparr>"] show ?thesis
    by (auto simp: good_def p_bump_def rest_len_def parser_ok_def)
qed

definition plain_kind :: "TokenKind \<Rightarrow> bool" where
  "plain_kind k \<longleftrightarrow> ident_lit k = None \<and> string_lit k = None \<and> int_lit k = None \<and> float_lit k = None"

lemma check_plain: "plain_kind k \<Longrightarrow> check p k \<longleftrightarrow> kind p = k"
  by (auto simp: check_def same_discriminant_def plain_kind_def)

lemma plain_kinds [simp]:
  "plain_kind T_Colon" "plain_kind T_Comma" "plain_kind T_LBrace" "plain_kind T_RBrace"
  "plain_kind T_LParen" "plain_kind T_RParen" "plain_kind T_LBracket" "plain_kind T_RBracket"
  "plain_kind T_Dot" "plain_kind T_DotDot" "plain_kind T_Star" "plain_kind T_Minus"
  "plain_kind T_ArrowRight" "plain_kind T_Semicolon" "plain_kind T_And" "plain_kind T_Or"
  "plain_kind T_As" "plain_kind T_From" "plain_kind T_Branch" "plain_kind T_Commit" "plain_kind T_Merge"
  "plain_kind T_Into" "plain_kind T_Strategy" "plain_kind T_Diff" "plain_kind T_Path" "plain_kind T_Match"
  "plain_kind T_Traverse" "plain_kind T_Select" "plain_kind T_Use" "plain_kind T_Where"
  by (simp_all add: plain_kind_def ident_lit_def string_lit_def int_lit_def float_lit_def)

lemma expect_good [parse_rules]:
  assumes "parser_ok s p" "plain_kind k" "k \<noteq> T_Eof"
    "\<And>t p'. parser_ok s p' \<Longrightarrow> rest_len p' < rest_len p \<Longrightarrow> Q t p'"
  shows "good s Q (expect k p)"
  using assms by (auto simp: expect_def check_plain intro!: bump_good)

lemma when_good [parse_rules]:
  assumes "parser_ok s p" "plain_kind k" "k \<noteq> T_Eof"
    "\<And>p'. parser_ok s p' \<Longrightarrow> rest_len p' < rest_len p \<Longrightarrow> good s Q (m p')"
    "good s Q (m' p)"
  shows "good s Q (p_when k m m' p)"
  using assms by (auto simp: p_when_def check_plain intro!: bump_good)

section \<open>Names, strings and numbers\<close>

lemma looks_like_ident_iff:
  "looks_like_ident p \<longleftrightarrow> ident_lit (kind p) \<noteq> None \<or> kind p \<in> snd ` set keyword_table"
  by (simp add: looks_like_ident_def keyword_table_def)

lemma lit_simps [simp]:
  "ident_lit (T_Ident v) = Some v" "string_lit (T_String v) = Some v" "int_lit (T_Int n) = Some n"
  "float_lit (T_Float x) = Some x"
  by (simp_all add: ident_lit_def string_lit_def int_lit_def float_lit_def)

lemma lit_Some:
  "ident_lit k = Some v \<longleftrightarrow> k = T_Ident v" "string_lit k = Some v \<longleftrightarrow> k = T_String v"
  "int_lit k = Some n \<longleftrightarrow> k = T_Int n" "float_lit k = Some x \<longleftrightarrow> k = T_Float x"
  by (cases k; simp add: ident_lit_def string_lit_def int_lit_def float_lit_def)+

definition word_kind :: "TokenKind \<Rightarrow> bool" where
  "word_kind k \<longleftrightarrow> ident_lit k \<noteq> None \<or> k \<in> snd ` set keyword_table"

lemma not_word_kinds [simp]:
  "\<not> word_kind T_Neq" "\<not> word_kind T_Dot" "\<not> word_kind T_DotDot" "\<not> word_kind T_Minus"
  "\<not> word_kind T_ArrowRight" "\<not> word_kind T_ArrowLeft" "\<not> word_kind (T_String v)" "\<not> word_kind (T_Int n)"
  "\<not> word_kind (T_Float x)" "\<not> word_kind T_Eof"
  by (simp_all add: word_kind_def ident_lit_def keyword_table_def)

lemma single_not_word: "map_of single_char_tokens c = Some k \<Longrightarrow> \<not> word_kind k"
  by (drule map_of_SomeD) (auto simp: single_char_tokens_def word_kind_def ident_lit_def keyword_table_def)

lemma ident_char_byte: "ident_char c \<Longrightarrow> \<exists>b. c = [b] \<and> (alpha_byte b \<or> digit_byte b \<or> b = CHR ''_'')"
  by (auto simp: ident_char_def is_ascii_alphanumeric_def is_ascii_alphabetic_def is_ascii_digit_def
      dest!: one_byte_cases)

lemma ident_chars_bytes:
  "list_all ident_char cs \<Longrightarrow> list_all (\<lambda>b. alpha_byte b \<or> digit_byte b \<or> b = CHR ''_'') (concat cs)"
  by (induction cs) (auto dest: ident_char_byte)

lemma word_text:
  assumes "token_text tx k" "word_kind k"
  shows "ident_name (concat tx) \<and> keyword_or_ident (concat tx) = k"
  using assms
proof (cases rule: token_text.cases)
  case (11 c cs)
  have "ident_char c"
    using 11 by (auto simp: ident_char_def is_ascii_alphanumeric_def)
  moreover obtain b where "c = [b]" "alpha_byte b \<or> b = CHR ''_''"
    using 11 by (auto simp: is_ascii_alphabetic_def dest!: one_byte_cases)
  ultimately show ?thesis
    using 11 ident_chars_bytes [of cs] by (auto simp: ident_name_def)
qed (auto dest: single_not_word)

lemma slice_good:
  assumes "parser_ok s p" "token_ok s t"
  shows "good s Q (p_slice (tok_offset t) (tok_end t) p) \<longleftrightarrow> Q (span s t) p"
  using assms(2) by (simp add: p_slice_def good_def token_ok_def span_def parser_ok_source [OF assms(1)])

lemma expect_word_good [parse_rules]:
  assumes "parser_ok s p"
    "\<And>w p'. parser_ok s p' \<Longrightarrow> rest_len p' < rest_len p \<Longrightarrow> ident_name w \<Longrightarrow> keyword_or_ident w = kind p
       \<Longrightarrow> Q w p'"
  shows "good s Q (expect_ident_or_keyword_as_ident p)"
proof (cases "looks_like_ident p")
  case True
  have tok: "token_ok s (current p)"
    using current_in [OF assms(1)] assms(1) by (simp add: parser_ok_def)
  have word: "word_kind (kind p)"
    using True by (simp add: looks_like_ident_iff word_kind_def)
  then have ne: "kind p \<noteq> T_Eof" by auto
  with tok word have w: "ident_name (span s (current p))" "keyword_or_ident (span s (current p)) = kind p"
    using word_text by (fastforce simp: token_ok_def)+
  show ?thesis
    using True w assms(2) unfolding expect_ident_or_keyword_as_ident_def
    by (auto intro!: bump_good [OF assms(1) ne] simp: slice_good [OF _ tok])
qed (simp add: expect_ident_or_keyword_as_ident_def assms(1))

lemma expect_ident_good [parse_rules]:
  assumes "parser_ok s p"
    "\<And>w p'. parser_ok s p' \<Longrightarrow> rest_len p' < rest_len p \<Longrightarrow> ident_name w \<Longrightarrow> keyword_or_ident w = kind p
       \<Longrightarrow> Q w p'"
  shows "good s Q (expect_ident p)"
  unfolding expect_ident_def by (rule expect_word_good [OF assms])

lemma expect_string_good [parse_rules]:
  assumes "parser_ok s p" "\<And>w p'. parser_ok s p' \<Longrightarrow> rest_len p' < rest_len p \<Longrightarrow> Q w p'"
  shows "good s Q (expect_string p)"
proof (cases "string_lit (kind p)")
  case (Some v)
  then have "kind p \<noteq> T_Eof" by (auto simp: lit_Some)
  with assms Some show ?thesis
    by (auto simp: expect_string_def intro!: bump_good)
qed (simp add: expect_string_def assms(1))

lemma expect_name_good [parse_rules]:
  assumes "parser_ok s p" "\<And>w p'. parser_ok s p' \<Longrightarrow> rest_len p' < rest_len p \<Longrightarrow> Q w p'"
  shows "good s Q (expect_name p)"
  using assms by (auto simp: expect_name_def intro!: parse_rules)

lemma ref_name_good [parse_rules]:
  assumes "parser_ok s p" "\<And>w p'. parser_ok s p' \<Longrightarrow> rest_len p' < rest_len p \<Longrightarrow> Q w p'"
  shows "good s Q (ref_name m p)"
  using assms by (auto simp: ref_name_def intro!: parse_rules)

lemma expect_u32_good [parse_rules]:
  assumes "parser_ok s p" "\<And>w p'. parser_ok s p' \<Longrightarrow> rest_len p' < rest_len p \<Longrightarrow> Q w p'"
  shows "good s Q (expect_u32 p)"
proof (cases "int_lit (kind p)")
  case (Some v)
  then have "kind p \<noteq> T_Eof" by (auto simp: lit_Some)
  with assms Some show ?thesis
    by (auto simp: expect_u32_def intro!: bump_good)
qed (simp add: expect_u32_def assms(1))

lemma target_good [parse_rules]:
  assumes "parser_ok s p"
    "\<And>t p'. parser_ok s p' \<Longrightarrow> rest_len p' < rest_len p \<Longrightarrow> wf_target t \<Longrightarrow> Q t p'"
  shows "good s Q (parse_target_ref p)"
  using assms
  by (auto simp: parse_target_ref_def split: sum.split intro!: parse_rules)

section \<open>Expressions\<close>

definition parses :: "string \<Rightarrow> nat \<Rightarrow> ('a \<Rightarrow> bool) \<Rightarrow> 'a parse \<Rightarrow> bool" where
  "parses s k W m \<longleftrightarrow>
     (\<forall>p. parser_ok s p \<longrightarrow> rest_len p < k \<longrightarrow>
        good s (\<lambda>x p'. parser_ok s p' \<and> rest_len p' < rest_len p \<and> W x) (m p))"

lemma parsesD:
  assumes "parses s k W m" "parser_ok s p" "rest_len p < k"
    "\<And>x p'. parser_ok s p' \<Longrightarrow> rest_len p' < rest_len p \<Longrightarrow> W x \<Longrightarrow> Q x p'"
  shows "good s Q (m p)"
proof (rule good_mono)
  show "good s (\<lambda>x p'. parser_ok s p' \<and> rest_len p' < rest_len p \<and> W x) (m p)"
    using assms(1-3) by (simp add: parses_def)
qed (use assms(4) in blast)

lemma int_lit_bounds:
  assumes "parser_ok s p" "int_lit (kind p) = Some n"
  shows "n \<noteq> 0x8000000000000000 \<and> - n \<noteq> 0x8000000000000000"
proof -
  have k: "kind p = T_Int n"
    using assms(2) by (simp add: lit_Some)
  have "token_ok s (current p)"
    using current_in [OF assms(1)] assms(1) by (simp add: parser_ok_def)
  then obtain tx where "token_text tx (T_Int n)"
    using k by (auto simp: token_ok_def)
  then have nn: "0 \<le> sint n"
    by (rule int_literal_nonneg)
  have "sint (0x8000000000000000 :: i64) = - 0x8000000000000000"
    by simp
  with nn have "n \<noteq> 0x8000000000000000" by auto
  moreover have "- n \<noteq> 0x8000000000000000"
  proof
    assume "- n = 0x8000000000000000"
    then have "- (- n) = - 0x8000000000000000" by (simp only:)
    moreover have "- (0x8000000000000000 :: i64) = 0x8000000000000000" by code_simp
    ultimately show False using \<open>n \<noteq> 0x8000000000000000\<close> by (simp only: minus_minus)
  qed
  ultimately show ?thesis by blast
qed

locale sub_parser =
  fixes s :: string and n :: nat and E :: "Expression parse"
  assumes sub: "parses s n wf_expr E"
begin

lemma map_entries_good:
  assumes "parser_ok s p" "rest_len p < m" "rest_len p \<le> n" "wf_payload acc"
    "\<And>x p'. parser_ok s p' \<Longrightarrow> rest_len p' < rest_len p \<Longrightarrow> wf_payload x \<Longrightarrow> Q x p'"
  shows "good s Q (map_entries E m acc p)"
  using assms
proof (induction m arbitrary: acc p)
  case (Suc m)
  show ?case
    using Suc.prems
    by (auto intro!: parse_rules parsesD [OF sub] Suc.IH)
qed simp

lemma map_literal_good:
  assumes "parser_ok s p" "rest_len p \<le> m" "rest_len p \<le> n"
    "\<And>x p'. parser_ok s p' \<Longrightarrow> rest_len p' < rest_len p \<Longrightarrow> wf_payload x \<Longrightarrow> Q x p'"
  shows "good s Q (parse_map_literal E m p)"
  using assms unfolding parse_map_literal_def
  by (auto intro!: parse_rules map_entries_good)

lemma primary_good:
  assumes "parser_ok s p" "rest_len p \<le> m" "rest_len p \<le> n"
    "\<And>x p'. parser_ok s p' \<Longrightarrow> rest_len p' < rest_len p \<Longrightarrow> wf_expr x \<Longrightarrow> Q x p'"
  shows "good s Q (parse_primary E m p)"
proof -
  have lits: "int_lit (kind p') = Some i \<Longrightarrow> kind p' \<noteq> T_Eof" "float_lit (kind p') = Some x \<Longrightarrow> kind p' \<noteq> T_Eof"
    "string_lit (kind p') = Some v \<Longrightarrow> kind p' \<noteq> T_Eof" for p' i x v
    by (auto simp: lit_Some)
  have var: "wf_expr (E_Variable w)"
    if "ident_name w" "keyword_or_ident w = kind p" "kind p \<noteq> T_Null" "kind p \<noteq> T_True" "kind p \<noteq> T_False" for w
    using that by (auto simp: keyword_or_ident_def)
  show ?thesis
    unfolding parse_primary_def
    using assms(1-3)
    by (auto intro!: parse_rules assms(4) parsesD [OF sub] map_literal_good var split: option.split
        dest: lits int_lit_bounds simp: wf_payload_def simp del: wf_expr.simps(2))
qed

lemma postfix_loop_good:
  assumes "parser_ok s p" "rest_len p < m" "wf_expr e"
    "\<And>x p'. parser_ok s p' \<Longrightarrow> rest_len p' \<le> rest_len p \<Longrightarrow> wf_expr x \<Longrightarrow> Q x p'"
  shows "good s Q (postfix_loop m e p)"
  using assms
proof (induction m arbitrary: e p)
  case (Suc m)
  show ?case
    using Suc.prems by (auto intro!: parse_rules Suc.IH)
qed simp

lemma postfix_good:
  assumes "parser_ok s p" "rest_len p \<le> m" "rest_len p \<le> n"
    "\<And>x p'. parser_ok s p' \<Longrightarrow> rest_len p' < rest_len p \<Longrightarrow> wf_expr x \<Longrightarrow> Q x p'"
  shows "good s Q (parse_postfix E m p)"
  using assms unfolding parse_postfix_def
  by (auto intro!: primary_good postfix_loop_good)

lemma equality_loop_good:
  assumes "parser_ok s p" "rest_len p < m" "rest_len p \<le> k" "rest_len p \<le> n" "wf_expr e"
    "\<And>x p'. parser_ok s p' \<Longrightarrow> rest_len p' \<le> rest_len p \<Longrightarrow> wf_expr x \<Longrightarrow> Q x p'"
  shows "good s Q (equality_loop (parse_postfix E k) m e p)"
  using assms
proof (induction m arbitrary: e p)
  case (Suc m)
  show ?case
    using Suc.prems by (auto intro!: bump_good postfix_good Suc.IH)
qed simp

lemma equality_good:
  assumes "parser_ok s p" "rest_len p \<le> m" "rest_len p \<le> n"
    "\<And>x p'. parser_ok s p' \<Longrightarrow> rest_len p' < rest_len p \<Longrightarrow> wf_expr x \<Longrightarrow> Q x p'"
  shows "good s Q (parse_equality E m p)"
  using assms unfolding parse_equality_def
  by (auto intro!: postfix_good equality_loop_good)

lemma binary_loop_good:
  assumes M: "\<And>p Q. parser_ok s p \<Longrightarrow> rest_len p \<le> k \<Longrightarrow> rest_len p \<le> n \<Longrightarrow>
      (\<And>x p'. parser_ok s p' \<Longrightarrow> rest_len p' < rest_len p \<Longrightarrow> wf_expr x \<Longrightarrow> Q x p') \<Longrightarrow> good s Q (M p)"
    and tk: "plain_kind tk" "tk \<noteq> T_Eof"
    and "parser_ok s p" "rest_len p < m" "rest_len p \<le> k" "rest_len p \<le> n" "wf_expr e"
    "\<And>x p'. parser_ok s p' \<Longrightarrow> rest_len p' \<le> rest_len p \<Longrightarrow> wf_expr x \<Longrightarrow> Q x p'"
  shows "good s Q (binary_loop tk bop M m e p)"
  using assms(4-)
proof (induction m arbitrary: e p)
  case (Suc m)
  show ?case
    using Suc.prems by (auto intro!: when_good tk M Suc.IH)
qed simp

lemma and_good:
  assumes "parser_ok s p" "rest_len p \<le> m" "rest_len p \<le> n"
    "\<And>x p'. parser_ok s p' \<Longrightarrow> rest_len p' < rest_len p \<Longrightarrow> wf_expr x \<Longrightarrow> Q x p'"
  shows "good s Q (parse_and E m p)"
  using assms unfolding parse_and_def
  by (auto intro!: equality_good binary_loop_good [where k = m])

lemma or_good:
  assumes "parser_ok s p" "rest_len p \<le> m" "rest_len p \<le> n"
    "\<And>x p'. parser_ok s p' \<Longrightarrow> rest_len p' < rest_len p \<Longrightarrow> wf_expr x \<Longrightarrow> Q x p'"
  shows "good s Q (parse_or E m p)"
  using assms unfolding parse_or_def
  by (auto intro!: and_good binary_loop_good [where k = m])

end

lemma expression_parses: "parses s n wf_expr (parse_expression n)"
proof (induction n)
  case 0
  show ?case by (simp add: parses_def)
next
  case (Suc n)
  then have "sub_parser s n (parse_expression n)" by unfold_locales
  then show ?case
    unfolding parses_def by (auto intro!: sub_parser.or_good)
qed

interpretation expr: sub_parser s n "parse_expression n" for s n
  by unfold_locales (rule expression_parses)

lemmas expression_good [parse_rules] = parsesD [OF expression_parses]

lemma map_good [parse_rules]:
  assumes "parser_ok s p" "rest_len p \<le> n"
    "\<And>x p'. parser_ok s p' \<Longrightarrow> rest_len p' < rest_len p \<Longrightarrow> wf_payload x \<Longrightarrow> Q x p'"
  shows "good s Q (parse_map_literal (parse_expression n) n p)"
  by (rule expr.map_literal_good [OF assms(1,2,2,3)])

end
