(* ===== verification/Ql_Statements.thy ===== *)
theory Ql_Statements
  imports Ql_Grammar
begin

text \<open>
  The rules of \<open>Ql_Grammar\<close> carried through the statements, and the theorems on \<open>parse\<close> and
  \<open>parse_script\<close> as a whole: they return on every source, what they return is well formed, and
  an error names a position of the source.
\<close>

section \<open>Version statements\<close>

lemma target_list_good [parse_rules]:
  assumes "parser_ok s p" "rest_len p < m" "list_all wf_target ts"
    "\<And>x p'. parser_ok s p' \<Longrightarrow> rest_len p' < rest_len p \<Longrightarrow> list_all wf_target x \<Longrightarrow> Q x p'"
  shows "good s Q (target_list m ts p)"
  using assms
proof (induction m arbitrary: ts p)
  case (Suc m)
  show ?case
    using Suc.prems by (auto intro!: target_good when_good Suc.IH)
qed simp

lemma commit_clauses_good [parse_rules]:
  assumes "parser_ok s p" "rest_len p < m" "opt_all (list_all wf_target) ps"
    "\<And>msg ps p'. parser_ok s p' \<Longrightarrow> rest_len p' \<le> rest_len p \<Longrightarrow> opt_all (list_all wf_target) ps \<Longrightarrow> Q (msg, ps) p'"
  shows "good s Q (commit_clauses m msg ps p)"
  using assms
proof (induction m arbitrary: msg ps p)
  case (Suc m)
  show ?case
    using Suc.prems by (auto intro!: parse_rules Suc.IH)
qed simp

lemma commit_good [parse_rules]:
  assumes "parser_ok s p" "rest_len p < n"
    "\<And>x p'. parser_ok s p' \<Longrightarrow> rest_len p' < rest_len p \<Longrightarrow> wf_version (VS_Commit x) \<Longrightarrow> Q x p'"
  shows "good s Q (parse_commit_stmt n p)"
  using assms unfolding parse_commit_stmt_def by (auto intro!: parse_rules)

lemma branch_good [parse_rules]:
  assumes "parser_ok s p"
    "\<And>x p'. parser_ok s p' \<Longrightarrow> rest_len p' < rest_len p \<Longrightarrow> wf_version (VS_Branch x) \<Longrightarrow> Q x p'"
  shows "good s Q (parse_branch_stmt p)"
  using assms unfolding parse_branch_stmt_def by (auto intro!: parse_rules)

lemma strategy_good [parse_rules]:
  assumes "parser_ok s p" "\<And>x p'. parser_ok s p' \<Longrightarrow> rest_len p' < rest_len p \<Longrightarrow> Q x p'"
  shows "good s Q (parse_strategy p)"
  using assms unfolding parse_strategy_def by (auto intro!: parse_rules)

lemma merge_good [parse_rules]:
  assumes "parser_ok s p"
    "\<And>x p'. parser_ok s p' \<Longrightarrow> rest_len p' < rest_len p \<Longrightarrow> wf_version (VS_Merge x) \<Longrightarrow> Q x p'"
  shows "good s Q (parse_merge_stmt p)"
  using assms unfolding parse_merge_stmt_def by (auto intro!: parse_rules)

lemma diff_good [parse_rules]:
  assumes "parser_ok s p"
    "\<And>x p'. parser_ok s p' \<Longrightarrow> rest_len p' < rest_len p \<Longrightarrow> wf_version (VS_Diff x) \<Longrightarrow> Q x p'"
  shows "good s Q (parse_diff_stmt p)"
  using assms unfolding parse_diff_stmt_def by (auto intro!: parse_rules)

lemma version_good [parse_rules]:
  assumes "parser_ok s p" "rest_len p < n"
    "\<And>x p'. parser_ok s p' \<Longrightarrow> rest_len p' < rest_len p \<Longrightarrow> wf_version x \<Longrightarrow> Q x p'"
  shows "good s Q (parse_version_statement n p)"
  using assms unfolding parse_version_statement_def
  by (auto intro!: parse_rules simp del: wf_version.simps(1-3,5,6))

section \<open>Query statements\<close>

lemma node_good [parse_rules]:
  assumes "parser_ok s p" "rest_len p < n"
    "\<And>x p'. parser_ok s p' \<Longrightarrow> rest_len p' < rest_len p \<Longrightarrow> wf_node_pattern x \<Longrightarrow> Q x p'"
  shows "good s Q (parse_node_pattern n p)"
  using assms unfolding parse_node_pattern_def by (auto intro!: parse_rules simp: wf_node_pattern_def)

lemma edge_type_good [parse_rules]:
  assumes "parser_ok s p" "\<And>x p'. parser_ok s p' \<Longrightarrow> rest_len p' < rest_len p \<Longrightarrow> Q x p'"
  shows "good s Q (parse_edge_type p)"
  using assms unfolding parse_edge_type_def by (auto intro!: parse_rules)

lemma hop_good [parse_rules]:
  assumes "parser_ok s p"
    "\<And>x p'. parser_ok s p' \<Longrightarrow> rest_len p' < rest_len p \<Longrightarrow> x \<noteq> Hop_Range None None \<Longrightarrow> Q x p'"
  shows "good s Q (parse_hop_multiplier p)"
  using assms unfolding parse_hop_multiplier_def by (auto intro!: parse_rules)

lemma edge_body_good [parse_rules]:
  assumes "parser_ok s p"
    "\<And>t h p'. parser_ok s p' \<Longrightarrow> rest_len p' \<le> rest_len p \<Longrightarrow> h \<noteq> Some (Hop_Range None None) \<Longrightarrow> Q (t, h) p'"
  shows "good s Q (parse_edge_body p)"
  using assms unfolding parse_edge_body_def by (auto intro!: parse_rules)

lemma bracket_edge_good [parse_rules]:
  assumes "parser_ok s p"
    "\<And>x p'. parser_ok s p' \<Longrightarrow> rest_len p' < rest_len p \<Longrightarrow> wf_edge x \<Longrightarrow> Q x p'"
  shows "good s Q (parse_bracket_edge d p)"
  using assms unfolding parse_bracket_edge_def
  by (cases d) (auto intro!: parse_rules simp: wf_edge_def)

lemma edge_good [parse_rules]:
  assumes "parser_ok s p"
    "\<And>x p'. parser_ok s p' \<Longrightarrow> rest_len p' < rest_len p \<Longrightarrow> wf_edge x \<Longrightarrow> Q x p'"
  shows "good s Q (parse_edge_pattern p)"
  using assms unfolding parse_edge_pattern_def by (auto intro!: parse_rules simp: wf_edge_def)

lemma pattern_loop_good [parse_rules]:
  assumes "parser_ok s p" "rest_len p < m" "wf_elements es"
    "\<And>x p'. parser_ok s p' \<Longrightarrow> rest_len p' \<le> rest_len p \<Longrightarrow> wf_elements x \<Longrightarrow> Q x p'"
  shows "good s Q (pattern_loop m es p)"
  using assms
proof (induction m arbitrary: es p)
  case (Suc m)
  show ?case
    using Suc.prems by (auto intro!: edge_good node_good Suc.IH simp: wf_elements_append)
qed simp

lemma pattern_good [parse_rules]:
  assumes "parser_ok s p" "rest_len p < n"
    "\<And>x p'. parser_ok s p' \<Longrightarrow> rest_len p' < rest_len p \<Longrightarrow> wf_elements (pat_elements x) \<Longrightarrow> Q x p'"
  shows "good s Q (parse_pattern n p)"
  using assms unfolding parse_pattern_def by (auto intro!: parse_rules)

lemma match_loop_good [parse_rules]:
  assumes "parser_ok s p" "rest_len p < m" "qs \<noteq> []" "list_all (\<lambda>q. wf_elements (pat_elements q)) qs"
    "\<And>x p'. parser_ok s p' \<Longrightarrow> rest_len p' \<le> rest_len p \<Longrightarrow> x \<noteq> [] \<Longrightarrow>
       list_all (\<lambda>q. wf_elements (pat_elements q)) x \<Longrightarrow> Q x p'"
  shows "good s Q (match_loop m qs p)"
  using assms
proof (induction m arbitrary: qs p)
  case (Suc m)
  show ?case
    using Suc.prems by (auto intro!: when_good pattern_good Suc.IH)
qed simp

lemma match_good [parse_rules]:
  assumes "parser_ok s p" "rest_len p < n"
    "\<And>x p'. parser_ok s p' \<Longrightarrow> rest_len p' < rest_len p \<Longrightarrow> wf_match x \<Longrightarrow> Q x p'"
  shows "good s Q (parse_match_clause n p)"
  using assms unfolding parse_match_clause_def by (auto intro!: parse_rules simp: wf_match_def)

lemma two_targets_good [parse_rules]:
  assumes "parser_ok s p" "kind p \<noteq> T_Eof"
    "\<And>a b p'. parser_ok s p' \<Longrightarrow> rest_len p' < rest_len p \<Longrightarrow> wf_target a \<Longrightarrow> wf_target b \<Longrightarrow> Q (c a b) p'"
  shows "good s Q (two_targets c p)"
  using assms unfolding two_targets_def by (auto intro!: parse_rules)

lemma traversal_good [parse_rules]:
  assumes "parser_ok s p"
    "\<And>x p'. parser_ok s p' \<Longrightarrow> rest_len p' < rest_len p \<Longrightarrow> wf_traversal x \<Longrightarrow> Q x p'"
  shows "good s Q (parse_traversal_clause p)"
  using assms unfolding parse_traversal_clause_def by (auto intro!: parse_rules)

lemma item_good [parse_rules]:
  assumes "parser_ok s p" "rest_len p < n"
    "\<And>x p'. parser_ok s p' \<Longrightarrow> rest_len p' < rest_len p \<Longrightarrow> wf_item x \<Longrightarrow> Q x p'"
  shows "good s Q (parse_projection_item n p)"
  using assms unfolding parse_projection_item_def by (auto intro!: parse_rules simp: wf_item_def)

lemma select_loop_good [parse_rules]:
  assumes "parser_ok s p" "rest_len p < m" "is \<noteq> []" "list_all wf_item is"
    "\<And>x p'. parser_ok s p' \<Longrightarrow> rest_len p' \<le> rest_len p \<Longrightarrow> x \<noteq> [] \<Longrightarrow> list_all wf_item x \<Longrightarrow> Q x p'"
  shows "good s Q (select_loop m is p)"
  using assms
proof (induction m arbitrary: "is" p)
  case (Suc m)
  show ?case
    using Suc.prems by (auto intro!: when_good item_good Suc.IH)
qed simp

lemma select_good [parse_rules]:
  assumes "parser_ok s p" "rest_len p < n"
    "\<And>x p'. parser_ok s p' \<Longrightarrow> rest_len p' < rest_len p \<Longrightarrow> wf_select x \<Longrightarrow> Q x p'"
  shows "good s Q (parse_select_clause n p)"
  using assms unfolding parse_select_clause_def by (auto intro!: parse_rules simp: wf_select_def)

lemma clause_good:
  assumes "parser_ok s p" "plain_kind k"
    "kind p = k \<Longrightarrow> good s (\<lambda>x p'. parser_ok s p' \<and> rest_len p' < rest_len p \<and> W x) (m p)"
    "\<And>x p'. parser_ok s p' \<Longrightarrow> rest_len p' \<le> rest_len p \<Longrightarrow> (x \<noteq> None \<longrightarrow> rest_len p' < rest_len p) \<Longrightarrow>
       opt_all W x \<Longrightarrow> Q x p'"
  shows "good s Q (p_clause k m p)"
proof (cases "kind p = k")
  case True
  have "good s (\<lambda>x p'. Q (Some x) p') (m p)"
    using good_mono [OF assms(3) [OF True]] assms(4) [of _ "Some _"] by (simp add: order_less_imp_le)
  with True show ?thesis by (simp add: p_clause_def check_plain [OF assms(2)])
next
  case False
  with assms show ?thesis by (simp add: p_clause_def check_plain)
qed

lemma query_good [parse_rules]:
  assumes "parser_ok s p" "rest_len p < n"
    "\<And>x p'. parser_ok s p' \<Longrightarrow> rest_len p' < rest_len p \<Longrightarrow> wf_query x \<Longrightarrow> Q x p'"
  shows "good s Q (parse_query_statement n p)"
  using assms unfolding parse_query_statement_def
  apply simp
  apply (rule clause_good [where W = "\<lambda>c. wf_target (cc_target c)"], assumption, simp)
   apply (auto intro!: parse_rules) []
  apply (rule clause_good [where W = wf_match], assumption, simp)
   apply (auto intro!: parse_rules) []
  apply (rule clause_good [where W = wf_traversal], assumption, simp)
   apply (auto intro!: parse_rules) []
  apply (rule clause_good [where W = wf_expr], assumption, simp)
   apply (auto intro!: parse_rules) []
  apply (rule clause_good [where W = wf_select], assumption, simp)
   apply (auto intro!: parse_rules) []
  apply (auto simp: wf_query_def)
  done

lemma statement_good:
  assumes "parser_ok s p" "rest_len p < n"
    "\<And>x p'. parser_ok s p' \<Longrightarrow> rest_len p' < rest_len p \<Longrightarrow> wf_statement x \<Longrightarrow> Q x p'"
  shows "good s Q (parse_statement n p)"
  using assms unfolding parse_statement_def by (auto intro!: version_good query_good)

section \<open>Whole sources\<close>

lemma parser_new_ok:
  assumes "tokenize s = Inr ts"
  shows "parser_ok s (parser_new s ts)" "rest_len (parser_new s ts) < length ts"
  using tiles_shape [OF tokenize_tiles [OF assms]] tiles_token_ok [OF tokenize_tiles [OF assms]]
  by (auto simp: parser_ok_def parser_new_def rest_len_def)

lemma tokenize_located:
  assumes "tokenize s = Inl e"
  shows "located s e"
proof -
  obtain ds where ds: "suffix ds (char_list s)" "located_error s ds e"
    using tokenize_error_at [OF assms] by (auto simp: suffix_def)
  with located_at [OF boundary_at [OF ds(1)]] show ?thesis
    by (auto simp: located_error_def)
qed

lemma good_cases:
  assumes "good s Q r"
  shows "(\<exists>x. fst r = Inr x \<and> Q x (snd r)) \<or> (\<exists>e. fst r = Inl (P_Err e) \<and> located s e)"
  using assms by (auto simp: good_def split: prod.splits sum.splits)

lemma semicolon_good:
  assumes "parser_ok s p" "\<And>p'. parser_ok s p' \<Longrightarrow> rest_len p' \<le> rest_len p \<Longrightarrow> Q () p'"
  shows "good s Q (p_when T_Semicolon (p_ok ()) (p_ok ()) p)"
  using assms by (auto intro!: when_good)

lemma script_loop_good:
  assumes "parser_ok s p" "rest_len p < m" "list_all wf_statement ss"
  shows "good s (\<lambda>x p'. list_all wf_statement x) (script_loop m ss p)"
  using assms
proof (induction m arbitrary: ss p)
  case (Suc m)
  show ?case
    using Suc.prems by (auto intro!: statement_good semicolon_good Suc.IH)
qed simp

text \<open>
  C28: on every source \<open>parse\<close> returns. The result is a well-formed statement: names are identifiers,
  commit references are one to 64 hexadecimal digits, patterns alternate nodes and edges, a query
  has a clause, maps have distinct sorted keys and integer literals avoid the least \<open>i64\<close>. Otherwise
  it is an error with the byte offset, line and column of a character of the source or of its end. There is no
  panic in slicing the source, and the fuel of one unit per token is enough.
\<close>

theorem parse_well_formed:
  "(\<exists>stmt. parse s = Inr stmt \<and> wf_statement stmt) \<or> (\<exists>e. parse s = Inl (P_Err e) \<and> located s e)"
proof (cases "tokenize s")
  case (Inl e)
  then show ?thesis
    using tokenize_located [OF Inl] by (simp add: parse_def)
next
  case (Inr ts)
  have "good s (\<lambda>x p. wf_statement x)
      (try_st (parse_statement (length ts)) (\<lambda>stmt. try_st expect_eof_or_semicolon (\<lambda>_. p_ok stmt))
        (parser_new s ts))"
    using parser_new_ok [OF Inr] unfolding expect_eof_or_semicolon_def
    by (auto intro!: statement_good semicolon_good)
  from good_cases [OF this] Inr show ?thesis
    by (simp add: parse_def)
qed

text \<open>
  C29: \<open>parse_script\<close> returns on every source, with well-formed statements or an error that has a
  position: each turn of its loop consumes a token.
\<close>

theorem parse_script_terminates:
  "(\<exists>stmts. parse_script s = Inr stmts \<and> list_all wf_statement stmts)
     \<or> (\<exists>e. parse_script s = Inl (P_Err e) \<and> located s e)"
proof (cases "tokenize s")
  case (Inl e)
  then show ?thesis
    using tokenize_located [OF Inl] by (simp add: parse_script_def)
next
  case (Inr ts)
  have "good s (\<lambda>x p. list_all wf_statement x) (script_loop (length ts) [] (parser_new s ts))"
    using parser_new_ok [OF Inr] by (intro script_loop_good) simp_all
  from good_cases [OF this] Inr show ?thesis
    by (simp add: parse_script_def)
qed

end
