(* ===== verification/Schema_Ddl.thy ===== *)
theory Schema_Ddl
  imports Ql_Statements
begin

text \<open>
  The parser for schema migrations (\<open>epochql/src/schema/ddl.rs\<close>). Its state and its methods
  \<open>current\<close>, \<open>check\<close>, \<open>bump\<close>, \<open>expect\<close> and \<open>error\<close> repeat those of the query parser, whose model
  is used for them.
\<close>

section \<open>Statements\<close>

datatype FieldType = FT_String | FT_Int | FT_Bool | FT_Bytes

definition field_type_parse :: "string \<Rightarrow> FieldType option" where
  "field_type_parse s =
     map_of [(''STRING'', FT_String), (''INT'', FT_Int), (''BOOL'', FT_Bool), (''BYTES'', FT_Bytes)]
       (to_ascii_uppercase s)"

datatype DdlStatement =
    CreateCollection string "(string \<times> FieldType) list"
  | CreateIndex string string FieldType
  | DropIndex string string

section \<open>Parsing\<close>

definition looks_like_name :: "Parser \<Rightarrow> bool" where
  "looks_like_name p \<longleftrightarrow>
     ident_lit (kind p) \<noteq> None \<or> kind p \<in> {T_Collection, T_Index, T_Key, T_Path}"

definition ddl_expect_name :: "string parse" where
  "ddl_expect_name p =
     (case ident_lit (kind p) of
        Some s \<Rightarrow> try_st p_bump (\<lambda>_. p_ok s) p
      | None \<Rightarrow>
         (case string_lit (kind p) of
            Some s \<Rightarrow> try_st p_bump (\<lambda>_. p_ok s) p
          | None \<Rightarrow>
              if looks_like_name p
              then try_st p_bump (\<lambda>_. p_slice (tok_offset (current p)) (tok_end (current p))) p
              else p_fail (Msg ''expected identifier'') p))"

primrec path_loop :: "nat \<Rightarrow> string list \<Rightarrow> string list parse" where
  "path_loop 0 parts p = (Inl P_Fuel, p)"
| "path_loop (Suc n) parts p =
     p_when T_Dot (try_st ddl_expect_name (\<lambda>s. path_loop n (parts @ [s]))) (p_ok parts) p"

definition expect_path :: "nat \<Rightarrow> string parse" where
  "expect_path n =
     try_st ddl_expect_name (\<lambda>s.
     try_st (path_loop n [s]) (\<lambda>parts. p_ok (join_with ''.'' parts)))"

definition expect_type :: "FieldType parse" where
  "expect_type p =
     (if kind p = T_TyString then try_st p_bump (\<lambda>_. p_ok FT_String) p
      else if kind p = T_TyInt then try_st p_bump (\<lambda>_. p_ok FT_Int) p
      else if kind p = T_TyBool then try_st p_bump (\<lambda>_. p_ok FT_Bool) p
      else if kind p = T_TyBytes then try_st p_bump (\<lambda>_. p_ok FT_Bytes) p
      else
        case ident_lit (kind p) of
          Some s \<Rightarrow>
            (case field_type_parse s of
               Some ty \<Rightarrow> try_st p_bump (\<lambda>_. p_ok ty) p
             | None \<Rightarrow> p_fail (Msg (''unknown type '' @ quoted s)) p)
        | None \<Rightarrow> p_fail (Msg ''expected STRING, INT, BOOL, or BYTES'') p)"

primrec key_loop :: "nat \<Rightarrow> (string \<times> FieldType) list \<Rightarrow> (string \<times> FieldType) list parse" where
  "key_loop 0 keys p = (Inl P_Fuel, p)"
| "key_loop (Suc n) keys p =
     try_st (expect_path (Suc n)) (\<lambda>path.
     try_st expect_type (\<lambda>ty.
     p_when T_Comma (key_loop n (keys @ [(path, ty)])) (p_ok (keys @ [(path, ty)])))) p"

definition parse_create_collection :: "nat \<Rightarrow> DdlStatement parse" where
  "parse_create_collection n =
     try_st (expect T_Collection) (\<lambda>_.
     try_st ddl_expect_name (\<lambda>name.
     try_st (expect T_Key) (\<lambda>_.
     try_st (key_loop n []) (\<lambda>keys. p_ok (CreateCollection name keys)))))"

definition string_or_path :: "nat \<Rightarrow> string parse" where
  "string_or_path n p =
     (case string_lit (kind p) of
        Some s \<Rightarrow> try_st p_bump (\<lambda>_. p_ok s) p
      | None \<Rightarrow> expect_path n p)"

definition ellipsis :: string where
  "ellipsis = [CHR 0xE2, CHR 0x80, CHR 0xA6]"

definition parse_create_index :: "nat \<Rightarrow> DdlStatement parse" where
  "parse_create_index n =
     try_st (expect T_Index) (\<lambda>_.
     try_st (expect T_On) (\<lambda>_.
     try_st ddl_expect_name (\<lambda>collection.
     p_when T_LParen
       (try_st (expect_path n) (\<lambda>path.
        try_st (expect T_RParen) (\<lambda>_. p_ok (CreateIndex collection path FT_String))))
       (p_when T_Path
         (try_st (string_or_path n) (\<lambda>path.
          try_st (expect T_TypeKw) (\<lambda>_.
          try_st expect_type (\<lambda>ty. p_ok (CreateIndex collection path ty)))))
         (p_fail (Msg (''expected (path) or PATH '' @ [CHR 0x22] @ ellipsis @ [CHR 0x22] @ '' TYPE '' @ ellipsis)))))))"

definition parse_drop_index :: "nat \<Rightarrow> DdlStatement parse" where
  "parse_drop_index n =
     try_st (expect T_On) (\<lambda>_.
     try_st ddl_expect_name (\<lambda>collection.
     p_when T_LParen
       (try_st (expect_path n) (\<lambda>path.
        try_st (expect T_RParen) (\<lambda>_. p_ok (DropIndex collection path))))
       (p_when T_Path
         (try_st (string_or_path n) (\<lambda>path. p_ok (DropIndex collection path)))
         (p_fail (Msg ''expected (path) or PATH after DROP INDEX ON'')))))"

definition ddl_parse_statement :: "nat \<Rightarrow> DdlStatement parse" where
  "ddl_parse_statement n p =
     (if kind p = T_Create then
        try_st p_bump (\<lambda>_ p.
          if kind p = T_Collection then parse_create_collection n p
          else if kind p = T_Index then parse_create_index n p
          else p_fail (Msg ''expected COLLECTION or INDEX after CREATE'') p) p
      else if kind p = T_Drop then
        try_st p_bump (\<lambda>_. try_st (expect T_Index) (\<lambda>_. parse_drop_index n)) p
      else p_fail (Msg ''expected CREATE or DROP'') p)"

primrec migration_loop :: "nat \<Rightarrow> DdlStatement list \<Rightarrow> DdlStatement list parse" where
  "migration_loop 0 stmts p = (Inl P_Fuel, p)"
| "migration_loop (Suc n) stmts p =
     (if is_eof p then p_ok stmts p
      else if check p T_Semicolon then try_st p_bump (\<lambda>_. migration_loop n stmts) p
      else
        try_st (ddl_parse_statement (Suc n)) (\<lambda>stmt.
        try_st (p_when T_Semicolon (p_ok ()) (p_ok ())) (\<lambda>_.
        migration_loop n (stmts @ [stmt]))) p)"

definition parse_migration :: "string \<Rightarrow> parse_failure + DdlStatement list" where
  "parse_migration source =
     try_res (map_err P_Err (tokenize source)) (\<lambda>tokens.
       fst (migration_loop (length tokens) [] (parser_new source tokens)))"

section \<open>Every migration file is parsed or rejected at a position\<close>

fun wf_ddl :: "DdlStatement \<Rightarrow> bool" where
  "wf_ddl (CreateCollection name keys) \<longleftrightarrow> keys \<noteq> []"
| "wf_ddl _ \<longleftrightarrow> True"

lemma ddl_plain_kinds [simp]:
  "plain_kind T_Collection" "plain_kind T_Key" "plain_kind T_Index" "plain_kind T_On" "plain_kind T_TypeKw"
  by (simp_all add: plain_kind_def ident_lit_def string_lit_def int_lit_def float_lit_def)

lemma lit_not_Eof:
  "ident_lit (kind p) = Some v \<Longrightarrow> kind p \<noteq> T_Eof" "string_lit (kind p) = Some v \<Longrightarrow> kind p \<noteq> T_Eof"
  by (auto simp: lit_Some)

lemma ddl_name_good [parse_rules]:
  assumes "parser_ok s p" "\<And>w p'. parser_ok s p' \<Longrightarrow> rest_len p' < rest_len p \<Longrightarrow> Q w p'"
  shows "good s Q (ddl_expect_name p)"
proof -
  have tok: "token_ok s (current p)"
    using current_in [OF assms(1)] assms(1) by (simp add: parser_ok_def)
  have "looks_like_name p \<Longrightarrow> kind p \<noteq> T_Eof"
    by (auto simp: looks_like_name_def lit_Some)
  with assms show ?thesis
    by (auto simp: ddl_expect_name_def slice_good [OF _ tok] split: option.split
        intro!: bump_good dest: lit_not_Eof)
qed

lemma path_loop_good [parse_rules]:
  assumes "parser_ok s p" "rest_len p < m"
    "\<And>x p'. parser_ok s p' \<Longrightarrow> rest_len p' \<le> rest_len p \<Longrightarrow> Q x p'"
  shows "good s Q (path_loop m parts p)"
  using assms
proof (induction m arbitrary: parts p)
  case (Suc m)
  show ?case
    using Suc.prems by (auto intro!: parse_rules Suc.IH)
qed simp

lemma expect_path_good [parse_rules]:
  assumes "parser_ok s p" "rest_len p \<le> n" "\<And>x p'. parser_ok s p' \<Longrightarrow> rest_len p' < rest_len p \<Longrightarrow> Q x p'"
  shows "good s Q (expect_path n p)"
  using assms unfolding expect_path_def by (auto intro!: parse_rules)

lemma expect_type_good [parse_rules]:
  assumes "parser_ok s p" "\<And>x p'. parser_ok s p' \<Longrightarrow> rest_len p' < rest_len p \<Longrightarrow> Q x p'"
  shows "good s Q (expect_type p)"
  using assms unfolding expect_type_def
  by (auto intro!: bump_good split: option.split dest: lit_not_Eof)

lemma key_loop_good [parse_rules]:
  assumes "parser_ok s p" "rest_len p < m"
    "\<And>x p'. parser_ok s p' \<Longrightarrow> rest_len p' < rest_len p \<Longrightarrow> x \<noteq> [] \<Longrightarrow> Q x p'"
  shows "good s Q (key_loop m ks p)"
  using assms
proof (induction m arbitrary: ks p)
  case (Suc m)
  show ?case
    using Suc.prems by (auto intro!: parse_rules Suc.IH)
qed simp

lemma string_or_path_good [parse_rules]:
  assumes "parser_ok s p" "rest_len p \<le> n" "\<And>x p'. parser_ok s p' \<Longrightarrow> rest_len p' < rest_len p \<Longrightarrow> Q x p'"
  shows "good s Q (string_or_path n p)"
  using assms unfolding string_or_path_def
  by (auto intro!: bump_good expect_path_good split: option.split dest: lit_not_Eof)

lemma ddl_statement_good [parse_rules]:
  assumes "parser_ok s p" "rest_len p < n"
    "\<And>x p'. parser_ok s p' \<Longrightarrow> rest_len p' < rest_len p \<Longrightarrow> wf_ddl x \<Longrightarrow> Q x p'"
  shows "good s Q (ddl_parse_statement n p)"
  using assms
  unfolding ddl_parse_statement_def parse_create_collection_def parse_create_index_def parse_drop_index_def
  by (auto intro!: parse_rules)

lemma migration_loop_good:
  assumes "parser_ok s p" "rest_len p < m" "list_all wf_ddl ss"
  shows "good s (\<lambda>x p'. list_all wf_ddl x) (migration_loop m ss p)"
  using assms
proof (induction m arbitrary: ss p)
  case (Suc m)
  show ?case
    using Suc.prems by (auto simp: check_plain is_eof_def intro!: bump_good ddl_statement_good semicolon_good Suc.IH)
qed simp

lemma parse_migration_good:
  "(\<exists>stmts. parse_migration s = Inr stmts \<and> list_all wf_ddl stmts)
     \<or> (\<exists>e. parse_migration s = Inl (P_Err e) \<and> located s e)"
proof (cases "tokenize s")
  case (Inl e)
  then show ?thesis
    using tokenize_located [OF Inl] by (simp add: parse_migration_def)
next
  case (Inr ts)
  have "good s (\<lambda>x p. list_all wf_ddl x) (migration_loop (length ts) [] (parser_new s ts))"
    using parser_new_ok [OF Inr] by (intro migration_loop_good) simp_all
  from good_cases [OF this] Inr show ?thesis
    by (simp add: parse_migration_def)
qed

text \<open>C24: parsing a migration file always returns, without a panic: statements, each collection with
  at least one key, or an error with its position in the file.\<close>

theorem parse_migration_total:
  "(\<exists>stmts. parse_migration s = Inr stmts \<and> list_all wf_ddl stmts)
     \<or> (\<exists>e. parse_migration s = Inl (P_Err e) \<and> located s e)"
  by (rule parse_migration_good)

end
