(* ===== verification/Schema_Registry.thy ===== *)
theory Schema_Registry
  imports Rust_Fmt Repo Schema_Ddl
begin

text \<open>
  The schema registry and its file \<open>schema.state\<close> (\<open>epochql/src/schema/registry.rs\<close>), and the name of an
  index (\<open>epochql/src/schema/index.rs\<close>).
\<close>

section \<open>Registries\<close>

record FieldDef =
  fd_path :: string
  fd_type :: FieldType

record IndexDef =
  ix_name :: string
  ix_path :: string
  ix_type :: FieldType

record CollectionSchema =
  cs_name :: string
  cs_primary_key :: "FieldDef list"
  cs_indexes :: "IndexDef list"

record SchemaRegistry =
  collections :: "(string \<times> CollectionSchema) list"

definition registry_new :: SchemaRegistry where
  "registry_new = \<lparr>collections = []\<rparr>"

definition all_indexes :: "SchemaRegistry \<Rightarrow> IndexDef list" where
  "all_indexes r = concat (map (\<lambda>(_, c). cs_indexes c) (collections r))"

definition index_name_for :: "string \<Rightarrow> string \<Rightarrow> string" where
  "index_name_for collection path =
     collection @ ''.by_'' @ map (\<lambda>c. if c = CHR ''.'' then CHR ''_'' else c) path"

definition show_field_type :: "FieldType \<Rightarrow> string" where
  "show_field_type ty =
     (case ty of FT_String \<Rightarrow> ''STRING'' | FT_Int \<Rightarrow> ''INT'' | FT_Bool \<Rightarrow> ''BOOL'' | FT_Bytes \<Rightarrow> ''BYTES'')"

section \<open>Text form\<close>

definition em_dash :: string where
  "em_dash = [CHR 0xE2, CHR 0x80, CHR 0x94]"

definition state_header :: string where
  "state_header = ''# epochs schema.state '' @ em_dash @ '' generated; prefer .eql migrations''"

definition key_line :: "FieldDef \<Rightarrow> string" where
  "key_line k = ''KEY '' @ fd_path k @ '' '' @ show_field_type (fd_type k)"

definition index_line :: "IndexDef \<Rightarrow> string" where
  "index_line i = ''INDEX '' @ ix_name i @ '' PATH '' @ ix_path i @ '' TYPE '' @ show_field_type (ix_type i)"

definition collection_lines :: "CollectionSchema \<Rightarrow> string list" where
  "collection_lines c =
     (''COLLECTION '' @ cs_name c) # map key_line (cs_primary_key c) @ map index_line (cs_indexes c)"

definition to_state_file :: "SchemaRegistry \<Rightarrow> string" where
  "to_state_file r =
     concat (map (\<lambda>l. l @ newline) (state_header # concat (map (\<lambda>(_, c). collection_lines c) (collections r))))"

definition ok_or :: "'a option \<Rightarrow> 'e \<Rightarrow> 'e + 'a" where
  "ok_or x e = (case x of Some a \<Rightarrow> Inr a | None \<Rightarrow> Inl e)"

definition part_at :: "'a list \<Rightarrow> nat \<Rightarrow> 'a option" where
  "part_at xs i = (if i < length xs then Some (xs ! i) else None)"

definition state_error :: "nat \<Rightarrow> string \<Rightarrow> ParseError" where
  "state_error lineno msg = parse_error_at 0 (Msg (''schema.state line '' @ show_nat (lineno + 1) @ '': '' @ msg))"

definition empty_collection :: "string \<Rightarrow> CollectionSchema" where
  "empty_collection name = \<lparr>cs_name = name, cs_primary_key = [], cs_indexes = []\<rparr>"

type_synonym state_parse = "SchemaRegistry \<times> string option"

definition state_collection :: "nat \<Rightarrow> string list \<Rightarrow> state_parse \<Rightarrow> ParseError + state_parse" where
  "state_collection n parts = (\<lambda>(r, current).
     try_res (ok_or (part_at parts 1) (state_error n ''expected collection name'')) (\<lambda>name.
     Inr (r\<lparr>collections := bt_insert name (empty_collection name) (collections r)\<rparr>, Some name)))"

definition state_key :: "nat \<Rightarrow> string list \<Rightarrow> state_parse \<Rightarrow> ParseError + state_parse" where
  "state_key n parts = (\<lambda>(r, current).
     try_res (ok_or current (state_error n ''KEY outside COLLECTION'')) (\<lambda>coll.
     try_res (ok_or (part_at parts 1) (state_error n ''expected KEY path'')) (\<lambda>path.
     try_res (ok_or (part_at parts 2) (state_error n ''expected KEY type'')) (\<lambda>ty.
     try_res (ok_or (field_type_parse ty) (state_error n (''unknown type '' @ quoted ty))) (\<lambda>field_type.
     try_res (ok_or (map_of (collections r) coll) (state_error n ''missing collection'')) (\<lambda>c.
     Inr (r\<lparr>collections := bt_insert coll
            (c\<lparr>cs_primary_key := cs_primary_key c @ [\<lparr>fd_path = path, fd_type = field_type\<rparr>]\<rparr>)
            (collections r)\<rparr>, current)))))))"

definition state_index :: "nat \<Rightarrow> string list \<Rightarrow> state_parse \<Rightarrow> ParseError + state_parse" where
  "state_index n parts = (\<lambda>(r, current).
     try_res (ok_or (part_at parts 1) (state_error n ''expected INDEX name'')) (\<lambda>name.
     if part_at parts 2 \<noteq> Some ''PATH'' then Inl (state_error n ''expected PATH after index name'') else
     try_res (ok_or (part_at parts 3) (state_error n ''expected index path'')) (\<lambda>path.
     if part_at parts 4 \<noteq> Some ''TYPE'' then Inl (state_error n ''expected TYPE after path'') else
     try_res (ok_or (part_at parts 5) (state_error n ''expected type'')) (\<lambda>ty.
     try_res (ok_or (field_type_parse ty) (state_error n (''unknown type '' @ quoted ty))) (\<lambda>field_type.
     let coll = hd (split_at (CHR ''.'') name);
         c = (case map_of (collections r) coll of Some c \<Rightarrow> c | None \<Rightarrow> empty_collection coll) in
     Inr (r\<lparr>collections := bt_insert coll
            (c\<lparr>cs_indexes := cs_indexes c @ [\<lparr>ix_name = name, ix_path = path, ix_type = field_type\<rparr>]\<rparr>)
            (collections r)\<rparr>, current))))))"

definition state_line :: "nat \<Rightarrow> string \<Rightarrow> state_parse \<Rightarrow> ParseError + state_parse" where
  "state_line n raw st =
     (let line = trim raw in
      if line = [] \<or> hd line = CHR ''#'' then Inr st
      else
        (case split_whitespace line of
           [] \<Rightarrow> Inr st
         | w # ws \<Rightarrow>
             if w = ''COLLECTION'' then state_collection n (w # ws) st
             else if w = ''KEY'' then state_key n (w # ws) st
             else if w = ''INDEX'' then state_index n (w # ws) st
             else Inl (state_error n (''unknown directive '' @ quoted w))))"

primrec state_loop :: "nat \<Rightarrow> string list \<Rightarrow> state_parse \<Rightarrow> ParseError + state_parse" where
  "state_loop n [] st = Inr st"
| "state_loop n (l # ls) st = try_res (state_line n l st) (state_loop (Suc n) ls)"

definition registry_parse :: "string \<Rightarrow> ParseError + SchemaRegistry" where
  "registry_parse src = try_res (state_loop 0 (str_lines src) (registry_new, None)) (\<lambda>(r, _). Inr r)"

section \<open>The file\<close>

text \<open>\<open>map_err(|e| ParseError::new(format!("what: {e}")))\<close> on a result of the file system.\<close>

definition wrap_io :: "string \<Rightarrow> 'a res \<Rightarrow> parse_failure + 'a" where
  "wrap_io what = map_err (\<lambda>f.
     case f of
       Err (Io t) \<Rightarrow> P_Err (parse_error_new (Msg (what @ '': '' @ t)))
     | _ \<Rightarrow> P_Panic)"

definition read_text :: "path \<Rightarrow> Fs \<Rightarrow> string res" where
  "read_text p fs = try_res (fs_read p fs) read_to_string"

definition registry_load :: "path \<Rightarrow> Fs \<Rightarrow> parse_failure + SchemaRegistry" where
  "registry_load rp fs =
     (if \<not> fs_exists fs (rp @ [''schema.state'']) then Inr registry_new
      else try_res (wrap_io ''read schema.state'' (read_text (rp @ [''schema.state'']) fs)) (\<lambda>src.
           map_err P_Err (registry_parse src)))"

definition io_op :: "string \<Rightarrow> (Fs, 'a) op \<Rightarrow> Fs \<Rightarrow> (parse_failure + 'a) \<times> Fs" where
  "io_op what m fs = (case m fs of (r, fs) \<Rightarrow> (wrap_io what r, fs))"

text \<open>
  \<open>fs::write\<close> on a device that can fail: a device says for each file whether writing it is refused, or
  breaks off after some bytes (the file was truncated first), and with which message.
\<close>

datatype fault = Denied string | Short nat string

type_synonym device = "path \<Rightarrow> fault option"

definition dev_write :: "device \<Rightarrow> path \<Rightarrow> bytes \<Rightarrow> (Fs, unit) op" where
  "dev_write dev p b fs =
     (case fs_write p b fs of
        (Inl e, _) \<Rightarrow> (Inl e, fs)
      | (Inr _, fs') \<Rightarrow>
          (case dev p of
             None \<Rightarrow> (Inr (), fs')
           | Some (Denied t) \<Rightarrow> (Inl (Err (Io t)), fs)
           | Some (Short n t) \<Rightarrow>
               if n < length b then (Inl (Err (Io t)), fs_set p (File (take n b)) fs) else (Inr (), fs')))"

definition registry_save :: "device \<Rightarrow> path \<Rightarrow> SchemaRegistry \<Rightarrow> Fs \<Rightarrow> (parse_failure + unit) \<times> Fs" where
  "registry_save dev rp r =
     io_op ''write schema.state'' (dev_write dev (rp @ [''schema.state'']) (as_bytes_str (to_state_file r)))"

section \<open>Lines of words\<close>

definition plain_word :: "string \<Rightarrow> bool" where
  "plain_word w \<longleftrightarrow> w \<noteq> [] \<and> (\<forall>c \<in> set w. printable c)"

lemma printable_ascii_char: "printable c \<Longrightarrow> ascii_char c"
  by (simp add: printable_def ascii_char_def)

lemma printable_not_ws: "printable c \<Longrightarrow> \<not> is_whitespace [c]"
  using ws_no_printable by (fastforce simp: is_whitespace_def)

lemma space_is_ws: "is_whitespace '' ''"
  by (simp add: is_whitespace_def ws_encodings_def)

lemma words_from_word:
  "\<forall>c \<in> set w. printable c \<Longrightarrow> words_from (map (\<lambda>c. [c]) w @ cs) acc = words_from cs (acc @ w)"
  by (induction w arbitrary: acc) (simp_all add: printable_not_ws)

lemma char_list_word:
  "\<forall>c \<in> set w. printable c \<Longrightarrow> char_list (w @ s) = map (\<lambda>c. [c]) w @ char_list s"
  by (simp add: char_list_ascii_append printable_ascii_char)

lemma split_last_word: "plain_word w \<Longrightarrow> split_whitespace w = [w]"
  using char_list_word [of w "[]"] words_from_word [of w "[]" "[]"]
  by (simp add: plain_word_def split_whitespace_def)

lemma split_first_word:
  assumes "plain_word w"
  shows "split_whitespace (w @ CHR '' '' # s) = w # split_whitespace s"
proof -
  have "char_list (CHR '' '' # s) = '' '' # char_list s"
    by (rule char_list_ascii) (simp add: ascii_char_def)
  then show ?thesis
    using assms char_list_word [of w "CHR '' '' # s"] words_from_word [of w "'' '' # char_list s" "[]"] space_is_ws
    by (simp add: plain_word_def split_whitespace_def del: char_list.simps)
qed

lemma trim_ends:
  assumes "s \<noteq> []" "printable (hd s)" "printable (last s)"
  shows "trim s = s"
proof -
  have "trim_end s = s"
    using trim_end_printable [of "last s" "[]" "butlast s"] assms
    by (simp add: trim_end_def trim_with_id starts_none_Nil)
  then show ?thesis
    using trim_start_printable [of "hd s" "tl s"] assms by (simp add: trim_def)
qed

definition plain_line :: "string \<Rightarrow> bool" where
  "plain_line l \<longleftrightarrow> CHR 0x0A \<notin> set l \<and> l \<noteq> [] \<and> last l \<noteq> CHR 0x0D"

lemma str_lines_Cons: "plain_line l \<Longrightarrow> str_lines (l @ newline @ s) = l # str_lines s"
  by (simp add: str_lines_def plain_line_def newline_def split_at_Cons_sep strip_cr_def Let_def)

lemma str_lines_concat: "list_all plain_line ls \<Longrightarrow> str_lines (concat (map (\<lambda>l. l @ newline) ls)) = ls"
  by (induction ls) (simp_all add: str_lines_Cons, simp add: str_lines_def)

lemma plain_word_chars: "plain_word w \<Longrightarrow> CHR 0x0A \<notin> set w \<and> CHR '' '' \<notin> set w \<and> w \<noteq> [] \<and> printable (last w)"
  by (auto simp: plain_word_def printable_def)

lemma plain_lineI:
  assumes "CHR 0x0A \<notin> set l" "plain_word w"
  shows "plain_line (l @ w)"
proof -
  have "last w \<noteq> CHR 0x0D"
    using plain_word_chars [OF assms(2)] by (auto simp: printable_def)
  then show ?thesis
    using assms(1) plain_word_chars [OF assms(2)] by (simp add: plain_line_def)
qed

lemma plain_type: "plain_word (show_field_type ty)"
  by (cases ty) (simp_all add: show_field_type_def plain_word_def printable_def)

lemma field_type_roundtrip: "field_type_parse (show_field_type ty) = Some ty"
  by (cases ty) (simp_all add: show_field_type_def field_type_parse_def to_ascii_uppercase_def to_ascii_upper_def)

section \<open>The file holds the registry\<close>

text \<open>Names of printable characters; the text before the first dot of an index name is its collection.\<close>

definition collection_ok :: "string \<Rightarrow> CollectionSchema \<Rightarrow> bool" where
  "collection_ok name c \<longleftrightarrow>
     cs_name c = name \<and> plain_word name \<and> CHR ''.'' \<notin> set name
     \<and> (\<forall>f \<in> set (cs_primary_key c). plain_word (fd_path f))
     \<and> (\<forall>i \<in> set (cs_indexes c). plain_word (ix_name i) \<and> plain_word (ix_path i)
           \<and> hd (split_at (CHR ''.'') (ix_name i)) = name)"

definition registry_ok :: "SchemaRegistry \<Rightarrow> bool" where
  "registry_ok r \<longleftrightarrow>
     sorted_map (collections r) \<and> (\<forall>(name, c) \<in> set (collections r). collection_ok name c)"

lemma state_line_words:
  assumes "plain_word w" "plain_word v" "hd w \<noteq> CHR ''#''"
  shows "state_line n (w @ CHR '' '' # s @ v) st =
    (if w = ''COLLECTION'' then state_collection n (w # split_whitespace (s @ v)) st
     else if w = ''KEY'' then state_key n (w # split_whitespace (s @ v)) st
     else if w = ''INDEX'' then state_index n (w # split_whitespace (s @ v)) st
     else Inl (state_error n (''unknown directive '' @ quoted w)))"
proof -
  have "trim (w @ CHR '' '' # s @ v) = w @ CHR '' '' # s @ v"
    using assms(1,2) plain_word_chars [OF assms(2)] by (intro trim_ends) (auto simp: plain_word_def)
  moreover have "hd (w @ CHR '' '' # s @ v) \<noteq> CHR ''#''"
    using assms(1,3) by (simp add: plain_word_def)
  ultimately show ?thesis
    by (simp add: state_line_def split_first_word [OF assms(1)])
qed

lemma directive_words [simp]: "plain_word ''COLLECTION''" "plain_word ''KEY''" "plain_word ''INDEX''" "plain_word ''PATH''" "plain_word ''TYPE''"
  by (simp_all add: plain_word_def printable_def)

lemma defs_eta [simp]:
  "\<lparr>fd_path = fd_path k, fd_type = fd_type k\<rparr> = (k :: FieldDef)"
  "\<lparr>ix_name = ix_name i, ix_path = ix_path i, ix_type = ix_type i\<rparr> = (i :: IndexDef)"
  by simp_all

lemma collection_line:
  assumes "plain_word name"
  shows "state_line n (''COLLECTION '' @ name) (r, cur) =
    Inr (r\<lparr>collections := bt_insert name (empty_collection name) (collections r)\<rparr>, Some name)"
  using state_line_words [of "''COLLECTION''" name n "[]"] assms
  by (simp add: split_last_word state_collection_def part_at_def ok_or_def)

lemma key_line_read:
  assumes "plain_word (fd_path k)" "map_of (collections r) name = Some c"
  shows "state_line n (key_line k) (r, Some name) =
    Inr (r\<lparr>collections := bt_insert name (c\<lparr>cs_primary_key := cs_primary_key c @ [k]\<rparr>) (collections r)\<rparr>, Some name)"
proof -
  have "key_line k = ''KEY'' @ CHR '' '' # (fd_path k @ '' '') @ show_field_type (fd_type k)"
    by (simp add: key_line_def)
  then show ?thesis
    using state_line_words [of "''KEY''" "show_field_type (fd_type k)" n "fd_path k @ '' ''"] assms
    by (simp add: plain_type split_first_word split_last_word state_key_def part_at_def ok_or_def field_type_roundtrip)
qed

lemma index_line_read:
  assumes "plain_word (ix_name i)" "plain_word (ix_path i)" "hd (split_at (CHR ''.'') (ix_name i)) = name"
    and "map_of (collections r) name = Some c"
  shows "state_line n (index_line i) (r, cur) =
    Inr (r\<lparr>collections := bt_insert name (c\<lparr>cs_indexes := cs_indexes c @ [i]\<rparr>) (collections r)\<rparr>, cur)"
proof -
  let ?mid = "ix_name i @ CHR '' '' # ''PATH'' @ CHR '' '' # ix_path i @ CHR '' '' # ''TYPE'' @ '' ''"
  have line: "index_line i = ''INDEX'' @ CHR '' '' # ?mid @ show_field_type (ix_type i)"
    by (simp add: index_line_def)
  have "split_whitespace (?mid @ show_field_type (ix_type i)) =
      [ix_name i, ''PATH'', ix_path i, ''TYPE'', show_field_type (ix_type i)]"
    using split_first_word [of "''PATH''"] split_first_word [of "''TYPE''"]
    by (simp add: assms split_first_word split_last_word plain_type)
  then have "state_line n (index_line i) (r, cur) =
      state_index n [''INDEX'', ix_name i, ''PATH'', ix_path i, ''TYPE'', show_field_type (ix_type i)] (r, cur)"
    unfolding line by (subst state_line_words) (simp_all add: plain_type)
  then show ?thesis
    using assms(3,4) by (simp add: state_index_def part_at_def ok_or_def field_type_roundtrip Let_def)
qed

lemma bt_insert_at_last:
  "\<forall>k \<in> fst ` set m. k < name \<Longrightarrow> bt_insert name c' (m @ [(name, c)]) = m @ [(name, c')]"
  by (induction m) auto

lemma map_of_at_last:
  fixes name :: string
  shows "\<forall>k \<in> fst ` set m. k < name \<Longrightarrow> map_of (m @ [(name, c)]) name = Some c"
  by (induction m) auto

lemma state_loop_append:
  "state_loop n (xs @ ys) st = try_res (state_loop n xs st) (state_loop (n + length xs) ys)"
proof (induction xs arbitrary: n st)
  case (Cons x xs)
  then show ?case by (cases "state_line n x st") simp_all
qed simp

lemma key_lines_read:
  assumes "\<forall>k \<in> fst ` set m. k < name" "\<forall>f \<in> set ks. plain_word (fd_path f)"
  shows "state_loop n (map key_line ks) (r\<lparr>collections := m @ [(name, c)]\<rparr>, Some name) =
    Inr (r\<lparr>collections := m @ [(name, c\<lparr>cs_primary_key := cs_primary_key c @ ks\<rparr>)]\<rparr>, Some name)"
  using assms(2)
proof (induction ks arbitrary: n c)
  case (Cons k ks)
  then show ?case
    using assms(1) by (simp add: key_line_read [where c = c] map_of_at_last bt_insert_at_last del: map_of_append)
qed simp

lemma index_lines_read:
  assumes "\<forall>k \<in> fst ` set m. k < name"
    and "\<forall>i \<in> set is. plain_word (ix_name i) \<and> plain_word (ix_path i) \<and> hd (split_at (CHR ''.'') (ix_name i)) = name"
  shows "state_loop n (map index_line is) (r\<lparr>collections := m @ [(name, c)]\<rparr>, cur) =
    Inr (r\<lparr>collections := m @ [(name, c\<lparr>cs_indexes := cs_indexes c @ is\<rparr>)]\<rparr>, cur)"
  using assms(2)
proof (induction "is" arbitrary: n c)
  case (Cons i "is")
  then show ?case
    using assms(1)
    by (simp add: index_line_read [where name = name and c = c] map_of_at_last bt_insert_at_last del: map_of_append)
qed simp

lemma collection_lines_read:
  assumes "collection_ok name c" "\<forall>k \<in> fst ` set (collections r). k < name"
  shows "state_loop n (collection_lines c) (r, cur) =
    Inr (r\<lparr>collections := collections r @ [(name, c)]\<rparr>, Some name)"
proof -
  have c: "cs_name c = name" "plain_word name" "\<forall>f \<in> set (cs_primary_key c). plain_word (fd_path f)"
    "\<forall>i \<in> set (cs_indexes c). plain_word (ix_name i) \<and> plain_word (ix_path i) \<and> hd (split_at (CHR ''.'') (ix_name i)) = name"
    using assms(1) by (auto simp: collection_ok_def)
  have "empty_collection name\<lparr>cs_primary_key := cs_primary_key c, cs_indexes := cs_indexes c\<rparr> = c"
    using c(1) by (simp add: empty_collection_def)
  moreover have "bt_insert name (empty_collection name) (collections r) = collections r @ [(name, empty_collection name)]"
    using assms(2) by (rule bt_insert_last)
  moreover have "cs_primary_key (empty_collection name) = []" "cs_indexes (empty_collection name\<lparr>cs_primary_key := ks\<rparr>) = []" for ks
    by (simp_all add: empty_collection_def)
  ultimately show ?thesis
    using collection_line [OF c(2)] key_lines_read [OF assms(2) c(3)] index_lines_read [OF assms(2) c(4)] c(1)
    by (simp add: collection_lines_def state_loop_append)
qed

lemma collections_read:
  assumes "sorted_map (m @ cs)" "\<forall>(name, c) \<in> set cs. collection_ok name c"
  shows "\<exists>cur'. state_loop n (concat (map (\<lambda>(_, c). collection_lines c) cs)) (\<lparr>collections = m\<rparr>, cur) =
    Inr (\<lparr>collections = m @ cs\<rparr>, cur')"
  using assms
proof (induction cs arbitrary: m n cur)
  case (Cons x cs)
  obtain name c where x: "x = (name, c)" by force
  have "\<forall>k \<in> fst ` set m. k < name"
    using Cons.prems(1) x by (auto simp: sorted_map_def sorted_wrt_append)
  then have "state_loop n (collection_lines c) (\<lparr>collections = m\<rparr>, cur) = Inr (\<lparr>collections = m @ [x]\<rparr>, Some name)" for n
    using collection_lines_read [of name c "\<lparr>collections = m\<rparr>" n cur] Cons.prems(2) x by simp
  moreover have "\<exists>cur'. state_loop n' (concat (map (\<lambda>(_, c). collection_lines c) cs)) (\<lparr>collections = m @ [x]\<rparr>, Some name) =
      Inr (\<lparr>collections = (m @ [x]) @ cs\<rparr>, cur')" for n'
    using Cons.prems by (intro Cons.IH) simp_all
  ultimately show ?case
    using x by (simp add: state_loop_append)
qed simp

lemma key_line_plain: "plain_word (fd_path k) \<Longrightarrow> plain_line (key_line k)"
  using plain_lineI [OF _ plain_type, of "''KEY '' @ fd_path k @ '' ''" "fd_type k"]
  by (auto simp: key_line_def dest: plain_word_chars)

lemma index_line_plain: "plain_word (ix_name i) \<Longrightarrow> plain_word (ix_path i) \<Longrightarrow> plain_line (index_line i)"
  using plain_lineI [OF _ plain_type, of "''INDEX '' @ ix_name i @ '' PATH '' @ ix_path i @ '' TYPE ''" "ix_type i"]
  by (auto simp: index_line_def dest: plain_word_chars)

lemma collection_lines_plain: "collection_ok name c \<Longrightarrow> list_all plain_line (collection_lines c)"
  using plain_lineI [of "''COLLECTION ''" name] key_line_plain index_line_plain
  by (auto simp: collection_ok_def collection_lines_def list_all_iff)

lemma header_line: "plain_line state_header" "state_line n state_header st = Inr st"
proof -
  show "plain_line state_header"
    by (simp add: plain_line_def state_header_def em_dash_def)
  have "trim state_header = state_header"
    by (rule trim_ends) (simp_all add: state_header_def em_dash_def printable_def)
  then show "state_line n state_header st = Inr st"
    by (simp add: state_line_def state_header_def)
qed

lemma registry_text_roundtrip:
  assumes "registry_ok r"
  shows "registry_parse (to_state_file r) = Inr r"
proof -
  let ?ls = "concat (map (\<lambda>(_, c). collection_lines c) (collections r))"
  have "list_all plain_line (state_header # ?ls)"
    using assms collection_lines_plain header_line(1) by (fastforce simp: registry_ok_def list_all_iff)
  then have "str_lines (to_state_file r) = state_header # ?ls"
    unfolding to_state_file_def by (rule str_lines_concat)
  moreover have "\<exists>cur'. state_loop 1 ?ls (\<lparr>collections = []\<rparr>, None) = Inr (\<lparr>collections = [] @ collections r\<rparr>, cur')"
    using assms by (intro collections_read) (simp_all add: registry_ok_def)
  ultimately show ?thesis
    by (auto simp: registry_parse_def registry_new_def header_line(2))
qed

text \<open>Names with a space.\<close>

lemma index_name_word:
  assumes "plain_word b" "plain_word path"
  shows "plain_word (index_name_for b path)" "index_name_for b path \<noteq> ''PATH''"
proof -
  show "plain_word (index_name_for b path)"
    using assms by (auto simp: plain_word_def index_name_for_def printable_def)
  have "CHR ''.'' \<in> set (index_name_for b path)"
    by (simp add: index_name_for_def)
  then show "index_name_for b path \<noteq> ''PATH''"
    by auto
qed

lemma index_line_spaced:
  assumes "ix_name i = a @ '' '' @ w" "plain_word a" "plain_word w" "w \<noteq> ''PATH''" "plain_word (ix_path i)"
  shows "state_line n (index_line i) st = Inl (state_error n ''expected PATH after index name'')" "plain_line (index_line i)"
proof -
  let ?tail = "''PATH'' @ CHR '' '' # ix_path i @ CHR '' '' # ''TYPE'' @ '' ''"
  let ?mid = "a @ CHR '' '' # w @ CHR '' '' # ?tail"
  have line: "index_line i = ''INDEX'' @ CHR '' '' # ?mid @ show_field_type (ix_type i)"
    by (simp add: index_line_def assms(1))
  have "split_whitespace (?mid @ show_field_type (ix_type i)) =
      a # w # split_whitespace (?tail @ show_field_type (ix_type i))"
    by (simp add: split_first_word assms(2,3))
  then have "state_line n (index_line i) st =
      state_index n (''INDEX'' # a # w # split_whitespace (?tail @ show_field_type (ix_type i))) st"
    unfolding line by (subst state_line_words) (simp_all add: plain_type)
  then show "state_line n (index_line i) st = Inl (state_error n ''expected PATH after index name'')"
    using assms(4) by (cases st) (simp add: state_index_def part_at_def ok_or_def)
  show "plain_line (index_line i)"
    using plain_lineI [OF _ plain_type, of "''INDEX '' @ ix_name i @ '' PATH '' @ ix_path i @ '' TYPE ''" "ix_type i"] assms
    by (auto simp: index_line_def dest: plain_word_chars)
qed

text \<open>C23: the schema file has one word per name and no quoting. Take a registry with one collection whose
  name, which a migration can give as a string, is two words. If the collection has no index, the file
  is read back as a collection of another name, its first word; if it has indexes, named as
  \<open>CREATE INDEX\<close> names them, the file cannot be read back at all.\<close>

theorem spaced_name_truncated:
  assumes "plain_word a" "plain_word b" "\<forall>f \<in> set ks. plain_word (fd_path f)"
    and "\<forall>i \<in> set is. plain_word (ix_path i) \<and> ix_name i = index_name_for (a @ '' '' @ b) (ix_path i)"
  defines "name \<equiv> a @ '' '' @ b"
  shows "registry_parse (to_state_file
      \<lparr>collections = [(name, \<lparr>cs_name = name, cs_primary_key = ks, cs_indexes = is\<rparr>)]\<rparr>) =
    (if is = [] then Inr \<lparr>collections = [(a, \<lparr>cs_name = a, cs_primary_key = ks, cs_indexes = []\<rparr>)]\<rparr>
     else Inl (state_error (length ks + 2) ''expected PATH after index name''))"
proof -
  let ?c = "\<lparr>cs_name = name, cs_primary_key = ks, cs_indexes = is\<rparr>"
  have idx: "state_line n (index_line i) st = Inl (state_error n ''expected PATH after index name'')"
    "plain_line (index_line i)" if "i \<in> set is" for i n st
  proof -
    have "ix_name i = a @ '' '' @ index_name_for b (ix_path i)" "plain_word (ix_path i)"
      using assms(4) that by (auto simp: index_name_for_def)
    with index_line_spaced [OF _ assms(1)] index_name_word [OF assms(2)]
    show "state_line n (index_line i) st = Inl (state_error n ''expected PATH after index name'')"
      "plain_line (index_line i)" by blast+
  qed
  have "plain_line (''COLLECTION '' @ name)"
    using plain_lineI [of "''COLLECTION '' @ a @ '' ''" b] assms(1,2) by (auto simp: name_def dest: plain_word_chars)
  then have "list_all plain_line (state_header # collection_lines ?c)"
    using assms(3) header_line(1) key_line_plain idx(2) by (auto simp: collection_lines_def list_all_iff)
  from str_lines_concat [OF this]
  have lines: "str_lines (to_state_file \<lparr>collections = [(name, ?c)]\<rparr>) = state_header # collection_lines ?c"
    by (simp add: to_state_file_def)
  have "state_line n (''COLLECTION '' @ name) (\<lparr>collections = []\<rparr>, None) =
      Inr (\<lparr>collections = [(a, empty_collection a)]\<rparr>, Some a)" for n
    using state_line_words [of "''COLLECTION''" b n "a @ '' ''" "(\<lparr>collections = []\<rparr>, None)"] assms(1,2)
    by (simp add: name_def split_first_word split_last_word state_collection_def part_at_def ok_or_def)
  moreover have "state_loop n (map key_line ks) (\<lparr>collections = [(a, empty_collection a)]\<rparr>, Some a) =
      Inr (\<lparr>collections = [(a, (empty_collection a)\<lparr>cs_primary_key := ks\<rparr>)]\<rparr>, Some a)" for n
    using key_lines_read [where m = "[]" and name = a and ks = ks and n = n and r = registry_new and c = "empty_collection a"] assms(3)
    by (simp add: registry_new_def empty_collection_def)
  ultimately have "registry_parse (to_state_file \<lparr>collections = [(name, ?c)]\<rparr>) =
      try_res (state_loop (length ks + 2) (map index_line is)
        (\<lparr>collections = [(a, \<lparr>cs_name = a, cs_primary_key = ks, cs_indexes = []\<rparr>)]\<rparr>, Some a)) (\<lambda>(r, _). Inr r)"
    by (simp add: registry_parse_def lines header_line(2) registry_new_def collection_lines_def empty_collection_def
        state_loop_append)
  then show ?thesis
    using idx(1) by (cases "is") simp_all
qed

definition ex_spaced :: "IndexDef list \<Rightarrow> SchemaRegistry" where
  "ex_spaced is = \<lparr>collections = [(''my items'', \<lparr>cs_name = ''my items'',
     cs_primary_key = [\<lparr>fd_path = ''id'', fd_type = FT_String\<rparr>], cs_indexes = is\<rparr>)]\<rparr>"

theorem spaced_name_truncated_witness:
  "registry_parse (to_state_file (ex_spaced [])) = Inr \<lparr>collections = [(''my'',
      \<lparr>cs_name = ''my'', cs_primary_key = [\<lparr>fd_path = ''id'', fd_type = FT_String\<rparr>], cs_indexes = []\<rparr>)]\<rparr>
    \<and> registry_parse (to_state_file (ex_spaced [\<lparr>ix_name = ''my items.by_id'', ix_path = ''id'', ix_type = FT_String\<rparr>])) =
      Inl (state_error 3 ''expected PATH after index name'')"
  using spaced_name_truncated [of "''my''" "''items''" "[\<lparr>fd_path = ''id'', fd_type = FT_String\<rparr>]" "[]"]
    spaced_name_truncated [of "''my''" "''items''" "[\<lparr>fd_path = ''id'', fd_type = FT_String\<rparr>]"
      "[\<lparr>ix_name = ''my items.by_id'', ix_path = ''id'', ix_type = FT_String\<rparr>]"]
  by (simp add: plain_word_def printable_def ex_spaced_def index_name_for_def numeral_3_eq_3)

end
