(* ===== verification/Schema_Migrate.thy ===== *)
theory Schema_Migrate
  imports Schema_Registry
begin

text \<open>
  The migration runner (\<open>epochql/src/schema/migrate.rs\<close>): migration files in order of their names,
  the names already applied in \<open>schema.lock\<close>, and the resulting registry in \<open>schema.state\<close>. The two
  files are written on a device that may refuse the write or break it off.
\<close>

section \<open>Statements\<close>

definition schema_error :: "string \<Rightarrow> ParseError + 'a" where
  "schema_error msg = Inl (parse_error_new (Msg msg))"

fun apply_statement :: "DdlStatement \<Rightarrow> SchemaRegistry \<Rightarrow> ParseError + SchemaRegistry" where
  "apply_statement (CreateCollection name ks) r =
     (if map_of (collections r) name \<noteq> None
      then schema_error (''collection '' @ quoted name @ '' already exists'')
      else Inr (r\<lparr>collections := bt_insert name
             \<lparr>cs_name = name, cs_primary_key = map (\<lambda>(path, ty). \<lparr>fd_path = path, fd_type = ty\<rparr>) ks,
              cs_indexes = []\<rparr> (collections r)\<rparr>))"
| "apply_statement (CreateIndex collection path field_type) r =
     (case map_of (collections r) collection of
        None \<Rightarrow> schema_error (''unknown collection '' @ quoted collection)
      | Some coll \<Rightarrow>
          let name = index_name_for collection path in
          if \<exists>i \<in> set (cs_indexes coll). ix_name i = name
          then schema_error (''index '' @ quoted name @ '' already exists'')
          else Inr (r\<lparr>collections := bt_insert collection
                 (coll\<lparr>cs_indexes := cs_indexes coll
                    @ [\<lparr>ix_name = name, ix_path = path, ix_type = field_type\<rparr>]\<rparr>) (collections r)\<rparr>))"
| "apply_statement (DropIndex collection path) r =
     (case map_of (collections r) collection of
        None \<Rightarrow> schema_error (''unknown collection '' @ quoted collection)
      | Some coll \<Rightarrow>
          let name = index_name_for collection path;
              kept = filter (\<lambda>i. ix_name i \<noteq> name \<and> ix_path i \<noteq> path) (cs_indexes coll) in
          if length kept = length (cs_indexes coll)
          then schema_error (''index on '' @ quoted (collection @ ''.'' @ path) @ '' not found'')
          else Inr (r\<lparr>collections := bt_insert collection (coll\<lparr>cs_indexes := kept\<rparr>) (collections r)\<rparr>))"

primrec apply_statements :: "DdlStatement list \<Rightarrow> SchemaRegistry \<Rightarrow> ParseError + SchemaRegistry" where
  "apply_statements [] r = Inr r"
| "apply_statements (s # ss) r = try_res (apply_statement s r) (apply_statements ss)"

section \<open>The lock file\<close>

definition lock_header :: string where
  "lock_header = ''# epochs schema.lock '' @ em_dash @ '' applied migrations (do not edit)''"

definition read_lock :: "path \<Rightarrow> Fs \<Rightarrow> parse_failure + string list" where
  "read_lock rp fs =
     (if \<not> fs_exists fs (rp @ [''schema.lock'']) then Inr []
      else try_res (wrap_io ''read schema.lock'' (read_text (rp @ [''schema.lock'']) fs)) (\<lambda>src.
           Inr (filter (\<lambda>l. l \<noteq> [] \<and> hd l \<noteq> CHR ''#'') (map trim (str_lines src)))))"

definition lock_body :: "string list \<Rightarrow> string" where
  "lock_body applied = concat (map (\<lambda>l. l @ newline) (lock_header # applied))"

definition write_lock :: "device \<Rightarrow> path \<Rightarrow> string list \<Rightarrow> Fs \<Rightarrow> (parse_failure + unit) \<times> Fs" where
  "write_lock dev rp applied =
     io_op ''write schema.lock'' (dev_write dev (rp @ [''schema.lock'']) (as_bytes_str (lock_body applied)))"

section \<open>Migrations\<close>

text \<open>\<open>Path::extension\<close> of a file name.\<close>

definition file_extension :: "string \<Rightarrow> string option" where
  "file_extension name =
     (case split_at (CHR ''.'') name of
        [_] \<Rightarrow> None
      | [stem, ext] \<Rightarrow> if stem = [] then None else Some ext
      | parts \<Rightarrow> Some (last parts))"

definition list_migration_files :: "path \<Rightarrow> Fs \<Rightarrow> parse_failure + path list" where
  "list_migration_files dir fs =
     (case fs_get fs dir of
        None \<Rightarrow> Inr []
      | Some (File _) \<Rightarrow> wrap_io ''read migrations'' (Inl ENOTDIR)
      | Some Dir \<Rightarrow>
          Inr (map (\<lambda>name. dir @ [name])
                (sort (filter (\<lambda>name. file_extension name = Some ''eql'') (map fst (fs_read_dir dir fs))))))"

record MigrationReport =
  mig_applied :: "string list"
  mig_skipped :: "string list"
  mig_schema :: SchemaRegistry

record Migration =
  mg_lock :: "string list"
  mg_schema :: SchemaRegistry
  mg_applied :: "string list"
  mg_skipped :: "string list"

definition migrate_file :: "Fs \<Rightarrow> path \<Rightarrow> Migration \<Rightarrow> parse_failure + Migration" where
  "migrate_file fs p m =
     (let name = lossy (as_bytes_str (last p)) in
      if name \<in> set (mg_lock m) then Inr (m\<lparr>mg_skipped := mg_skipped m @ [name]\<rparr>)
      else
        try_res (wrap_io (''read migration '' @ name) (read_text p fs)) (\<lambda>source.
        try_res (parse_migration source) (\<lambda>stmts.
        try_res (map_err P_Err (apply_statements stmts (mg_schema m))) (\<lambda>schema.
        Inr (m\<lparr>mg_schema := schema, mg_lock := mg_lock m @ [name], mg_applied := mg_applied m @ [name]\<rparr>)))))"

primrec migrate_files :: "Fs \<Rightarrow> path list \<Rightarrow> Migration \<Rightarrow> parse_failure + Migration" where
  "migrate_files fs [] m = Inr m"
| "migrate_files fs (p # ps) m = try_res (migrate_file fs p m) (migrate_files fs ps)"

definition pending :: "path \<Rightarrow> Fs \<Rightarrow> parse_failure + Migration" where
  "pending rp fs =
     try_res (read_lock rp fs) (\<lambda>applied_lock.
     try_res (registry_load rp fs) (\<lambda>schema.
     try_res (list_migration_files (rp @ [''migrations'']) fs) (\<lambda>files.
     migrate_files fs files
       \<lparr>mg_lock = applied_lock, mg_schema = schema, mg_applied = [], mg_skipped = []\<rparr>)))"

definition migrate :: "device \<Rightarrow> path \<Rightarrow> Fs \<Rightarrow> (parse_failure + MigrationReport) \<times> Fs" where
  "migrate dev rp =
     try_st (io_op ''create migrations dir'' (create_dir_all (rp @ [''migrations'']))) (\<lambda>_.
     try_st (\<lambda>fs. (pending rp fs, fs)) (\<lambda>m.
     try_st (write_lock dev rp (mg_lock m)) (\<lambda>_.
     try_st (registry_save dev rp (mg_schema m)) (\<lambda>_.
     lift_st (Inr \<lparr>mig_applied = mg_applied m, mig_skipped = mg_skipped m, mig_schema = mg_schema m\<rparr>)))))"

section \<open>Statements keep the registry well formed\<close>

text \<open>Names of printable characters; collection names have no dot.\<close>

fun plain_stmt :: "DdlStatement \<Rightarrow> bool" where
  "plain_stmt (CreateCollection name ks) \<longleftrightarrow>
     plain_word name \<and> CHR ''.'' \<notin> set name \<and> (\<forall>(path, _) \<in> set ks. plain_word path)"
| "plain_stmt (CreateIndex collection path _) \<longleftrightarrow> plain_word path"
| "plain_stmt (DropIndex collection path) \<longleftrightarrow> True"

lemma bt_insert_subset: "set (bt_insert k v m) \<subseteq> insert (k, v) (set m)"
  by (induction m) (auto split: if_splits)

lemma registry_ok_insert:
  "registry_ok r \<Longrightarrow> collection_ok name c \<Longrightarrow> registry_ok (r\<lparr>collections := bt_insert name c (collections r)\<rparr>)"
  using bt_insert_subset [of name c "collections r"] by (auto simp: registry_ok_def)

lemma index_name_plain:
  assumes "plain_word name" "plain_word path" "CHR ''.'' \<notin> set name"
  shows "plain_word (index_name_for name path)" "hd (split_at (CHR ''.'') (index_name_for name path)) = name"
proof -
  show "plain_word (index_name_for name path)"
    using assms by (auto simp: plain_word_def index_name_for_def printable_def)
  show "hd (split_at (CHR ''.'') (index_name_for name path)) = name"
    using split_at_Cons_sep [OF assms(3)] by (simp add: index_name_for_def)
qed

lemma collection_ok_lookup: "registry_ok r \<Longrightarrow> map_of (collections r) name = Some c \<Longrightarrow> collection_ok name c"
  by (auto simp: registry_ok_def dest!: map_of_SomeD)

lemma apply_statement_ok:
  assumes "registry_ok r" "plain_stmt s" "apply_statement s r = Inr r'"
  shows "registry_ok r'"
proof (cases s)
  case (CreateCollection name ks)
  then show ?thesis
    using assms by (fastforce simp: schema_error_def collection_ok_def split: if_splits intro!: registry_ok_insert)
next
  case (CreateIndex name path ty)
  then obtain c where c: "map_of (collections r) name = Some c"
    using assms(3) by (auto simp: schema_error_def split: option.splits)
  show ?thesis
    using assms CreateIndex c collection_ok_lookup [OF assms(1) c] index_name_plain [of name path]
    by (auto simp: schema_error_def Let_def collection_ok_def split: if_splits intro!: registry_ok_insert)
next
  case (DropIndex name path)
  then obtain c where c: "map_of (collections r) name = Some c"
    using assms(3) by (auto simp: schema_error_def split: option.splits)
  show ?thesis
    using assms DropIndex c collection_ok_lookup [OF assms(1) c]
    by (auto simp: schema_error_def Let_def collection_ok_def split: if_splits intro!: registry_ok_insert)
qed

lemma apply_statements_ok:
  "registry_ok r \<Longrightarrow> list_all plain_stmt ss \<Longrightarrow> apply_statements ss r = Inr r' \<Longrightarrow> registry_ok r'"
proof (induction ss arbitrary: r)
  case (Cons s ss)
  then show ?case
    using apply_statement_ok by (cases "apply_statement s r") auto
qed simp

section \<open>What the two files hold\<close>

definition lock_name :: "string \<Rightarrow> bool" where
  "lock_name l \<longleftrightarrow> plain_word l \<and> hd l \<noteq> CHR ''#''"

lemma valid_str_word: "\<forall>c \<in> set w. printable c \<or> c = CHR '' '' \<Longrightarrow> valid_str w"
  by (rule valid_str_ascii) (auto simp: ascii_str_def as_bytes_str_def byte_of_char_def printable_def word_less_nat_alt unat_of_nat)

lemma valid_str_lines:
  assumes "\<forall>l \<in> set ls. valid_str l"
  shows "valid_str (concat (map (\<lambda>l. l @ newline) ls))"
proof -
  have "valid_str newline" "valid_str []"
    by (simp_all add: newline_def valid_str_def byte_of_char_def)
  then show ?thesis
    using assms by (induction ls) (simp_all add: valid_str_append)
qed

lemma header_valid: "valid_str state_header" "valid_str lock_header"
proof -
  have dash: "valid_str em_dash"
    by code_simp
  show "valid_str state_header"
    unfolding state_header_def
    by (rule valid_str_append [OF _ valid_str_append [OF dash]]; rule valid_str_word; simp add: printable_def)
  show "valid_str lock_header"
    unfolding lock_header_def
    by (rule valid_str_append [OF _ valid_str_append [OF dash]]; rule valid_str_word; simp add: printable_def)
qed

lemma plain_word_valid: "plain_word w \<Longrightarrow> valid_str w"
  by (simp add: plain_word_def valid_str_word)

lemma literal_valid:
  "valid_str ''COLLECTION ''" "valid_str ''KEY ''" "valid_str '' ''" "valid_str ''INDEX ''" "valid_str '' PATH ''" "valid_str '' TYPE ''"
  by (rule valid_str_word; simp add: printable_def)+

lemma key_line_valid: "plain_word (fd_path k) \<Longrightarrow> valid_str (key_line k)"
  unfolding key_line_def by (intro valid_str_append literal_valid plain_word_valid plain_type)

lemma index_line_valid: "plain_word (ix_name i) \<Longrightarrow> plain_word (ix_path i) \<Longrightarrow> valid_str (index_line i)"
  unfolding index_line_def by (intro valid_str_append literal_valid plain_word_valid plain_type)

lemma collection_lines_valid:
  assumes "collection_ok name c" "l \<in> set (collection_lines c)"
  shows "valid_str l"
proof -
  have "valid_str (''COLLECTION '' @ cs_name c)"
    using assms(1) by (intro valid_str_append literal_valid plain_word_valid) (simp add: collection_ok_def)
  then show ?thesis
    using assms key_line_valid index_line_valid by (auto simp: collection_ok_def collection_lines_def)
qed

lemma to_state_file_valid: "registry_ok r \<Longrightarrow> valid_str (to_state_file r)"
  unfolding to_state_file_def
  by (rule valid_str_lines) (auto simp: header_valid registry_ok_def intro: collection_lines_valid)

lemma lock_header_line: "plain_line lock_header" "trim lock_header = lock_header"
  by (simp add: plain_line_def lock_header_def em_dash_def)
    (rule trim_ends; simp add: lock_header_def em_dash_def printable_def)

lemma trim_word: "plain_word w \<Longrightarrow> trim w = w"
  using plain_word_chars [of w] by (intro trim_ends) (auto simp: plain_word_def)

lemma lock_body_lines: "list_all lock_name ls \<Longrightarrow> str_lines (lock_body ls) = lock_header # ls"
  unfolding lock_body_def using plain_lineI [of "[]"]
  by (intro str_lines_concat) (auto simp: lock_header_line list_all_iff lock_name_def)

lemma lock_body_valid: "list_all lock_name ls \<Longrightarrow> valid_str (lock_body ls)"
  unfolding lock_body_def by (rule valid_str_lines) (auto simp: header_valid list_all_iff lock_name_def plain_word_valid)

lemma read_lock_written:
  assumes "fs_get fs (rp @ [''schema.lock'']) = Some (File (as_bytes_str (lock_body ls)))" "list_all lock_name ls"
  shows "read_lock rp fs = Inr ls"
proof -
  have "map trim ls = ls"
    using assms(2) by (intro map_idI) (auto simp: list_all_iff lock_name_def trim_word)
  moreover have "filter (\<lambda>l. l \<noteq> [] \<and> hd l \<noteq> CHR ''#'') ls = ls"
    using assms(2) by (intro filter_True) (auto simp: list_all_iff lock_name_def plain_word_def)
  moreover have "hd lock_header = CHR ''#''"
    by (simp add: lock_header_def)
  ultimately show ?thesis
    using assms lock_body_lines [OF assms(2)] lock_body_valid [OF assms(2)]
    by (simp add: read_lock_def fs_exists_def read_text_def fs_read_def read_to_string_valid wrap_io_def lock_header_line)
qed

lemma registry_load_written:
  assumes "fs_get fs (rp @ [''schema.state'']) = Some (File (as_bytes_str (to_state_file r)))" "registry_ok r"
  shows "registry_load rp fs = Inr r"
  using assms to_state_file_valid [OF assms(2)] registry_text_roundtrip [OF assms(2)]
  by (simp add: registry_load_def fs_exists_def read_text_def fs_read_def read_to_string_valid wrap_io_def)

section \<open>Files touched by a migration\<close>

lemma fs_write_cases:
  "fs_write p b fs = (Inr (), fs_set p (File b) fs) \<or> (\<exists>t. fs_write p b fs = (Inl (Err (Io t)), fs))"
  by (auto simp: fs_write_def EISDIR_def fs_missing_def ENOTDIR_def ENOENT_def split: option.split node.split)

definition dev_accepts :: "device \<Rightarrow> path \<Rightarrow> bytes \<Rightarrow> bool" where
  "dev_accepts dev p b \<longleftrightarrow>
     (case dev p of None \<Rightarrow> True | Some (Denied _) \<Rightarrow> False | Some (Short n _) \<Rightarrow> length b \<le> n)"

lemma dev_write_ok: "dev_accepts dev p b \<Longrightarrow> fs_write p b fs = (Inr (), fs') \<Longrightarrow> dev_write dev p b fs = (Inr (), fs')"
  by (auto simp: dev_accepts_def dev_write_def split: option.splits fault.splits)

lemma dev_write_cases:
  obtains (written) "dev_accepts dev p b" "dev_write dev p b fs = (Inr (), fs_set p (File b) fs)"
    | (refused) t where "dev_write dev p b fs = (Inl (Err (Io t)), fs)"
    | (broken) n t where "dev p = Some (Short n t)" "n < length b"
        "dev_write dev p b fs = (Inl (Err (Io t)), fs_set p (File (take n b)) fs)"
  using fs_write_cases [of p b fs]
  by (cases "dev p"; cases "the (dev p)"; cases "case the (dev p) of Short n _ \<Rightarrow> n < length b | _ \<Rightarrow> True")
    (auto simp: dev_write_def dev_accepts_def not_less)

lemma snoc_not_Nil: "xs @ [x] \<noteq> []"
  by simp

lemma create_dirs_cases:
  assumes "create_dirs q p fs = (res, fs')"
  shows "(res = Inr () \<or> (\<exists>t. res = Inl (Err (Io t))))
    \<and> (res = Inr () \<longrightarrow> fs_get fs q = Some Dir \<longrightarrow> (\<forall>n \<le> length p. fs_get fs' (q @ take n p) = Some Dir))
    \<and> (\<forall>r n. fs_get fs r = Some n \<longrightarrow> fs_get fs' r = Some n)
    \<and> (\<forall>r. \<not> prefix r (q @ p) \<longrightarrow> fs_get fs' r = fs_get fs r)"
  using assms
proof (induction q p fs rule: create_dirs.induct)
  case (2 pre c cs fs)
  have upto: "(\<forall>n \<le> length (c # cs). fs_get g (pre @ take n (c # cs)) = Some Dir)"
    if "fs_get g pre = Some Dir" "\<forall>n \<le> length cs. fs_get g ((pre @ [c]) @ take n cs) = Some Dir" for g
  proof (intro allI impI)
    fix n assume "n \<le> length (c # cs)"
    then show "fs_get g (pre @ take n (c # cs)) = Some Dir"
      using that by (cases n) auto
  qed
  consider (dir) "fs_get fs (pre @ [c]) = Some Dir" | (plain) b where "fs_get fs (pre @ [c]) = Some (File b)"
    | (none) "fs_get fs (pre @ [c]) = None"
    by (metis node.exhaust option.exhaust)
  then show ?case
  proof cases
    case dir
    then show ?thesis
      using 2(2) [OF refl dir] 2(3) upto [of fs'] by auto
  next
    case plain
    then show ?thesis
      using 2(3) by (cases cs) (auto simp: EEXIST_def ENOTDIR_def)
  next
    case none
    have pre: "\<not> prefix r (pre @ c # cs) \<Longrightarrow> r \<noteq> pre @ [c]" for r
      by auto
    have "create_dirs (pre @ [c]) cs (fs_set (pre @ [c]) Dir fs) = (res, fs')"
      using 2(3) none by (simp add: Let_def)
    note IH = 2(1) [OF refl none this, unfolded fs_get_set [OF snoc_not_Nil]]
    have "fs_get fs r = Some n \<Longrightarrow> fs_get fs' r = Some n" for r n
      using IH none by (metis option.distinct(1))
    then show ?thesis
      using IH pre upto [of fs'] by auto
  qed
qed simp

lemma read_dir_set: "p \<noteq> [] \<Longrightarrow> butlast p \<noteq> d \<Longrightarrow> fs_read_dir d (fs_set p n fs) = fs_read_dir d fs"
proof -
  assume p: "p \<noteq> []" "butlast p \<noteq> d"
  have "filter (\<lambda>(q, n). q \<noteq> [] \<and> butlast q = d) (AList.update p n m) = filter (\<lambda>(q, n). q \<noteq> [] \<and> butlast q = d) m" for m
    using p by (induction m) auto
  then show ?thesis
    by (simp add: fs_read_dir_def fs_set_def)
qed

lemma read_dir_create_dirs:
  "length q + length p \<le> length d \<Longrightarrow> fs_read_dir d (snd (create_dirs q p fs)) = fs_read_dir d fs"
proof (induction q p fs rule: create_dirs.induct)
  case (2 pre c cs fs)
  have "butlast (pre @ [c]) \<noteq> d"
    using 2(3) by auto
  then show ?case
    using 2 by (auto simp: Let_def read_dir_set split: option.split node.split)
qed simp

lemma fs_set_same:
  assumes "p \<noteq> []" "fs_get fs p = Some n"
  shows "fs_set p n fs = fs"
proof -
  have "map_of m p = Some n \<Longrightarrow> AList.update p n m = m" for m
    by (induction m) (auto split: if_splits)
  then show ?thesis
    using assms by (simp add: fs_set_def fs_get_def)
qed

section \<open>Runs\<close>

lemma read_text_error: "read_text p fs = Inl e \<Longrightarrow> \<exists>t. e = Err (Io t)"
  by (auto simp: read_text_def fs_read_def read_to_string_def EISDIR_def fs_missing_def ENOTDIR_def ENOENT_def
      try_res_def map_err_def split: option.splits node.splits sum.splits if_splits)

lemma wrap_io_simps [simp]:
  "wrap_io what (Inr x) = Inr x"
  "wrap_io what (Inl (Err (Io t))) = Inl (P_Err (parse_error_new (Msg (what @ '': '' @ t))))"
  by (simp_all add: wrap_io_def)

text \<open>Results that fail only with an error of the language, never by a panic.\<close>

definition clean :: "parse_failure + 'a \<Rightarrow> bool" where
  "clean r \<longleftrightarrow> (\<forall>e. r = Inl e \<longrightarrow> (\<exists>pe. e = P_Err pe))"

lemma clean_simps [simp]: "clean (Inr x)" "clean (Inl (P_Err pe))" "clean (map_err P_Err r)"
  by (auto simp: clean_def map_err_eq_Inl)

lemma clean_try: "clean r \<Longrightarrow> (\<And>x. clean (f x)) \<Longrightarrow> clean (try_res r f)"
  by (auto simp: clean_def try_res_def split: sum.splits)

lemma clean_read: "clean (wrap_io what (read_text p fs))"
  using read_text_error [of p fs] by (cases "read_text p fs") (auto simp: clean_def)

lemma clean_parse: "clean (parse_migration src)"
  using parse_migration_good [of src] by (auto simp: clean_def)

lemma clean_file: "clean (migrate_file fs p m)"
  by (simp add: migrate_file_def Let_def clean_try clean_read clean_parse)

lemma clean_files: "clean (migrate_files fs ps m)"
  by (induction ps arbitrary: m) (simp_all add: clean_try clean_file)

lemma clean_pending: "clean (pending rp fs)"
  by (auto simp: pending_def read_lock_def registry_load_def list_migration_files_def ENOTDIR_def
      intro!: clean_try clean_read clean_files split: option.split node.split)

text \<open>What happens after the directory was created and the pending migrations applied in memory.\<close>

lemma migrate_stages:
  obtains (create) t fs1 where "create_dir_all (rp @ [''migrations'']) fs = (Inl (Err (Io t)), fs1)"
      "migrate dev rp fs = (Inl (P_Err (parse_error_new (Msg (''create migrations dir: '' @ t)))), fs1)"
    | (pend) fs1 pe where "create_dir_all (rp @ [''migrations'']) fs = (Inr (), fs1)" "pending rp fs1 = Inl (P_Err pe)"
      "migrate dev rp fs = (Inl (P_Err pe), fs1)"
    | (store) fs1 m where "create_dir_all (rp @ [''migrations'']) fs = (Inr (), fs1)" "pending rp fs1 = Inr m"
      "migrate dev rp fs = try_st (write_lock dev rp (mg_lock m)) (\<lambda>_. try_st (registry_save dev rp (mg_schema m)) (\<lambda>_.
        lift_st (Inr \<lparr>mig_applied = mg_applied m, mig_skipped = mg_skipped m, mig_schema = mg_schema m\<rparr>))) fs1"
proof -
  obtain res fs1 where c: "create_dir_all (rp @ [''migrations'']) fs = (res, fs1)"
    by force
  have "res = Inr () \<or> (\<exists>t. res = Inl (Err (Io t)))"
    using create_dirs_cases c by (auto simp: create_dir_all_def)
  then consider t where "res = Inl (Err (Io t))" | e where "res = Inr ()" "pending rp fs1 = Inl e"
    | m where "res = Inr ()" "pending rp fs1 = Inr m"
    by (cases "pending rp fs1") auto
  then show thesis
  proof cases
    case 1
    show thesis
      by (rule create [OF c [unfolded 1]]) (use c 1 in \<open>simp add: migrate_def io_op_def try_st_def\<close>)
  next
    case 2
    moreover obtain pe where "e = P_Err pe"
      using 2(2) clean_pending [of rp fs1] by (auto simp: clean_def)
    ultimately show thesis
      by (intro pend [OF c [unfolded 2(1)]]) (use c in \<open>simp_all add: migrate_def io_op_def try_st_def\<close>)
  next
    case 3
    show thesis
      by (rule store [OF c [unfolded 3(1)] 3(2)]) (use c 3 in \<open>simp add: migrate_def io_op_def try_st_def\<close>)
  qed
qed

text \<open>Writing the two files.\<close>

lemma store_stages:
  fixes m :: Migration and dev rp fs1
  defines "lock \<equiv> as_bytes_str (lock_body (mg_lock m))" and "state \<equiv> as_bytes_str (to_state_file (mg_schema m))"
  defines "fs2 \<equiv> fs_set (rp @ [''schema.lock'']) (File lock) fs1"
  defines "run \<equiv> try_st (write_lock dev rp (mg_lock m)) (\<lambda>_. try_st (registry_save dev rp (mg_schema m)) (\<lambda>_.
        lift_st (Inr \<lparr>mig_applied = mg_applied m, mig_skipped = mg_skipped m, mig_schema = mg_schema m\<rparr>))) fs1"
  obtains (finished) "dev_accepts dev (rp @ [''schema.lock'']) lock" "dev_accepts dev (rp @ [''schema.state'']) state"
      "run = (Inr \<lparr>mig_applied = mg_applied m, mig_skipped = mg_skipped m, mig_schema = mg_schema m\<rparr>,
        fs_set (rp @ [''schema.state'']) (File state) fs2)"
    | (lock_refused) t where "run = (Inl (P_Err (parse_error_new (Msg (''write schema.lock: '' @ t)))), fs1)"
    | (lock_broken) n t where "dev (rp @ [''schema.lock'']) = Some (Short n t)" "n < length lock"
        "run = (Inl (P_Err (parse_error_new (Msg (''write schema.lock: '' @ t)))),
          fs_set (rp @ [''schema.lock'']) (File (take n lock)) fs1)"
    | (state_refused) t where "dev_accepts dev (rp @ [''schema.lock'']) lock"
        "dev_write dev (rp @ [''schema.state'']) state fs2 = (Inl (Err (Io t)), fs2)"
        "run = (Inl (P_Err (parse_error_new (Msg (''write schema.state: '' @ t)))), fs2)"
    | (state_broken) n t where "dev (rp @ [''schema.state'']) = Some (Short n t)" "n < length state"
        "run = (Inl (P_Err (parse_error_new (Msg (''write schema.state: '' @ t)))),
          fs_set (rp @ [''schema.state'']) (File (take n state)) fs2)"
proof -
  have run: "run = (case dev_write dev (rp @ [''schema.lock'']) lock fs1 of
      (Inl e, fs) \<Rightarrow> (wrap_io ''write schema.lock'' (Inl e), fs)
    | (Inr _, fs) \<Rightarrow> (case dev_write dev (rp @ [''schema.state'']) state fs of
        (Inl e, fs) \<Rightarrow> (wrap_io ''write schema.state'' (Inl e), fs)
      | (Inr _, fs) \<Rightarrow> (Inr \<lparr>mig_applied = mg_applied m, mig_skipped = mg_skipped m, mig_schema = mg_schema m\<rparr>, fs)))"
    unfolding run_def lock_def state_def
    by (simp add: write_lock_def registry_save_def io_op_def try_st_def wrap_io_def map_err_def lift_st_def
        split: prod.split sum.split)
  show thesis
  proof (cases rule: dev_write_cases [of dev "rp @ [''schema.lock'']" lock fs1])
    case written
    note lw = this
    then have run: "run = (case dev_write dev (rp @ [''schema.state'']) state fs2 of
        (Inl e, fs) \<Rightarrow> (wrap_io ''write schema.state'' (Inl e), fs)
      | (Inr _, fs) \<Rightarrow> (Inr \<lparr>mig_applied = mg_applied m, mig_skipped = mg_skipped m, mig_schema = mg_schema m\<rparr>, fs))"
      by (simp add: run fs2_def)
    show thesis
    proof (cases rule: dev_write_cases [of dev "rp @ [''schema.state'']" state fs2])
      case written
      show thesis by (rule finished [OF lw(1) written(1)]) (simp add: run written(2))
    next
      case (refused t)
      show thesis by (rule state_refused [OF lw(1) refused]) (simp add: run refused)
    next
      case (broken n t)
      show thesis by (rule state_broken [OF broken(1,2)]) (simp add: run broken(3))
    qed
  next
    case (refused t)
    show thesis by (rule lock_refused) (simp add: run refused)
  next
    case (broken n t)
    show thesis by (rule lock_broken [OF broken(1,2)]) (simp add: run broken(3))
  qed
qed

lemma migrate_run:
  assumes "migrate dev rp fs = (Inr rep, fs')"
  obtains fs1 m where "create_dir_all (rp @ [''migrations'']) fs = (Inr (), fs1)" "pending rp fs1 = Inr m"
    "rep = \<lparr>mig_applied = mg_applied m, mig_skipped = mg_skipped m, mig_schema = mg_schema m\<rparr>"
    "fs' = fs_set (rp @ [''schema.state'']) (File (as_bytes_str (to_state_file (mg_schema m))))
       (fs_set (rp @ [''schema.lock'']) (File (as_bytes_str (lock_body (mg_lock m)))) fs1)"
    "dev_accepts dev (rp @ [''schema.lock'']) (as_bytes_str (lock_body (mg_lock m)))"
    "dev_accepts dev (rp @ [''schema.state'']) (as_bytes_str (to_state_file (mg_schema m)))"
proof (cases rule: migrate_stages [of rp fs dev])
  case (store fs1 m)
  show thesis
    by (cases rule: store_stages [of dev rp m fs1])
      (use assms store that [OF store(1,2)] in auto)
qed (use assms in auto)

section \<open>Failing and repeated runs\<close>

lemma not_prefix_files:
  "\<not> prefix (rp @ [''schema.lock'']) (rp @ [''migrations''])" "\<not> prefix (rp @ [''schema.state'']) (rp @ [''migrations''])"
  by simp_all

lemma load_not_dir:
  "registry_load rp fs = Inr r \<Longrightarrow> fs_get fs (rp @ [''schema.state'']) \<noteq> Some Dir"
  "read_lock rp fs = Inr ls \<Longrightarrow> fs_get fs (rp @ [''schema.lock'']) \<noteq> Some Dir"
  by (auto simp: registry_load_def read_lock_def fs_exists_def read_text_def fs_read_def EISDIR_def)

lemma pending_load: "pending rp fs = Inr m \<Longrightarrow> (\<exists>r. registry_load rp fs = Inr r) \<and> (\<exists>ls. read_lock rp fs = Inr ls)"
  by (cases "read_lock rp fs"; cases "registry_load rp fs") (simp_all add: pending_def)

lemma create_migrations_dir:
  assumes "create_dir_all (rp @ [''migrations'']) fs = (Inr (), fs1)"
  shows "is_dir_path fs1 (rp @ [''migrations''])"
  using create_dirs_cases [of "[]" "rp @ [''migrations'']" fs "Inr ()" fs1] assms
  by (simp add: create_dir_all_def is_dir_path_def fs_get_def)

text \<open>The two files can be opened for writing once the migrations are applied.\<close>

lemma files_writable:
  assumes "create_dir_all (rp @ [''migrations'']) fs = (Inr (), fs1)" "pending rp fs1 = Inr m"
  shows "fs_write (rp @ [''schema.lock'']) b fs1 = (Inr (), fs_set (rp @ [''schema.lock'']) (File b) fs1)"
    and "fs_write (rp @ [''schema.state'']) c (fs_set (rp @ [''schema.lock'']) (File b) fs1) =
      (Inr (), fs_set (rp @ [''schema.state'']) (File c) (fs_set (rp @ [''schema.lock'']) (File b) fs1))"
proof -
  have rp: "fs_get fs1 rp = Some Dir"
    using create_migrations_dir [OF assms(1)] by (simp add: is_dir_path_snoc dir_path_last)
  have "fs_get fs1 (rp @ [''schema.state'']) \<noteq> Some Dir" "fs_get fs1 (rp @ [''schema.lock'']) \<noteq> Some Dir"
    using load_not_dir pending_load [OF assms(2)] by auto
  with rp show "fs_write (rp @ [''schema.lock'']) b fs1 = (Inr (), fs_set (rp @ [''schema.lock'']) (File b) fs1)"
    "fs_write (rp @ [''schema.state'']) c (fs_set (rp @ [''schema.lock'']) (File b) fs1) =
      (Inr (), fs_set (rp @ [''schema.state'']) (File c) (fs_set (rp @ [''schema.lock'']) (File b) fs1))"
    by (auto simp: fs_write_def fs_get_set split: option.split node.split)
qed

text \<open>C20: a run of the migrations that fails is reported as an error, never as a panic, and leaves one of
  four states. Apart from the directory for migrations, which may have been created, either nothing has
  changed; or the device broke off writing the lock file, which holds a part of the new list while the
  schema is the old one; or the lock file was written and lists the new migrations as applied while the
  schema file could not be written and is the old one; or it is a part of the new one.\<close>

theorem migrate_failure:
  assumes "migrate dev rp fs = (Inl e, fs')"
  shows "\<exists>pe fs1. e = P_Err pe \<and> fs1 = snd (create_dir_all (rp @ [''migrations'']) fs)
    \<and> (\<forall>p. \<not> prefix p (rp @ [''migrations'']) \<longrightarrow> fs_get fs1 p = fs_get fs p)
    \<and> (fs' = fs1 \<or> (\<exists>m. pending rp fs1 = Inr m \<and>
        (let lock = as_bytes_str (lock_body (mg_lock m)); state = as_bytes_str (to_state_file (mg_schema m));
             fs2 = fs_set (rp @ [''schema.lock'']) (File lock) fs1
         in (\<exists>n t. dev (rp @ [''schema.lock'']) = Some (Short n t) \<and> n < length lock
               \<and> fs' = fs_set (rp @ [''schema.lock'']) (File (take n lock)) fs1)
            \<or> dev (rp @ [''schema.state'']) \<noteq> None \<and> fs' = fs2
            \<or> (\<exists>n t. dev (rp @ [''schema.state'']) = Some (Short n t) \<and> n < length state
               \<and> fs' = fs_set (rp @ [''schema.state'']) (File (take n state)) fs2))))"
proof -
  have frame: "\<forall>p. \<not> prefix p (rp @ [''migrations'']) \<longrightarrow> fs_get fs1 p = fs_get fs p"
    if "create_dir_all (rp @ [''migrations'']) fs = (res, fs1)" for res fs1
    using create_dirs_cases [of "[]" "rp @ [''migrations'']", folded create_dir_all_def, OF that] by simp
  show ?thesis
  proof (cases rule: migrate_stages [of rp fs dev])
    case (create t fs1)
    with assms frame show ?thesis by auto
  next
    case (pend fs1 pe)
    with assms frame show ?thesis by auto
  next
    case (store fs1 m)
    note fr = frame [OF store(1)]
    have fs1: "fs1 = snd (create_dir_all (rp @ [''migrations'']) fs)"
      using store(1) by simp
    have run: "migrate dev rp fs = (Inl e, fs')"
      by (rule assms)
    show ?thesis
    proof (cases rule: store_stages [of dev rp m fs1])
      case finished
      with run store(3) show ?thesis by simp
    next
      case (lock_refused t)
      with run store(3) fs1 fr show ?thesis by auto
    next
      case (lock_broken n t)
      with run store(2,3) fs1 fr show ?thesis by (auto simp: Let_def)
    next
      case (state_refused t)
      have "dev (rp @ [''schema.state'']) \<noteq> None"
        using state_refused(2) files_writable(2) [OF store(1,2)]
        by (cases "dev (rp @ [''schema.state''])") (auto simp: dev_write_def)
      with state_refused run store(2,3) fs1 fr show ?thesis by (auto simp: Let_def)
    next
      case (state_broken n t)
      with run store(2,3) fs1 fr show ?thesis by (auto simp: Let_def)
    qed
  qed
qed

text \<open>Migration files with plain names and contents.\<close>

definition migration_names :: "path \<Rightarrow> Fs \<Rightarrow> string list" where
  "migration_names rp fs =
     sort (filter (\<lambda>name. file_extension name = Some ''eql'') (map fst (fs_read_dir (rp @ [''migrations'']) fs)))"

definition plain_migration :: "Fs \<Rightarrow> path \<Rightarrow> bool" where
  "plain_migration fs p \<longleftrightarrow> lock_name (last p) \<and>
     (\<forall>src stmts. read_text p fs = Inr src \<longrightarrow> parse_migration src = Inr stmts \<longrightarrow> list_all plain_stmt stmts)"

definition schema_plain :: "path \<Rightarrow> Fs \<Rightarrow> bool" where
  "schema_plain rp fs \<longleftrightarrow>
     (\<forall>ls. read_lock rp fs = Inr ls \<longrightarrow> list_all lock_name ls)
     \<and> (\<forall>r. registry_load rp fs = Inr r \<longrightarrow> registry_ok r)
     \<and> (\<forall>name \<in> set (migration_names rp fs). plain_migration fs (rp @ [''migrations'', name]))"

lemma lock_name_lossy: "lock_name n \<Longrightarrow> lossy (as_bytes_str n) = n"
  by (simp add: lock_name_def lossy_valid plain_word_valid)

lemma migrate_file_ok:
  assumes "migrate_file fs p m = Inr m'" "plain_migration fs p" "list_all lock_name (mg_lock m)" "registry_ok (mg_schema m)"
  shows "list_all lock_name (mg_lock m') \<and> registry_ok (mg_schema m')
    \<and> set (mg_lock m) \<subseteq> set (mg_lock m') \<and> last p \<in> set (mg_lock m')
    \<and> set (mg_applied m') \<union> set (mg_skipped m') = insert (last p) (set (mg_applied m) \<union> set (mg_skipped m))"
proof (cases "last p \<in> set (mg_lock m)")
  case True
  then show ?thesis
    using assms by (auto simp: migrate_file_def plain_migration_def lock_name_lossy)
next
  case False
  have name: "lossy (as_bytes_str (last p)) = last p" "lock_name (last p)"
    using assms(2) by (simp_all add: plain_migration_def lock_name_lossy)
  obtain src stmts r where "read_text p fs = Inr src" "parse_migration src = Inr stmts"
    "apply_statements stmts (mg_schema m) = Inr r"
    "m' = m\<lparr>mg_schema := r, mg_lock := mg_lock m @ [last p], mg_applied := mg_applied m @ [last p]\<rparr>"
    using assms(1) False name read_text_error [of p fs]
    by (cases "read_text p fs"; cases "parse_migration (projr (read_text p fs))")
      (auto simp: migrate_file_def Let_def try_res_def map_err_def split: sum.splits)
  then show ?thesis
    using assms(2-4) name(2) apply_statements_ok [of "mg_schema m" stmts r] by (auto simp: plain_migration_def)
qed

lemma migrate_files_ok:
  assumes "migrate_files fs ps m = Inr m'" "\<forall>p \<in> set ps. plain_migration fs p"
    "list_all lock_name (mg_lock m)" "registry_ok (mg_schema m)"
  shows "list_all lock_name (mg_lock m') \<and> registry_ok (mg_schema m') \<and> set (mg_lock m) \<subseteq> set (mg_lock m')
    \<and> last ` set ps \<subseteq> set (mg_lock m')
    \<and> set (mg_applied m') \<union> set (mg_skipped m') = last ` set ps \<union> set (mg_applied m) \<union> set (mg_skipped m)"
  using assms
proof (induction ps arbitrary: m)
  case (Cons p ps)
  then obtain m1 where m1: "migrate_file fs p m = Inr m1" "migrate_files fs ps m1 = Inr m'"
    by (cases "migrate_file fs p m") auto
  have p: "plain_migration fs p"
    using Cons.prems(2) by simp
  note one = migrate_file_ok [OF m1(1) p Cons.prems(3,4)]
  show ?case
    using Cons.IH [OF m1(2)] one Cons.prems(2) by auto
qed simp

lemma migrate_files_skip:
  assumes "\<forall>p \<in> set ps. lock_name (last p) \<and> last p \<in> set (mg_lock m)"
  shows "migrate_files fs ps m = Inr (m\<lparr>mg_skipped := mg_skipped m @ map last ps\<rparr>)"
  using assms by (induction ps arbitrary: m) (simp_all add: migrate_file_def lock_name_lossy)

lemma read_text_cong:
  "fs_get fs1 p = fs_get fs p \<Longrightarrow> fs_exists fs p \<Longrightarrow> read_text p fs1 = read_text p fs"
  by (auto simp: read_text_def fs_read_def fs_exists_def split: option.splits node.splits)

lemma read_text_exists: "read_text p fs = Inr src \<Longrightarrow> fs_exists fs p"
  by (auto simp: read_text_def fs_read_def fs_exists_def split: option.splits)

lemma schema_plain_frame:
  assumes "schema_plain rp fs" "\<forall>p. \<not> prefix p (rp @ [''migrations'']) \<longrightarrow> fs_get fs1 p = fs_get fs p"
    and "fs_read_dir (rp @ [''migrations'']) fs1 = fs_read_dir (rp @ [''migrations'']) fs"
  shows "schema_plain rp fs1"
proof -
  have same: "fs_get fs1 (rp @ [''schema.lock'']) = fs_get fs (rp @ [''schema.lock''])"
    "fs_get fs1 (rp @ [''schema.state'']) = fs_get fs (rp @ [''schema.state''])"
    "fs_get fs1 (rp @ [''migrations'', name]) = fs_get fs (rp @ [''migrations'', name])" for name
    using assms(2) by simp_all
  have "read_lock rp fs1 = read_lock rp fs"
    using same(1) read_text_cong [OF same(1)] by (cases "fs_exists fs (rp @ [''schema.lock''])") (simp_all add: read_lock_def fs_exists_def)
  moreover have "registry_load rp fs1 = registry_load rp fs"
    using same(2) read_text_cong [OF same(2)] by (cases "fs_exists fs (rp @ [''schema.state''])") (simp_all add: registry_load_def fs_exists_def)
  moreover have "migration_names rp fs1 = migration_names rp fs"
    using assms(3) by (simp add: migration_names_def)
  moreover have "plain_migration fs (rp @ [''migrations'', name]) \<Longrightarrow> plain_migration fs1 (rp @ [''migrations'', name])" for name
    using same(3) [of name] read_text_cong [OF same(3) [of name]] read_text_exists [of "rp @ [''migrations'', name]" fs1]
    unfolding plain_migration_def fs_exists_def by metis
  ultimately show ?thesis
    using assms(1) by (simp add: schema_plain_def)
qed

lemma pending_plain:
  assumes "pending rp fs = Inr m" "schema_plain rp fs" "fs_get fs (rp @ [''migrations'']) = Some Dir"
  shows "list_all lock_name (mg_lock m) \<and> registry_ok (mg_schema m)
    \<and> set (migration_names rp fs) \<subseteq> set (mg_lock m)
    \<and> set (mg_applied m) \<union> set (mg_skipped m) = set (migration_names rp fs)"
proof -
  let ?ps = "map (\<lambda>name. rp @ [''migrations'', name]) (migration_names rp fs)"
  obtain ls r where l: "read_lock rp fs = Inr ls" "registry_load rp fs = Inr r"
    and run: "migrate_files fs ?ps \<lparr>mg_lock = ls, mg_schema = r, mg_applied = [], mg_skipped = []\<rparr> = Inr m"
    using assms(1,3) by (cases "read_lock rp fs"; cases "registry_load rp fs")
      (simp_all add: pending_def list_migration_files_def migration_names_def)
  have "last ` set ?ps = set (migration_names rp fs)"
    by (simp add: image_image)
  then show ?thesis
    using migrate_files_ok [OF run] assms(2) l by (simp add: schema_plain_def)
qed

lemma pending_done:
  assumes "read_lock rp fs = Inr ls" "registry_load rp fs = Inr r" "fs_get fs (rp @ [''migrations'']) = Some Dir"
    and "set (migration_names rp fs) \<subseteq> set ls" "list_all lock_name ls"
  shows "pending rp fs = Inr \<lparr>mg_lock = ls, mg_schema = r, mg_applied = [], mg_skipped = migration_names rp fs\<rparr>"
proof -
  let ?ps = "map (\<lambda>name. rp @ [''migrations'', name]) (migration_names rp fs)"
  have "list_migration_files (rp @ [''migrations'']) fs = Inr ?ps"
    using assms(3) by (simp add: list_migration_files_def migration_names_def)
  moreover have "map last ?ps = migration_names rp fs"
    by (simp add: comp_def)
  moreover have "\<forall>p \<in> set ?ps. lock_name (last p) \<and> last p \<in> set ls"
    using assms(4,5) by (auto simp: list_all_iff)
  ultimately show ?thesis
    using assms(1,2) migrate_files_skip [of ?ps "\<lparr>mg_lock = ls, mg_schema = r, mg_applied = [], mg_skipped = []\<rparr>" fs]
    by (simp add: pending_def)
qed

lemma fs_write_same:
  "p \<noteq> [] \<Longrightarrow> fs_get fs p = Some (File b) \<Longrightarrow> fs_write p b fs = (Inr (), fs)"
  by (simp add: fs_write_def fs_set_same)

lemma dev_write_same:
  "dev_accepts dev p b \<Longrightarrow> p \<noteq> [] \<Longrightarrow> fs_get fs p = Some (File b) \<Longrightarrow> dev_write dev p b fs = (Inr (), fs)"
  by (rule dev_write_ok) (simp_all add: fs_write_same)

text \<open>A run over files that list all migrations as applied.\<close>

lemma migrate_done:
  assumes "is_dir_path fs (rp @ [''migrations''])" "registry_load rp fs = Inr r"
    and "fs_get fs (rp @ [''schema.lock'']) = Some (File (as_bytes_str (lock_body ls)))" "list_all lock_name ls"
    and "set (migration_names rp fs) \<subseteq> set ls" "dev_accepts dev (rp @ [''schema.lock'']) (as_bytes_str (lock_body ls))"
    and "dev_write dev (rp @ [''schema.state'']) (as_bytes_str (to_state_file r)) fs = (Inr (), fs')"
  shows "migrate dev rp fs = (Inr \<lparr>mig_applied = [], mig_skipped = migration_names rp fs, mig_schema = r\<rparr>, fs')"
proof -
  have "pending rp fs = Inr \<lparr>mg_lock = ls, mg_schema = r, mg_applied = [], mg_skipped = migration_names rp fs\<rparr>"
    using read_lock_written [OF assms(3,4)] assms(2,4,5) dir_path_last [OF assms(1)] by (intro pending_done) simp_all
  then show ?thesis
    using create_dir_all_existing [OF assms(1)] dev_write_same [OF assms(6) _ assms(3)] assms(7)
    by (simp add: migrate_def io_op_def try_st_def write_lock_def registry_save_def lift_st_def)
qed

text \<open>The files between the two runs.\<close>

lemma migrated_files:
  assumes "schema_plain rp fs" "create_dir_all (rp @ [''migrations'']) fs = (Inr (), fs1)" "pending rp fs1 = Inr m"
  defines "fs2 \<equiv> fs_set (rp @ [''schema.lock'']) (File (as_bytes_str (lock_body (mg_lock m)))) fs1"
  shows "list_all lock_name (mg_lock m)" "registry_ok (mg_schema m)"
    "set (migration_names rp fs) \<subseteq> set (mg_lock m)"
    "set (mg_applied m) \<union> set (mg_skipped m) = set (migration_names rp fs)"
    "is_dir_path fs2 (rp @ [''migrations''])" "migration_names rp fs2 = migration_names rp fs"
    "registry_load rp fs2 = registry_load rp fs"
proof -
  let ?dir = "rp @ [''migrations'']"
  have dirs1: "fs_read_dir ?dir fs1 = fs_read_dir ?dir fs"
    using read_dir_create_dirs [of "[]" ?dir ?dir fs] assms(2) by (simp add: create_dir_all_def)
  have frame: "\<forall>p. \<not> prefix p ?dir \<longrightarrow> fs_get fs1 p = fs_get fs p"
    using create_dirs_cases [of "[]" ?dir fs "Inr ()" fs1] assms(2) by (simp add: create_dir_all_def)
  have plain: "schema_plain rp fs1"
    using schema_plain_frame [OF assms(1) frame dirs1] .
  have dir1: "is_dir_path fs1 ?dir"
    using assms(2) by (rule create_migrations_dir)
  have names: "migration_names rp fs1 = migration_names rp fs"
    using dirs1 by (simp add: migration_names_def)
  show "list_all lock_name (mg_lock m)" "registry_ok (mg_schema m)"
    "set (migration_names rp fs) \<subseteq> set (mg_lock m)"
    "set (mg_applied m) \<union> set (mg_skipped m) = set (migration_names rp fs)"
    using pending_plain [OF assms(3) plain dir_path_last [OF dir1]] unfolding names by blast+
  show "is_dir_path fs2 ?dir"
    using dir1 by (simp add: is_dir_path_snoc fs2_def fs_get_set) (simp add: is_dir_path_def fs_get_set take_neq_snoc)
  show "migration_names rp fs2 = migration_names rp fs"
    using dirs1 by (simp add: migration_names_def fs2_def read_dir_set)
  have same: "fs_get fs2 (rp @ [''schema.state'']) = fs_get fs (rp @ [''schema.state''])"
    using frame by (simp add: fs2_def fs_get_set)
  show "registry_load rp fs2 = registry_load rp fs"
    using same read_text_cong [OF same] by (simp add: registry_load_def fs_exists_def)
qed

text \<open>C19: migrating is idempotent, when the names of the migration files and of what is already stored and the
  names in the statements are words of printable characters (\<open>schema_plain\<close>). After a successful run every
  migration file is listed as applied, and a second run on the same device succeeds, applies none, skips
  them all, reports the same schema and leaves every file as it is.\<close>

theorem migrate_idempotent:
  assumes "schema_plain rp fs" "migrate dev rp fs = (Inr rep, fs')"
  shows "migrate dev rp fs' =
      (Inr \<lparr>mig_applied = [], mig_skipped = migration_names rp fs, mig_schema = mig_schema rep\<rparr>, fs')
    \<and> set (mig_applied rep) \<union> set (mig_skipped rep) = set (migration_names rp fs) \<and> registry_ok (mig_schema rep)"
  using assms(2)
proof (rule migrate_run)
  fix fs1 m
  let ?dir = "rp @ [''migrations'']" and ?lock = "rp @ [''schema.lock'']" and ?state = "rp @ [''schema.state'']"
  assume c: "create_dir_all ?dir fs = (Inr (), fs1)" and m: "pending rp fs1 = Inr m"
    and rep: "rep = \<lparr>mig_applied = mg_applied m, mig_skipped = mg_skipped m, mig_schema = mg_schema m\<rparr>"
    and fs': "fs' = fs_set ?state (File (as_bytes_str (to_state_file (mg_schema m))))
       (fs_set ?lock (File (as_bytes_str (lock_body (mg_lock m)))) fs1)"
    and dev: "dev_accepts dev ?lock (as_bytes_str (lock_body (mg_lock m)))"
      "dev_accepts dev ?state (as_bytes_str (to_state_file (mg_schema m)))"
  note ok = migrated_files [OF assms(1) c m]
  have dir': "is_dir_path fs' ?dir"
    using ok(5) by (simp add: is_dir_path_snoc fs' fs_get_set) (simp add: is_dir_path_def fs_get_set take_neq_snoc)
  have get: "fs_get fs' ?lock = Some (File (as_bytes_str (lock_body (mg_lock m))))"
    "fs_get fs' ?state = Some (File (as_bytes_str (to_state_file (mg_schema m))))"
    by (simp_all add: fs' fs_get_set)
  have names: "migration_names rp fs' = migration_names rp fs"
    using ok(6) by (simp add: migration_names_def fs' read_dir_set)
  show ?thesis
    using migrate_done [OF dir' registry_load_written [OF get(2) ok(2)] get(1) ok(1) _ dev(1)
        dev_write_same [OF dev(2) _ get(2)]] names rep ok(2-4) by simp
qed

text \<open>C21: the lock file is written before the schema. When the schema file cannot be written, the run reports
  the error, but the lock file already lists the new migrations; the next run, on a device that works,
  reports success, skips every migration file and stores the schema of before the failed run. What the
  migrations declare is never applied.\<close>

theorem migrate_schema_lost:
  assumes "schema_plain rp fs" "create_dir_all (rp @ [''migrations'']) fs = (Inr (), fs1)" "pending rp fs1 = Inr m"
    and "dev (rp @ [''schema.lock'']) = None" "dev (rp @ [''schema.state'']) = Some (Denied t)"
  shows "\<exists>fs2 r fs3. migrate dev rp fs = (Inl (P_Err (parse_error_new (Msg (''write schema.state: '' @ t)))), fs2)
    \<and> registry_load rp fs = Inr r
    \<and> migrate (\<lambda>_. None) rp fs2 =
        (Inr \<lparr>mig_applied = [], mig_skipped = migration_names rp fs, mig_schema = r\<rparr>, fs3)
    \<and> registry_load rp fs3 = Inr r"
proof -
  let ?lock = "rp @ [''schema.lock'']" and ?state = "rp @ [''schema.state'']"
  let ?fs2 = "fs_set ?lock (File (as_bytes_str (lock_body (mg_lock m)))) fs1"
  note ok = migrated_files [OF assms(1-3)]
  have first: "migrate dev rp fs = (Inl (P_Err (parse_error_new (Msg (''write schema.state: '' @ t)))), ?fs2)"
    using assms(2-5) files_writable [OF assms(2,3)]
    by (simp add: migrate_def io_op_def try_st_def write_lock_def registry_save_def dev_write_def)
  have "\<exists>r. registry_load rp fs1 = Inr r"
    using pending_load [OF assms(3)] by blast
  moreover have "fs_get fs1 ?state = fs_get ?fs2 ?state"
    by (simp add: fs_get_set)
  then have "registry_load rp fs1 = registry_load rp ?fs2"
    using read_text_cong [of fs1 ?state ?fs2] by (simp add: registry_load_def fs_exists_def)
  ultimately obtain r where r: "registry_load rp ?fs2 = Inr r" "registry_load rp fs = Inr r"
    using ok(7) by auto
  have rok: "registry_ok r"
    using assms(1) r(2) by (simp add: schema_plain_def)
  let ?fs3 = "fs_set ?state (File (as_bytes_str (to_state_file r))) ?fs2"
  have acc: "dev_accepts (\<lambda>_. None) p b" for p b
    by (simp add: dev_accepts_def)
  have "fs_get ?fs2 ?lock = Some (File (as_bytes_str (lock_body (mg_lock m))))"
    by (simp add: fs_get_set)
  from migrate_done [OF ok(5) r(1) this ok(1) _ acc dev_write_ok [OF acc files_writable(2) [OF assms(2,3)]]] ok(3,6)
  have "migrate (\<lambda>_. None) rp ?fs2 = (Inr \<lparr>mig_applied = [], mig_skipped = migration_names rp fs, mig_schema = r\<rparr>, ?fs3)"
    by simp
  moreover have "registry_load rp ?fs3 = Inr r"
    by (rule registry_load_written [OF _ rok]) (simp add: fs_get_set)
  ultimately show ?thesis
    using first r(2) by blast
qed

text \<open>C22: the schema that a sequence of plain statements builds is read back unchanged from the file it is
  saved to.\<close>

theorem schema_state_roundtrip:
  assumes "list_all plain_stmt stmts" "apply_statements stmts registry_new = Inr r"
    and "registry_save dev rp r fs = (Inr (), fs')"
  shows "registry_load rp fs' = Inr r"
proof -
  have ok: "registry_ok r"
    by (rule apply_statements_ok [OF _ assms(1,2)]) (simp add: registry_ok_def registry_new_def)
  have "fs_get fs' (rp @ [''schema.state'']) = Some (File (as_bytes_str (to_state_file r)))"
    by (cases rule: dev_write_cases [of dev "rp @ [''schema.state'']" "as_bytes_str (to_state_file r)" fs])
      (use assms(3) in \<open>auto simp: registry_save_def io_op_def fs_get_set\<close>)
  then show ?thesis
    using ok by (rule registry_load_written)
qed

end
