(* ===== verification/Schema_Examples.thy ===== *)
theory Schema_Examples
  imports Schema_Migrate
begin

text \<open>Concrete schema registries and migrations.\<close>

definition ex_source :: string where
  "ex_source = ''CREATE COLLECTION a KEY k INT''"

definition ex_registry :: SchemaRegistry where
  "ex_registry = \<lparr>collections = [(''a'', \<lparr>cs_name = ''a'', cs_primary_key = [\<lparr>fd_path = ''k'', fd_type = FT_Int\<rparr>],
     cs_indexes = []\<rparr>)]\<rparr>"

definition ex_migrations :: "string \<Rightarrow> Fs" where
  "ex_migrations src = \<lparr>fs_nodes = [([''r''], Dir), ([''r'', ''migrations''], Dir),
     ([''r'', ''migrations'', ''1.eql''], File (as_bytes_str src))], fs_clock = 0, fs_synced = []\<rparr>"

lemma ex_source_parse: "parse_migration ex_source = Inr [CreateCollection ''a'' [(''k'', FT_Int)]]"
  by code_simp

lemma ex_lock_name: "lock_name ''1.eql''"
  by (simp add: lock_name_def plain_word_def printable_def)

lemma ex_get:
  "fs_get (ex_migrations src) [''r'', ''migrations'', ''1.eql''] = Some (File (as_bytes_str src))"
  "fs_get (ex_migrations src) [''r''] = Some Dir" "fs_get (ex_migrations src) [''r'', ''migrations''] = Some Dir"
  "fs_get (ex_migrations src) [''r'', ''schema.lock''] = None" "fs_get (ex_migrations src) [''r'', ''schema.state''] = None"
  by (simp_all add: ex_migrations_def fs_get_def)

lemma sx_names: "migration_names [''r''] (ex_migrations src) = [''1.eql'']"
  by (simp add: migration_names_def fs_read_dir_def ex_migrations_def file_extension_def)

lemma ex_read: "valid_str src \<Longrightarrow> read_text [''r'', ''migrations'', ''1.eql''] (ex_migrations src) = Inr src"
  by (simp add: read_text_def fs_read_def ex_get read_to_string_valid)

lemma ex_pending:
  assumes "valid_str src"
  shows "pending [''r''] (ex_migrations src) =
    try_res (parse_migration src) (\<lambda>stmts.
    try_res (map_err P_Err (apply_statements stmts registry_new)) (\<lambda>schema.
    Inr \<lparr>mg_lock = [''1.eql''], mg_schema = schema, mg_applied = [''1.eql''], mg_skipped = []\<rparr>))"
proof -
  have "list_migration_files [''r'', ''migrations''] (ex_migrations src) = Inr [[''r'', ''migrations'', ''1.eql'']]"
    using sx_names [of src] by (simp add: list_migration_files_def ex_get migration_names_def)
  moreover have "migrate_file (ex_migrations src) [''r'', ''migrations'', ''1.eql'']
      \<lparr>mg_lock = [], mg_schema = registry_new, mg_applied = [], mg_skipped = []\<rparr> =
    try_res (parse_migration src) (\<lambda>stmts.
    try_res (map_err P_Err (apply_statements stmts registry_new)) (\<lambda>schema.
    Inr \<lparr>mg_lock = [''1.eql''], mg_schema = schema, mg_applied = [''1.eql''], mg_skipped = []\<rparr>))"
    using ex_read [OF assms] lock_name_lossy [OF ex_lock_name] by (simp add: migrate_file_def Let_def)
  ultimately show ?thesis
    by (auto simp: pending_def read_lock_def registry_load_def fs_exists_def ex_get try_res_def split: sum.splits)
qed

lemma ex_valid: "valid_str ex_source"
  by (rule valid_str_word) (simp add: ex_source_def printable_def)

lemma sx_create: "create_dir_all [''r'', ''migrations''] (ex_migrations src) = (Inr (), ex_migrations src)"
  by (simp add: create_dir_all_def ex_get)

definition ex_report :: MigrationReport where
  "ex_report = \<lparr>mig_applied = [''1.eql''], mig_skipped = [], mig_schema = ex_registry\<rparr>"

lemma ex_pending_source: "pending [''r''] (ex_migrations ex_source) =
    Inr \<lparr>mg_lock = [''1.eql''], mg_schema = ex_registry, mg_applied = [''1.eql''], mg_skipped = []\<rparr>"
proof -
  have "apply_statements [CreateCollection ''a'' [(''k'', FT_Int)]] registry_new = Inr ex_registry"
    by (simp add: registry_new_def ex_registry_def)
  then show ?thesis
    using ex_pending [OF ex_valid] ex_source_parse by simp
qed

text \<open>A device that never fails, one that refuses to write the schema, and one that breaks off after 60 bytes.\<close>

definition ex_healthy :: device where
  "ex_healthy = (\<lambda>_. None)"

definition ex_denied :: device where
  "ex_denied = (\<lambda>p. if p = [''r'', ''schema.state''] then Some (Denied ''Permission denied (os error 13)'') else None)"

definition ex_short :: device where
  "ex_short = (\<lambda>p. if p = [''r'', ''schema.state''] then Some (Short 60 ''No space left on device (os error 28)'') else None)"

lemma ex_migrate:
  "migrate ex_healthy [''r''] (ex_migrations ex_source) = (Inr ex_report, snd (migrate ex_healthy [''r''] (ex_migrations ex_source)))"
  using sx_create [of ex_source] ex_pending_source
  by (simp add: migrate_def io_op_def try_st_def write_lock_def registry_save_def dev_write_def ex_healthy_def lift_st_def
      fs_write_def ex_get fs_get_set ex_report_def)

lemma sx_plain: "schema_plain [''r''] (ex_migrations ex_source)"
  using ex_read [OF ex_valid] ex_source_parse ex_lock_name
  by (simp add: schema_plain_def sx_names plain_migration_def read_lock_def registry_load_def fs_exists_def ex_get
      registry_new_def registry_ok_def plain_word_def printable_def)

theorem migrate_idempotent_witness:
  "migrate ex_healthy [''r''] (snd (migrate ex_healthy [''r''] (ex_migrations ex_source))) =
     (Inr \<lparr>mig_applied = [], mig_skipped = [''1.eql''], mig_schema = ex_registry\<rparr>,
      snd (migrate ex_healthy [''r''] (ex_migrations ex_source)))"
  using migrate_idempotent [OF sx_plain ex_migrate] by (simp add: sx_names ex_report_def)

text \<open>The disk is full after 60 bytes of the schema file: the lock lists the migration, the schema is cut.\<close>

definition ex_full_disk_fs :: Fs where
  "ex_full_disk_fs = fs_set [''r'', ''schema.state''] (File (take 60 (as_bytes_str (to_state_file ex_registry))))
     (fs_set [''r'', ''schema.lock''] (File (as_bytes_str (lock_body [''1.eql'']))) (ex_migrations ex_source))"

lemma ex_full_disk: "\<exists>e. migrate ex_short [''r''] (ex_migrations ex_source) = (Inl e, ex_full_disk_fs)"
proof -
  have "60 < length (as_bytes_str (to_state_file ex_registry))"
    by code_simp
  then show ?thesis
    using sx_create [of ex_source] ex_pending_source
    by (simp add: migrate_def io_op_def try_st_def write_lock_def registry_save_def dev_write_def ex_short_def
        fs_write_def ex_get fs_get_set ex_full_disk_fs_def)
qed

theorem migrate_failure_witness:
  "(\<exists>pe. migrate ex_short [''r''] (ex_migrations ex_source) = (Inl (P_Err pe), ex_full_disk_fs))
    \<and> read_lock [''r''] ex_full_disk_fs = Inr [''1.eql'']
    \<and> fs_get ex_full_disk_fs [''r'', ''schema.state''] = Some (File (take 60 (as_bytes_str (to_state_file ex_registry))))"
proof -
  obtain e where e: "migrate ex_short [''r''] (ex_migrations ex_source) = (Inl e, ex_full_disk_fs)"
    using ex_full_disk by blast
  have get: "fs_get ex_full_disk_fs ([''r''] @ [''schema.lock'']) = Some (File (as_bytes_str (lock_body [''1.eql''])))"
    "fs_get ex_full_disk_fs [''r'', ''schema.state''] = Some (File (take 60 (as_bytes_str (to_state_file ex_registry))))"
    by (simp_all add: ex_full_disk_fs_def fs_get_set)
  have "read_lock [''r''] ex_full_disk_fs = Inr [''1.eql'']"
    by (rule read_lock_written [OF get(1)]) (simp add: ex_lock_name)
  then show ?thesis
    using migrate_failure [OF e] e get(2) by blast
qed

theorem migrate_schema_lost_witness:
  "\<exists>fs2 fs3. fst (migrate ex_denied [''r''] (ex_migrations ex_source)) =
      Inl (P_Err (parse_error_new (Msg ''write schema.state: Permission denied (os error 13)'')))
    \<and> snd (migrate ex_denied [''r''] (ex_migrations ex_source)) = fs2
    \<and> migrate (\<lambda>_. None) [''r''] fs2 =
        (Inr \<lparr>mig_applied = [], mig_skipped = [''1.eql''], mig_schema = registry_new\<rparr>, fs3)
    \<and> registry_load [''r''] fs3 = Inr registry_new"
proof -
  have "registry_load [''r''] (ex_migrations ex_source) = Inr registry_new"
    by (simp add: registry_load_def fs_exists_def ex_get)
  moreover have "ex_denied ([''r''] @ [''schema.lock'']) = None"
    "ex_denied ([''r''] @ [''schema.state'']) = Some (Denied ''Permission denied (os error 13)'')"
    by (simp_all add: ex_denied_def)
  moreover have "create_dir_all ([''r''] @ [''migrations'']) (ex_migrations ex_source) = (Inr (), ex_migrations ex_source)"
    using sx_create by simp
  ultimately show ?thesis
    using migrate_schema_lost [OF sx_plain _ ex_pending_source, of ex_denied "''Permission denied (os error 13)''"]
    by (auto simp: sx_names)
qed

definition ex_statements :: "DdlStatement list" where
  "ex_statements = [CreateCollection ''a'' [(''k'', FT_Int)], CreateIndex ''a'' ''b.c'' FT_String]"

definition ex_indexed :: SchemaRegistry where
  "ex_indexed = \<lparr>collections = [(''a'', \<lparr>cs_name = ''a'', cs_primary_key = [\<lparr>fd_path = ''k'', fd_type = FT_Int\<rparr>],
     cs_indexes = [\<lparr>ix_name = ''a.by_b_c'', ix_path = ''b.c'', ix_type = FT_String\<rparr>]\<rparr>)]\<rparr>"

theorem schema_state_roundtrip_witness:
  "registry_load [''r''] (snd (registry_save ex_healthy [''r''] ex_indexed (ex_migrations ''''))) = Inr ex_indexed"
proof -
  have "list_all plain_stmt ex_statements"
    by (simp add: ex_statements_def plain_word_def printable_def)
  moreover have "apply_statements ex_statements registry_new = Inr ex_indexed"
    by (simp add: ex_statements_def ex_indexed_def registry_new_def index_name_for_def)
  moreover have "registry_save ex_healthy [''r''] ex_indexed (ex_migrations '''') =
      (Inr (), snd (registry_save ex_healthy [''r''] ex_indexed (ex_migrations '''')))"
    by (simp add: registry_save_def io_op_def dev_write_def ex_healthy_def fs_write_def ex_get)
  ultimately show ?thesis
    by (rule schema_state_roundtrip)
qed

end
