(* ===== verification/Spec2Isabelle.thy ===== *)
theory Spec2Isabelle
  imports Disk_Examples Ql_Eval Schema_Examples
begin

text \<open>
  \<^bold>\<open>Epochs\<close> is a content-addressed, versioned key-value store with a query language. Objects are
  appended to segment files and found through an index by their BLAKE3 hash; documents are
  persistent hash tries whose nodes are such objects; commits point to a trie root and to parent
  commits; branches and HEAD are small files; EpochQL statements are tokenized, parsed and run
  against the store. This development models the parts below and proves what they promise.

  \<^bold>\<open>Conventions.\<close> \<open>Result<T, E>\<close> is \<open>'e + 'a\<close>; a method with \<open>&mut self\<close> maps the state to a result
  and the new state (\<open>try_res\<close>, \<open>try_st\<close> are \<open>?\<close>). Integers that can overflow are words. A \<open>HashMap\<close>
  is an association list whose order stands for the unspecified iteration order; a \<open>BTreeMap\<close> is
  a key-sorted one. Strings are their UTF-8 bytes. Panics and running out of fuel are failures of
  their own, so that a theorem about a result excludes them.

  \<^bold>\<open>Parameters.\<close> BLAKE3 is the function \<open>H\<close>; theorems on reading back assume \<open>collision_free H U\<close> for
  the objects involved. The memory-mapping crate is \<open>M\<close> with \<open>mmap_ok M\<close>: a mapping shows the file.
  Witnesses instantiate them with \<open>pad_hash\<close> and \<open>Inr\<close>.

  \<^bold>\<open>Foundations.\<close>
  \<^item> \<open>Prelude\<close>: results, little-endian bytes, UTF-8 validation, decimal numbers, hash and tree maps.
  \<^item> \<open>Rust_Str\<close>, \<open>Rust_Chars\<close>, \<open>Rust_Fmt\<close>: the functions on \<open>str\<close>, \<open>char\<close>, integers and \<open>f64\<close> that the
    code uses, parsing and printing included.
  \<^item> \<open>Fs\<close>: files, directories, the clock and the buffered writer. The contents that \<open>sync_data\<close> has made
    stable are recorded; \<open>power_loss\<close> relates a file system to any that a power failure may leave of it:
    what is synchronised is kept, the rest of the contents may be anything. Directories and the names in
    them are taken to be stable.

  \<^bold>\<open>Core (\<open>epochs-core/src\<close>).\<close>
  \<^item> \<open>Hashes\<close> (\<open>hash.rs\<close>, \<open>error.rs\<close>, \<open>branch.rs\<close>), \<open>Codec\<close> (\<open>codec/\<close>), \<open>Crc32\<close> (\<open>crc32.rs\<close>), \<open>Cache\<close>
    (\<open>cache.rs\<close>), \<open>Records\<close> (\<open>cas/record.rs\<close>), \<open>Commits\<close> (\<open>commit.rs\<close>): formats, with exact round trips
    (which values survive encoding, and that decoding accepts nothing else), the equality of the
    table-driven checksum with its bitwise definition, and the cache as a bounded list.
  \<^item> \<open>Cas\<close> (\<open>cas/mod.rs\<close>, \<open>cas/mem.rs\<close>): the locale \<open>cas_backend\<close> is the contract of an object store;
    it is interpreted for the memory store here and for the segment store in \<open>Cas_Disk\<close>.
  \<^item> \<open>Cas_Index\<close> (\<open>cas/index.rs\<close>), \<open>Cas_Store\<close> (\<open>cas/store.rs\<close>), \<open>Cas_Disk\<close>, \<open>Cas_Reopen\<close>, \<open>Cas_Sync\<close>: the
    segment store, its invariant over all reachable states (\<open>cas_step\<close>), durability across clean
    restarts, what the death of the process loses, when \<open>put\<close> fails, what a torn index does to later
    entries, and that after \<open>flush\<close> a power failure loses no object (\<open>sync_ok\<close> is the invariant that
    only bytes the store knows of are not synchronised).
  \<^item> \<open>Hamt_Node\<close>, \<open>Hamt\<close> (\<open>hamt/node.rs\<close>, \<open>hamt/tree.rs\<close>): the trie operations over any backend.
    \<open>Hamt_Tree\<close> and \<open>Hamt_Map\<close> are the same algorithms on trees and what they do to the map a tree
    denotes; \<open>Hamt_Store\<close> is the refinement, proved once in \<open>cas_backend\<close>; \<open>Hamt_Api\<close> has the results
    for the public operations. Fuel: one unit per level, at most 52 levels before a full hash
    collision, so termination needs only that no two keys share a hash.
  \<^item> \<open>Dag\<close> (\<open>dag/algorithms.rs\<close>): graph searches, proved in the locale \<open>commit_store\<close>, with fuel above
    the number of ancestors.
  \<^item> \<open>Repo\<close> (\<open>repo/manifest.rs\<close>): branch files as a map on plain names, HEAD, and what names with
    slashes and dots do.
  \<^item> \<open>Disk_Store\<close> (\<open>store/disk.rs\<close>, \<open>store/dag.rs\<close>): the store API. \<open>Disk_Frame\<close> shows that objects and
    branches do not touch each other's files; \<open>Disk_Dag\<close> has the theorems on commits, branches,
    fsync and the graph; \<open>Disk_Examples\<close> their concrete instances. The process-wide counter of
    \<open>next_timestamp\<close> is a field of the store, so two stores in one process do not share it here. Branch
    and HEAD files are never synchronised by the code; nothing is claimed of them after a power failure.

  \<^bold>\<open>Query language (\<open>epochql/src\<close>).\<close>
  \<^item> \<open>Ql_Lexer\<close> (\<open>lexer.rs\<close>, \<open>error.rs\<close>) and \<open>Ql_Tokens\<close>: the tokenizer terminates, its tokens tile the
    source as the lexical grammar \<open>token_text\<close> says, and an error is at the first place, after whole
    tokens and layout, where the rest of the source starts with no token (\<open>offending\<close>).
  \<^item> \<open>Ql_Ast\<close> (\<open>ast.rs\<close>), \<open>Ql_Parser\<close> (\<open>parser.rs\<close>), \<open>Ql_Grammar\<close>, \<open>Ql_Statements\<close>: the parser returns on
    every source, without a panic, a well-formed statement or a located error. Fuel: one unit per
    token, since every recursive call and every turn of a loop consumes a token.

  \<^item> \<open>Ql_Value\<close> (\<open>exec/value.rs\<close>, \<open>schema/path.rs\<close>): values, results and their printed forms, documents
    and paths into them.
  \<^item> \<open>Ql_Eval\<close> (the part of \<open>exec/engine.rs\<close> that does not touch the store): expressions, equality of
    values, commit payloads, labels and hop bounds. Evaluation fails exactly on unbound variables,
    payloads are stored leaf by leaf under dotted paths, and texts of six bytes or more are compared
    by prefix, so that equality is not transitive.
  \<^item> \<open>Schema_Ddl\<close> (\<open>schema/ddl.rs\<close>), \<open>Schema_Registry\<close> (\<open>schema/registry.rs\<close>), \<open>Schema_Migrate\<close>
    (\<open>schema/migrate.rs\<close>): the migration parser is total, \<open>schema.state\<close> gives back the registry when
    names are plain words, and what happens when they are not. Writing the two schema files goes through
    a \<open>device\<close> that may refuse a write or break it off. When all names are plain (\<open>schema_plain\<close>)
    migrating is idempotent; a failing run leaves the two files in one of four states, one of which loses
    the schema for good. \<open>Schema_Examples\<close> has a concrete repository.

  \<^bold>\<open>Not modelled.\<close> The methods of the query engine that read and change the store (pattern
  matching, traversals, commit, merge and diff statements in \<open>exec/engine.rs\<close>; the store operations they
  call are modelled), the maintenance of secondary indexes on commit (\<open>schema/index.rs\<close>), the server (asynchronous network I/O on an external
  runtime), the command line (argument parsing by an external crate, printing) and the benchmarks
  (timing around external databases). Failing or full devices are modelled for the two schema files only:
  elsewhere, in \<open>CasStore::put\<close>, \<open>flush\<close> and the branch files, an I/O error comes from the state of the file
  system (a missing file, a directory in its place), never from the device. Concurrent processes on one
  repository and stack depth are outside the model.
\<close>

end
